(* ===== verification/Prelude.thy ===== *)
theory Prelude
  imports Main "HOL-Library.Word"
begin

text \<open>
  Shared vocabulary of the development: machine integers, run-time faults and the result
  type of fallible code, and a store of heap objects with a reusing allocator, together with
  the automation that the component theories rest on (the collections \<open>fault_simps\<close> and
  \<open>heap_simps\<close>).
\<close>

named_theorems fault_simps \<comment> \<open>unfolding of the result type's sequencing\<close>
named_theorems heap_simps  \<comment> \<open>reads over allocations, writes and frees\<close>

section \<open>Machine integers\<close>

type_synonym u8 = "8 word"
type_synonym u16 = "16 word"
type_synonym u32 = "32 word"
type_synonym u64 = "64 word"

section \<open>Faults and results\<close>

text \<open>
  What the C code does not survive is a value: a null or dangling pointer that is
  dereferenced, an access outside an object, a failed assertion, the use of a variable that
  was never assigned. \<open>Exited\<close> is the end of a program that gives up on a failing system call.
\<close>

datatype fault =
    NullDeref
  | UseAfterFree
  | OutOfBounds
  | AssertFailed
  | UninitRead
  | Exited

type_synonym 'a res = "fault + 'a"

definition bindE :: "'a res \<Rightarrow> ('a \<Rightarrow> 'b res) \<Rightarrow> 'b res" where
  "bindE r f = (case r of Inl e \<Rightarrow> Inl e | Inr x \<Rightarrow> f x)"

lemma bindE_Inl [simp, fault_simps]: "bindE (Inl e) f = Inl e"
  by (simp add: bindE_def)

lemma bindE_Inr [simp, fault_simps]: "bindE (Inr x) f = f x"
  by (simp add: bindE_def)

lemma bindE_eq_Inr [fault_simps]: "bindE r f = Inr y \<longleftrightarrow> (\<exists>x. r = Inr x \<and> f x = Inr y)"
  by (cases r) simp_all

lemma bindE_eq_Inl [fault_simps]:
  "bindE r f = Inl e \<longleftrightarrow> r = Inl e \<or> (\<exists>x. r = Inr x \<and> f x = Inl e)"
  by (cases r) simp_all

lemma bindE_assoc: "bindE (bindE r f) g = bindE r (\<lambda>x. bindE (f x) g)"
  by (cases r) simp_all

lemma bindE_cong [fundef_cong]:
  "r = r' \<Longrightarrow> (\<And>x. r' = Inr x \<Longrightarrow> f x = f' x) \<Longrightarrow> bindE r f = bindE r' f'"
  by (cases r') simp_all

text \<open>A null check followed by a dereference.\<close>

definition deref :: "'a option \<Rightarrow> 'a res" where
  "deref p = (case p of None \<Rightarrow> Inl NullDeref | Some x \<Rightarrow> Inr x)"

lemma deref_simps [simp, fault_simps]: "deref None = Inl NullDeref" "deref (Some x) = Inr x"
  by (simp_all add: deref_def)

lemma deref_eq_Inr [fault_simps]: "deref p = Inr x \<longleftrightarrow> p = Some x"
  by (cases p) simp_all

section \<open>Heap objects\<close>

text \<open>
  A store of objects of one type: slot \<open>a\<close> holds the object at address \<open>a\<close>, or nothing
  when the address is free. The allocator hands out the first free slot, so an address that
  was freed is used again and a dangling pointer may come to alias a new object, as with
  \<open>malloc\<close> and \<open>free\<close>.
\<close>

type_synonym 'a heap = "'a option list"
type_synonym addr = nat

fun free_slot :: "'a heap \<Rightarrow> addr" where
  "free_slot [] = 0"
| "free_slot (None # h) = 0"
| "free_slot (Some x # h) = Suc (free_slot h)"

definition h_alloc :: "'a \<Rightarrow> 'a heap \<Rightarrow> addr \<times> 'a heap" where
  "h_alloc x h =
     (let a = free_slot h
      in (a, if a < length h then h[a := Some x] else h @ [Some x]))"

definition h_read :: "'a heap \<Rightarrow> addr \<Rightarrow> 'a res" where
  "h_read h a =
     (if a < length h then (case h ! a of None \<Rightarrow> Inl UseAfterFree | Some x \<Rightarrow> Inr x)
      else Inl UseAfterFree)"

definition h_write :: "addr \<Rightarrow> 'a \<Rightarrow> 'a heap \<Rightarrow> 'a heap res" where
  "h_write a x h = bindE (h_read h a) (\<lambda>_. Inr (h[a := Some x]))"

definition h_free :: "addr \<Rightarrow> 'a heap \<Rightarrow> 'a heap res" where
  "h_free a h = bindE (h_read h a) (\<lambda>_. Inr (h[a := None]))"

definition live :: "'a heap \<Rightarrow> nat" where
  "live h = length (filter (\<lambda>s. s \<noteq> None) h)"

lemma free_slot_le: "free_slot h \<le> length h"
  by (induction h rule: free_slot.induct) auto

lemma free_slot_free: "free_slot h < length h \<Longrightarrow> h ! free_slot h = None"
  by (induction h rule: free_slot.induct) auto

lemma h_read_Inr: "h_read h a = Inr x \<longleftrightarrow> a < length h \<and> h ! a = Some x"
  by (auto simp: h_read_def split: option.splits)

lemma h_alloc_fresh: "h_alloc x h = (a, h') \<Longrightarrow> h_read h a = Inl UseAfterFree"
  using free_slot_free[of h] by (auto simp: h_alloc_def h_read_def Let_def split: option.splits)

lemma h_alloc_read [heap_simps]:
  assumes "h_alloc x h = (a, h')"
  shows "h_read h' b = (if b = a then Inr x else h_read h b)"
  using assms free_slot_le[of h]
  by (auto simp: h_alloc_def h_read_def Let_def nth_append nth_list_update
      split: if_splits option.splits)

lemma h_write_Inr:
  "h_write a x h = Inr h' \<longleftrightarrow> (\<exists>y. h_read h a = Inr y) \<and> h' = h[a := Some x]"
  by (auto simp: h_write_def fault_simps)

lemma h_write_read [heap_simps]:
  "h_write a x h = Inr h' \<Longrightarrow> h_read h' b = (if b = a then Inr x else h_read h b)"
  by (auto simp: h_write_Inr h_read_def nth_list_update)

lemma h_free_Inr:
  "h_free a h = Inr h' \<longleftrightarrow> (\<exists>y. h_read h a = Inr y) \<and> h' = h[a := None]"
  by (auto simp: h_free_def fault_simps)

lemma h_free_read [heap_simps]:
  "h_free a h = Inr h' \<Longrightarrow> h_read h' b = (if b = a then Inl UseAfterFree else h_read h b)"
  by (auto simp: h_free_Inr h_read_def nth_list_update split: option.splits)

lemma h_read_fault: "h_read h a = Inl e \<Longrightarrow> e = UseAfterFree"
  by (auto simp: h_read_def split: if_splits option.splits)

lemma live_update_None:
  "a < length h \<Longrightarrow> h ! a = Some x \<Longrightarrow> live (h[a := None]) < live h"
  by (induction h arbitrary: a) (auto simp: live_def nth_Cons split: nat.splits)

lemma h_free_live: "h_free a h = Inr h' \<Longrightarrow> live h' < live h"
  by (auto simp: h_free_Inr h_read_Inr intro: live_update_None)

text \<open>The objects at \<open>A\<close> have been freed, all others are as they were.\<close>

definition freed :: "addr set \<Rightarrow> 'a heap \<Rightarrow> 'a heap \<Rightarrow> bool" where
  "freed A h h' \<longleftrightarrow> (\<forall>x. h_read h' x = (if x \<in> A then Inl UseAfterFree else h_read h x))"

lemma freed_step: "h_free a h = Inr h1 \<Longrightarrow> freed A h1 h' \<Longrightarrow> freed (insert a A) h h'"
  by (auto simp: freed_def heap_simps)

lemma freed_trans: "freed A h h1 \<Longrightarrow> freed B h1 h2 \<Longrightarrow> freed (A \<union> B) h h2"
  by (simp add: freed_def)

lemma live_readable: "live h = card {a. \<exists>x. h_read h a = Inr x}"
proof -
  have "{a. \<exists>x. h_read h a = Inr x} = {i. i < length h \<and> h ! i \<noteq> None}" by (auto simp: h_read_Inr)
  then show ?thesis by (simp add: live_def length_filter_conv_card)
qed

lemma none_live: "(\<And>a x. h_read h a \<noteq> Inr x) \<Longrightarrow> live h = 0"
  by (simp add: live_readable)

section \<open>Lists\<close>

text \<open>Overwriting a stretch of an array, as \<open>memcpy (buf + off, xs, n)\<close> does.\<close>

definition put_at :: "nat \<Rightarrow> 'a list \<Rightarrow> 'a list \<Rightarrow> 'a list" where
  "put_at off xs buf = take off buf @ xs @ drop (off + length xs) buf"

definition bytes_at :: "nat \<Rightarrow> nat \<Rightarrow> 'a list \<Rightarrow> 'a list" where
  "bytes_at off n buf = take n (drop off buf)"

lemma length_put_at [simp]:
  "off + length xs \<le> length buf \<Longrightarrow> length (put_at off xs buf) = length buf"
  by (simp add: put_at_def)

lemma length_bytes_at [simp]: "off + n \<le> length buf \<Longrightarrow> length (bytes_at off n buf) = n"
  by (simp add: bytes_at_def)

lemma nth_bytes_at: "i < n \<Longrightarrow> off + n \<le> length buf \<Longrightarrow> bytes_at off n buf ! i = buf ! (off + i)"
  by (simp add: bytes_at_def)

lemma bytes_at_0 [simp]: "bytes_at i 0 buf = []"
  by (simp add: bytes_at_def)

lemma bytes_at_Suc:
  "i < length buf \<Longrightarrow> bytes_at i (Suc n) buf = buf ! i # bytes_at (Suc i) n buf"
  by (simp add: bytes_at_def Cons_nth_drop_Suc[symmetric])

lemma split_bytes_at: "buf = take i buf @ bytes_at i n buf @ drop (i + n) buf"
  using append_take_drop_id[of i buf] append_take_drop_id[of n "drop i buf"]
  by (simp add: bytes_at_def add.commute)

lemma nth_put_at:
  assumes "off + length xs \<le> length buf" and "i < length buf"
  shows "put_at off xs buf ! i =
    (if off \<le> i \<and> i < off + length xs then xs ! (i - off) else buf ! i)"
  using assms by (auto simp: put_at_def nth_append min_def)

lemma bytes_put_same:
  "off + length xs \<le> length buf \<Longrightarrow> bytes_at off (length xs) (put_at off xs buf) = xs"
  by (simp add: bytes_at_def put_at_def)

lemma bytes_put_other:
  assumes "off + length xs \<le> length buf" and "i + n \<le> length buf"
    and "i + n \<le> off \<or> off + length xs \<le> i"
  shows "bytes_at i n (put_at off xs buf) = bytes_at i n buf"
  using assms by (intro nth_equalityI) (auto simp: nth_bytes_at nth_put_at)

end
