(* ===== verification/Pkt_Queue.thy ===== *)
theory Pkt_Queue
  imports Prelude
begin

text \<open>
  The router's packet queue: the list cells of \<open>PCom1/list.c\<close> and the linked queue of
  \<open>PCom1/queue.c\<close>, over an explicit heap of cells. The queue header is a record of two
  pointers; after the last element is removed \<open>tail\<close> is left dangling, as in the code.
  The contract of the queue is the locale \<open>fifo\<close>, interpreted on these operations.
\<close>

section \<open>list.c\<close>

record 'a cell =
  element :: 'a
  "next" :: "addr option"

definition cons :: "'a \<Rightarrow> addr option \<Rightarrow> 'a cell heap \<Rightarrow> addr \<times> 'a cell heap" where
  "cons el l h = h_alloc \<lparr>element = el, next = l\<rparr> h"

definition cdr_and_free :: "addr option \<Rightarrow> 'a cell heap \<Rightarrow> (addr option \<times> 'a cell heap) res" where
  "cdr_and_free l h =
     bindE (deref l) (\<lambda>a.
     bindE (h_read h a) (\<lambda>c.
     bindE (h_free a h) (\<lambda>h'. Inr (next c, h'))))"

section \<open>queue.c\<close>

record queue =
  head :: "addr option"
  tail :: "addr option"

type_synonym 'a qstate = "queue \<times> 'a cell heap"

definition queue_create :: queue where
  "queue_create = \<lparr>head = None, tail = None\<rparr>"

definition queue_empty :: "queue \<Rightarrow> bool" where
  "queue_empty q \<longleftrightarrow> head q = None"

text \<open>\<open>p->next = v\<close> through a cell pointer.\<close>

definition set_next :: "addr option \<Rightarrow> addr option \<Rightarrow> 'a cell heap \<Rightarrow> 'a cell heap res" where
  "set_next p v h =
     bindE (deref p) (\<lambda>a.
     bindE (h_read h a) (\<lambda>c. h_write a (c\<lparr>next := v\<rparr>) h))"

definition queue_enq :: "'a \<Rightarrow> 'a qstate \<Rightarrow> 'a qstate res" where
  "queue_enq el s =
     (let (q, h) = s; (a, h1) = cons el None h
      in if queue_empty q then Inr (q\<lparr>head := Some a, tail := Some a\<rparr>, h1)
         else bindE (set_next (tail q) (Some a) h1) (\<lambda>h2.
              bindE (deref (tail q)) (\<lambda>t.
              bindE (h_read h2 t) (\<lambda>c. Inr (q\<lparr>tail := next c\<rparr>, h2)))))"

definition queue_deq :: "'a qstate \<Rightarrow> ('a \<times> 'a qstate) res" where
  "queue_deq s =
     (let (q, h) = s
      in if queue_empty q then Inl AssertFailed
         else bindE (deref (head q)) (\<lambda>a.
              bindE (h_read h a) (\<lambda>c.
              bindE (cdr_and_free (head q) h) (\<lambda>(l, h').
              Inr (element c, (q\<lparr>head := l\<rparr>, h'))))))"

definition queue_top :: "'a qstate \<Rightarrow> 'a res" where
  "queue_top s =
     (let (q, h) = s
      in if queue_empty q then Inl AssertFailed
         else bindE (deref (head q)) (\<lambda>a. bindE (h_read h a) (\<lambda>c. Inr (element c))))"

section \<open>Representation\<close>

text \<open>The cells reached from a pointer, in order, with the elements they hold.\<close>

fun chain :: "'a cell heap \<Rightarrow> addr option \<Rightarrow> addr list \<Rightarrow> 'a list \<Rightarrow> bool" where
  "chain h p [] [] \<longleftrightarrow> p = None"
| "chain h p (a # as) (x # xs) \<longleftrightarrow>
     p = Some a \<and> (\<exists>n. h_read h a = Inr \<lparr>element = x, next = n\<rparr> \<and> chain h n as xs)"
| "chain h p _ _ \<longleftrightarrow> False"

definition queue_repr :: "'a qstate \<Rightarrow> 'a list \<Rightarrow> bool" where
  "queue_repr s xs \<longleftrightarrow>
     (\<exists>as. chain (snd s) (head (fst s)) as xs \<and> distinct as \<and>
           (as \<noteq> [] \<longrightarrow> tail (fst s) = Some (last as)))"

lemma chain_length: "chain h p as xs \<Longrightarrow> length as = length xs"
  by (induction h p as xs rule: chain.induct) auto

lemma chain_Cons_iff:
  "chain h p as (x # xs) \<longleftrightarrow>
     (\<exists>a bs n. as = a # bs \<and> p = Some a \<and>
        h_read h a = Inr \<lparr>element = x, next = n\<rparr> \<and> chain h n bs xs)"
  by (cases as) auto

lemma chain_live: "chain h p as xs \<Longrightarrow> a \<in> set as \<Longrightarrow> \<exists>c. h_read h a = Inr c"
  by (induction h p as xs rule: chain.induct) auto

lemma chain_frame:
  "chain h p as xs \<Longrightarrow> (\<And>a. a \<in> set as \<Longrightarrow> h_read h' a = h_read h a) \<Longrightarrow> chain h' p as xs"
  by (induction h p as xs rule: chain.induct) auto

lemma chain_unique: "chain h p as xs \<Longrightarrow> chain h p bs ys \<Longrightarrow> as = bs \<and> xs = ys"
proof (induction h p as xs arbitrary: bs ys rule: chain.induct)
  case (1 h p)
  then show ?case by (cases bs; cases ys) auto
next
  case (2 h p a as x xs)
  then show ?case by (cases bs; cases ys) auto
qed auto

lemma chain_snoc:
  assumes "chain h p as xs" and "distinct as" and "as \<noteq> []"
    and "h_read h' b = Inr \<lparr>element = x, next = None\<rparr>" and "b \<notin> set as"
    and "\<And>c. h_read h (last as) = Inr c \<Longrightarrow> h_read h' (last as) = Inr (c\<lparr>next := Some b\<rparr>)"
    and "\<And>a. a \<in> set (butlast as) \<Longrightarrow> h_read h' a = h_read h a"
  shows "chain h' p (as @ [b]) (xs @ [x])"
  using assms
proof (induction h p as xs rule: chain.induct)
  case (2 h p a as y xs)
  show ?case
  proof (cases "as = []")
    case True
    with 2 show ?thesis by (cases xs) auto
  next
    case False
    from 2(2) obtain n where n: "p = Some a" "h_read h a = Inr \<lparr>element = y, next = n\<rparr>"
      "chain h n as xs" by auto
    from 2 False n have "chain h' n (as @ [b]) (xs @ [x])"
      by (intro "2.IH"[of n]) auto
    with n False 2(8)[of a] show ?thesis by auto
  qed
qed auto

lemma queue_repr_unique: "queue_repr s xs \<Longrightarrow> queue_repr s ys \<Longrightarrow> xs = ys"
  by (auto simp: queue_repr_def dest: chain_unique)

lemma queue_empty_repr: "queue_repr s xs \<Longrightarrow> queue_empty (fst s) \<longleftrightarrow> xs = []"
  by (cases xs) (auto simp: queue_repr_def queue_empty_def neq_Nil_conv elim: chain.elims)

lemma queue_create_repr: "queue_repr (queue_create, h) []"
  by (auto simp: queue_repr_def queue_create_def intro: exI[of _ "[]"])


lemma queue_enq_repr:
  assumes "queue_repr s xs"
  shows "\<exists>s'. queue_enq x s = Inr s' \<and> queue_repr s' (xs @ [x])"
proof -
  obtain q h where s: "s = (q, h)" by (cases s)
  from assms s obtain as where as: "chain h (head q) as xs" "distinct as"
    "as \<noteq> [] \<longrightarrow> tail q = Some (last as)" by (auto simp: queue_repr_def)
  obtain b h1 where al: "cons x None h = (b, h1)" by fastforce
  note rd = h_alloc_read[OF al[unfolded cons_def]]
  have fresh: "b \<notin> set as"
    using chain_live[OF as(1), of b] h_alloc_fresh[OF al[unfolded cons_def]] by auto
  show ?thesis
  proof (cases "as = []")
    case True
    with as have "head q = None" "xs = []" by (cases xs; simp)+
    with s al rd show ?thesis
      by (auto simp: queue_enq_def queue_empty_def queue_repr_def intro!: exI[of _ "[b]"])
  next
    case False
    then obtain z where hd: "head q = Some z" using as(1) by (cases as; cases xs) auto
    let ?t = "last as"
    have t: "tail q = Some ?t" using as(3) False by simp
    have ne: "?t \<noteq> b" using fresh False by auto
    obtain c where c: "h_read h ?t = Inr c" using chain_live[OF as(1)] False by fastforce
    obtain h2 where h2: "h_write ?t (c\<lparr>next := Some b\<rparr>) h1 = Inr h2"
      using c ne by (auto simp: h_write_Inr rd)
    note rd2 = h_write_read[OF h2] rd
    have ch: "chain h2 (head q) (as @ [b]) (xs @ [x])"
    proof (rule chain_snoc[OF as(1,2) False])
      fix a assume "a \<in> set (butlast as)"
      moreover from this as(2) False have "a \<noteq> ?t"
        by (metis append_butlast_last_id distinct_butlast not_distinct_conv_prefix)
      ultimately show "h_read h2 a = h_read h a"
        using fresh by (auto simp: rd2 dest: in_set_butlastD)
    qed (use c ne fresh in \<open>auto simp: rd2\<close>)
    have "queue_enq x s = Inr (q\<lparr>tail := Some b\<rparr>, h2)"
      using s al hd t c ne h2
      by (simp add: queue_enq_def queue_empty_def set_next_def rd2)
    with ch as(2) fresh show ?thesis
      by (auto simp: queue_repr_def intro!: exI[of _ "as @ [b]"])
  qed
qed

lemma queue_top_repr: "queue_repr s (x # xs) \<Longrightarrow> queue_top s = Inr x"
  by (auto simp: queue_repr_def queue_top_def queue_empty_def split_beta chain_Cons_iff)

lemma queue_deq_repr:
  assumes "queue_repr s (x # xs)"
  shows "\<exists>s'. queue_deq s = Inr (x, s') \<and> queue_repr s' xs"
proof -
  obtain q h where s: "s = (q, h)" by (cases s)
  from assms s obtain a as n where a: "head q = Some a"
    "h_read h a = Inr \<lparr>element = x, next = n\<rparr>" "chain h n as xs" "distinct (a # as)"
    "tail q = Some (last (a # as))"
    by (auto simp: queue_repr_def chain_Cons_iff)
  obtain h' where h': "h_free a h = Inr h'" using a(2) by (auto simp: h_free_Inr)
  have "chain h' n as xs"
    by (rule chain_frame[OF a(3)]) (use a(4) in \<open>auto simp: h_free_read[OF h']\<close>)
  with a s h' show ?thesis
    by (auto simp: queue_deq_def queue_empty_def cdr_and_free_def queue_repr_def
        split: if_splits intro!: exI[of _ as])
qed

lemma queue_fault_repr:
  "queue_repr s [] \<Longrightarrow> queue_deq s = Inl AssertFailed \<and> queue_top s = Inl AssertFailed"
  using queue_empty_repr[of s "[]"] by (cases s) (auto simp: queue_deq_def queue_top_def)

text \<open>Every removal frees one cell: the measure of loops that drain the queue.\<close>

lemma queue_deq_live: "queue_deq (q, h) = Inr (x, (q', h')) \<Longrightarrow> live h' < live h"
  by (auto simp: queue_deq_def cdr_and_free_def fault_simps dest: h_free_live split: if_splits)

section \<open>The contract of the queue\<close>

text \<open>
  A first-in first-out queue as its users see it: a representation relation to the list of
  the waiting elements, and one law for each operation, the failed assertions on the empty
  queue included.
\<close>

locale fifo =
  fixes create :: 's
    and enq :: "'a \<Rightarrow> 's \<Rightarrow> 's res"
    and deq :: "'s \<Rightarrow> ('a \<times> 's) res"
    and top :: "'s \<Rightarrow> 'a res"
    and empty :: "'s \<Rightarrow> bool"
    and repr :: "'s \<Rightarrow> 'a list \<Rightarrow> bool"
  assumes create_repr: "repr create []"
    and enq_repr: "repr s xs \<Longrightarrow> \<exists>s'. enq x s = Inr s' \<and> repr s' (xs @ [x])"
    and deq_repr: "repr s (x # xs) \<Longrightarrow> \<exists>s'. deq s = Inr (x, s') \<and> repr s' xs"
    and top_repr: "repr s (x # xs) \<Longrightarrow> top s = Inr x"
    and empty_repr: "repr s xs \<Longrightarrow> empty s \<longleftrightarrow> xs = []"
    and fault_repr: "repr s [] \<Longrightarrow> deq s = Inl AssertFailed \<and> top s = Inl AssertFailed"
begin

lemma enq_D: "repr s xs \<Longrightarrow> enq x s = Inr s' \<Longrightarrow> repr s' (xs @ [x])"
  using enq_repr[of s xs x] by auto

lemma deq_D: "repr s xs \<Longrightarrow> deq s = Inr (x, s') \<Longrightarrow> \<exists>ys. xs = x # ys \<and> repr s' ys"
  using deq_repr[of s] fault_repr[of s] by (cases xs) fastforce+

lemma top_D: "repr s xs \<Longrightarrow> top s = Inr x \<Longrightarrow> \<exists>ys. xs = x # ys"
  using top_repr[of s] fault_repr[of s] by (cases xs) fastforce+

end

interpretation pq: fifo "(queue_create, [])" queue_enq queue_deq queue_top
  "\<lambda>s. queue_empty (fst s)" queue_repr
  by (unfold_locales; (rule queue_create_repr queue_enq_repr queue_deq_repr queue_top_repr
        queue_empty_repr queue_fault_repr; assumption?))

section \<open>Runs of the queue\<close>

text \<open>
  A client's sequence of calls, run on the code's queue and on a plain list: the refinement
  that the rest of the development relies on.
\<close>

datatype 'a qop = Enq 'a | Deq | Top | Empty

datatype 'a qout = Done | Got 'a | IsEmpty bool

fun queue_run :: "'a qop list \<Rightarrow> 'a qstate \<Rightarrow> 'a qout list res" where
  "queue_run [] s = Inr []"
| "queue_run (Enq x # ops) s =
     bindE (queue_enq x s) (\<lambda>s'. bindE (queue_run ops s') (\<lambda>os. Inr (Done # os)))"
| "queue_run (Deq # ops) s =
     bindE (queue_deq s) (\<lambda>(x, s'). bindE (queue_run ops s') (\<lambda>os. Inr (Got x # os)))"
| "queue_run (Top # ops) s =
     bindE (queue_top s) (\<lambda>x. bindE (queue_run ops s) (\<lambda>os. Inr (Got x # os)))"
| "queue_run (Empty # ops) s =
     bindE (queue_run ops s) (\<lambda>os. Inr (IsEmpty (queue_empty (fst s)) # os))"

fun list_run :: "'a qop list \<Rightarrow> 'a list \<Rightarrow> 'a qout list res" where
  "list_run [] xs = Inr []"
| "list_run (Enq x # ops) xs = bindE (list_run ops (xs @ [x])) (\<lambda>os. Inr (Done # os))"
| "list_run (Deq # ops) [] = Inl AssertFailed"
| "list_run (Deq # ops) (x # xs) = bindE (list_run ops xs) (\<lambda>os. Inr (Got x # os))"
| "list_run (Top # ops) [] = Inl AssertFailed"
| "list_run (Top # ops) (x # xs) = bindE (list_run ops (x # xs)) (\<lambda>os. Inr (Got x # os))"
| "list_run (Empty # ops) xs = bindE (list_run ops xs) (\<lambda>os. Inr (IsEmpty (xs = []) # os))"

lemma queue_run_repr: "queue_repr s xs \<Longrightarrow> queue_run ops s = list_run ops xs"
proof (induction ops arbitrary: s xs)
  case (Cons op ops)
  show ?case
  proof (cases op)
    case (Enq x)
    with Cons pq.enq_repr[OF Cons.prems, of x] show ?thesis by auto
  next
    case Deq
    with Cons show ?thesis
      by (cases xs) (auto dest!: pq.deq_repr simp: pq.fault_repr)
  next
    case Top
    with Cons show ?thesis
      by (cases xs) (auto dest: pq.top_repr simp: pq.fault_repr)
  next
    case Empty
    with Cons show ?thesis by (auto simp: pq.empty_repr)
  qed
qed simp

section \<open>Property\<close>

text \<open>
  C24: every sequence of calls on a new queue gives the answers a first-in first-out list gives,
  the failed assertions of \<open>queue_deq\<close> and \<open>queue_top\<close> on the empty queue included, although
  the queue leaves a dangling \<open>tail\<close> behind whenever it becomes empty.
\<close>

theorem queue_refines_fifo: "queue_run ops (queue_create, []) = list_run ops []"
  by (rule queue_run_repr[OF pq.create_repr])

end
