(* ===== verification/Byte_Order.thy ===== *)
theory Byte_Order
  imports Prelude
begin

text \<open>
  Multi-byte integers in memory. The router runs on a little-endian machine (x86-64): a
  16-bit or 32-bit field read through a pointer is assembled least significant byte first,
  and \<open>ntohs\<close>, \<open>ntohl\<close>, \<open>htons\<close>, \<open>htonl\<close> reverse the bytes.
\<close>

section \<open>Loads and stores\<close>

definition le16 :: "u8 \<Rightarrow> u8 \<Rightarrow> u16" where
  "le16 a b = word_of_nat (unat a + 256 * unat b)"

definition le32 :: "u8 \<Rightarrow> u8 \<Rightarrow> u8 \<Rightarrow> u8 \<Rightarrow> u32" where
  "le32 a b c d =
     word_of_nat (unat a + 256 * unat b + 65536 * unat c + 16777216 * unat d)"

definition bytes16 :: "u16 \<Rightarrow> u8 list" where
  "bytes16 w = [word_of_nat (unat w), word_of_nat (unat w div 256)]"

definition bytes32 :: "u32 \<Rightarrow> u8 list" where
  "bytes32 w =
     [word_of_nat (unat w), word_of_nat (unat w div 256),
      word_of_nat (unat w div 65536), word_of_nat (unat w div 16777216)]"

definition rd16 :: "u8 list \<Rightarrow> nat \<Rightarrow> u16" where
  "rd16 buf i = le16 (buf ! i) (buf ! (i + 1))"

definition rd32 :: "u8 list \<Rightarrow> nat \<Rightarrow> u32" where
  "rd32 buf i = le32 (buf ! i) (buf ! (i + 1)) (buf ! (i + 2)) (buf ! (i + 3))"

lemma unat_u8_less [simp]: "unat (b :: u8) < 256"
  using unsigned_less[of b, where ?'a = nat] by simp

lemma unat_u16_less [simp]: "unat (w :: u16) < 65536"
  using unsigned_less[of w, where ?'a = nat] by simp

lemma unat_u32_less [simp]: "unat (w :: u32) < 4294967296"
  using unsigned_less[of w, where ?'a = nat] by simp

text \<open>A byte of a wider value, and the value of a byte.\<close>

lemma unat_byte: "unat (word_of_nat n :: u8) = n mod 256"
  by (simp only: unat_of_nat) simp

lemma unat_le16: "unat (le16 a b) = unat a + 256 * unat b"
proof -
  have "unat a + 256 * unat b < 65536"
    using unat_u8_less[of a] unat_u8_less[of b] by linarith
  then show ?thesis unfolding le16_def unat_of_nat by simp
qed

lemma unat_le32:
  "unat (le32 a b c d) = unat a + 256 * unat b + 65536 * unat c + 16777216 * unat d"
proof -
  have "unat a + 256 * unat b + 65536 * unat c + 16777216 * unat d < 4294967296"
    using unat_u8_less[of a] unat_u8_less[of b] unat_u8_less[of c] unat_u8_less[of d] by linarith
  then show ?thesis unfolding le32_def unat_of_nat by simp
qed

lemma length_bytes16 [simp]: "length (bytes16 w) = 2"
  by (simp add: bytes16_def)

lemma length_bytes32 [simp]: "length (bytes32 w) = 4"
  by (simp add: bytes32_def)

lemma nat_bytes16: "n < 65536 \<Longrightarrow> n mod 256 + 256 * (n div 256 mod 256) = (n :: nat)"
  by (simp add: less_mult_imp_div_less)

lemma nat_bytes32:
  assumes "n < (4294967296 :: nat)"
  shows "n mod 256 + 256 * (n div 256 mod 256) + 65536 * (n div 65536 mod 256)
     + 16777216 * (n div 16777216 mod 256) = n"
proof -
  define a b c where "a = n div 256" and "b = a div 256" and "c = b div 256"
  have "n div 65536 = b" "n div 16777216 = c"
    by (simp_all add: a_def b_def c_def div_mult2_eq[symmetric])
  moreover have "c < 256"
    using assms by (simp add: a_def b_def c_def div_mult2_eq[symmetric] less_mult_imp_div_less)
  moreover have "n = n mod 256 + 256 * a" "a = a mod 256 + 256 * b" "b = b mod 256 + 256 * c"
    by (simp_all add: a_def b_def c_def)
  ultimately show ?thesis by (simp add: a_def[symmetric])
qed

lemma le16_bytes:
  "le16 (word_of_nat (unat w)) (word_of_nat (unat w div 256)) = w"
  by (rule unsigned_word_eqI[where ?'a = nat])
    (simp only: unat_le16 unat_byte nat_bytes16 unat_u16_less)

lemma le32_bytes:
  "le32 (word_of_nat (unat w)) (word_of_nat (unat w div 256))
     (word_of_nat (unat w div 65536)) (word_of_nat (unat w div 16777216)) = w"
  by (rule unsigned_word_eqI[where ?'a = nat])
    (simp only: unat_le32 unat_byte nat_bytes32 unat_u32_less)

lemma byte_eqI: "n mod 256 = unat b \<Longrightarrow> word_of_nat n = (b :: u8)"
  by (rule unsigned_word_eqI[where ?'a = nat]) (simp only: unat_byte)

lemma nat_digit: "a < 256 \<Longrightarrow> (a + 256 * n) mod 256 = a \<and> (a + 256 * n) div 256 = (n :: nat)"
  by simp

lemma bytes16_le16: "bytes16 (le16 a b) = [a, b]"
  unfolding bytes16_def unat_le16
  using nat_digit[OF unat_u8_less[of a], of "unat b"] mod_less[OF unat_u8_less[of b]]
  by (simp only: list.inject) (intro conjI byte_eqI; simp)

lemma bytes32_le32: "bytes32 (le32 a b c d) = [a, b, c, d]"
proof -
  define n2 n1 n where "n2 = unat c + 256 * unat d" and "n1 = unat b + 256 * n2"
    and "n = unat a + 256 * n1"
  have n: "unat (le32 a b c d) = n" by (simp add: unat_le32 n_def n1_def n2_def)
  have d1: "n mod 256 = unat a" "n div 256 = n1"
    using nat_digit[OF unat_u8_less[of a], of n1] by (simp_all add: n_def)
  have d2: "n1 mod 256 = unat b" "n1 div 256 = n2"
    using nat_digit[OF unat_u8_less[of b], of n2] by (simp_all add: n1_def)
  have d3: "n2 mod 256 = unat c" "n2 div 256 = unat d"
    using nat_digit[OF unat_u8_less[of c], of "unat d"] by (simp_all add: n2_def)
  have "n div 65536 = n2" using d1 d2 div_mult2_eq[of n 256 256] by simp
  moreover from this have "n div 16777216 = unat d"
    using d3 div_mult2_eq[of n 65536 256] by simp
  ultimately show ?thesis
    unfolding bytes32_def n d1
    by (simp only: list.inject) (intro conjI byte_eqI; simp add: d1 d2 d3)
qed

lemma le16_bytes16: "le16 (bytes16 w ! 0) (bytes16 w ! 1) = w"
  using le16_bytes[of w] by (simp only: bytes16_def nth_Cons_0 One_nat_def nth_Cons_Suc)

lemma nth_four: "xs = [a, b, c, d] \<Longrightarrow> xs ! 0 = a \<and> xs ! 1 = b \<and> xs ! 2 = c \<and> xs ! 3 = d"
  by simp

lemma le32_bytes32:
  "le32 (bytes32 w ! 0) (bytes32 w ! 1) (bytes32 w ! 2) (bytes32 w ! 3) = w"
  using nth_four[OF bytes32_def[of w]] le32_bytes[of w] by metis

lemma rd16_bytes: "i + 2 \<le> length buf \<Longrightarrow> bytes_at i 2 buf = bytes16 (rd16 buf i)"
  by (simp add: rd16_def bytes16_le16 bytes_at_Suc numeral_2_eq_2)

lemma rd32_bytes: "i + 4 \<le> length buf \<Longrightarrow> bytes_at i 4 buf = bytes32 (rd32 buf i)"
  by (simp add: rd32_def bytes32_le32 bytes_at_Suc eval_nat_numeral)

lemma rd16_put_same: "i + 2 \<le> length buf \<Longrightarrow> rd16 (put_at i (bytes16 w) buf) i = w"
  using le16_bytes16[of w] by (simp add: rd16_def nth_put_at)

lemma rd32_put_same: "i + 4 \<le> length buf \<Longrightarrow> rd32 (put_at i (bytes32 w) buf) i = w"
  using le32_bytes32[of w] by (simp add: rd32_def nth_put_at)

lemma rd16_put_other:
  "off + length xs \<le> length buf \<Longrightarrow> i + 2 \<le> length buf \<Longrightarrow> i + 2 \<le> off \<or> off + length xs \<le> i \<Longrightarrow>
   rd16 (put_at off xs buf) i = rd16 buf i"
  by (auto simp: rd16_def nth_put_at)

lemma rd32_put_other:
  "off + length xs \<le> length buf \<Longrightarrow> i + 4 \<le> length buf \<Longrightarrow> i + 4 \<le> off \<or> off + length xs \<le> i \<Longrightarrow>
   rd32 (put_at off xs buf) i = rd32 buf i"
  by (auto simp: rd32_def nth_put_at)

section \<open>Network byte order\<close>

definition ntohs :: "u16 \<Rightarrow> u16" where
  "ntohs w = (case bytes16 w of [a, b] \<Rightarrow> le16 b a)"

definition ntohl :: "u32 \<Rightarrow> u32" where
  "ntohl w = (case bytes32 w of [a, b, c, d] \<Rightarrow> le32 d c b a)"

abbreviation htons :: "u16 \<Rightarrow> u16" where "htons \<equiv> ntohs"
abbreviation htonl :: "u32 \<Rightarrow> u32" where "htonl \<equiv> ntohl"

lemma ntohs_le16 [simp]: "ntohs (le16 a b) = le16 b a"
  by (simp add: ntohs_def bytes16_le16)

lemma ntohl_le32 [simp]: "ntohl (le32 a b c d) = le32 d c b a"
  by (simp add: ntohl_def bytes32_le32)

lemma le16_exhaust: obtains a b where "w = le16 a b"
  using le16_bytes[of w] by metis

lemma le32_exhaust: obtains a b c d where "w = le32 a b c d"
  using le32_bytes[of w] by metis

lemma ntohs_ntohs [simp]: "ntohs (ntohs w) = w"
  by (rule le16_exhaust[of w]) simp

lemma ntohl_ntohl [simp]: "ntohl (ntohl w) = w"
  by (rule le32_exhaust[of w]) simp

lemma ntohl_eq_iff: "ntohl v = ntohl w \<longleftrightarrow> v = w"
  by (metis ntohl_ntohl)

lemma ntohs_eq_iff: "ntohs v = ntohs w \<longleftrightarrow> v = w"
  by (metis ntohs_ntohs)

end
