(* ===== verification/Checksum.thy ===== *)
theory Checksum
  imports Byte_Order
begin

text \<open>
  The checksum routines of \<open>PCom1/skel.c\<close> (\<open>ip_checksum\<close>, \<open>icmp_checksum\<close>) and the
  incremental update of \<open>PCom1/router.c\<close> (\<open>calculate_checksum\<close>), on machine words as the
  code has them, with the one's complement reference they are proved equal to.
\<close>

unbundle bit_operations_syntax

section \<open>ip_checksum\<close>

text \<open>A 32-bit load from four bytes (\<open>memcpy (&word, data, 4)\<close>), shorter data padded by zeros.\<close>

fun load_word :: "u8 list \<Rightarrow> u32" where
  "load_word [a, b, c, d] = le32 a b c d"
| "load_word _ = 0"

definition pad_word :: "u8 list \<Rightarrow> u8 list" where
  "pad_word bs = bs @ replicate (4 - length bs) 0"

definition acc_word :: "u64 \<Rightarrow> u8 list \<Rightarrow> u64" where
  "acc_word acc bs = acc + ucast (ntohl (load_word bs))"

text \<open>The complete 32-bit blocks, then the partial block at the end.\<close>

fun acc_blocks :: "u64 \<Rightarrow> u8 list \<Rightarrow> u64" where
  "acc_blocks acc (a # b # c # d # rest) = acc_blocks (acc_word acc [a, b, c, d]) rest"
| "acc_blocks acc [] = acc"
| "acc_blocks acc rest = acc_word acc (pad_word rest)"

text \<open>\<open>while (acc >> 16) acc = (acc & 0xffff) + (acc >> 16)\<close>.\<close>

lemma unat_and_mask: "unat ((w :: 'a :: len word) AND mask n) = unat w mod 2 ^ n"
  unfolding take_bit_eq_mask[symmetric] unsigned_take_bit_eq by (rule take_bit_eq_mod)

lemma unat_and_16: "unat ((w :: u64) AND 0xffff) = unat w mod 65536"
  using unat_and_mask[of w 16] by (simp add: mask_eq_exp_minus_1)

lemma unat_and_32: "unat ((w :: u64) AND 0xffffffff) = unat w mod 4294967296"
  using unat_and_mask[of w 32] by (simp add: mask_eq_exp_minus_1)

lemma unat_shift: "unat (drop_bit n (w :: u64)) = unat w div 2 ^ n"
  unfolding unat_drop_bit_eq by (rule drop_bit_eq_div)

lemma unat_u64_less [simp]: "unat (w :: u64) < 18446744073709551616"
  using unsigned_less[of w, where ?'a = nat] by simp

lemma unat_ucast_32: "unat (ucast (w :: u32) :: u64) = unat w"
proof -
  have "unat w < 2 ^ 64" using unat_u32_less[of w] by (rule less_trans) simp
  then show ?thesis by (simp add: unsigned_ucast_eq take_bit_nat_eq_self)
qed

lemma unat_add_small:
  "unat (a :: u64) + unat b < 18446744073709551616 \<Longrightarrow> unat (a + b) = unat a + unat b"
  by (simp add: unat_word_ariths)

lemma unat_carry_step:
  "unat ((w AND 0xffff) + drop_bit 16 (w :: u64)) = unat w mod 65536 + unat w div 65536"
proof -
  have "unat w div 65536 < 281474976710656"
    using unat_u64_less[of w] by (simp add: less_mult_imp_div_less)
  moreover have "unat w mod 65536 < 65536" by simp
  ultimately have "unat w mod 65536 + unat w div 65536 < 18446744073709551616" by linarith
  then show ?thesis by (simp add: unat_add_small unat_and_16 unat_shift)
qed

lemma drop_bit_16_eq_0: "drop_bit 16 (w :: u64) = 0 \<longleftrightarrow> unat w < 65536"
  by (simp add: unat_eq_0[symmetric] unat_shift div_eq_0_iff)

lemma fold_decreases: "\<not> n < 65536 \<Longrightarrow> n mod 65536 + n div 65536 < (n :: nat)"
proof -
  assume "\<not> n < 65536"
  then have "0 < n div 65536" by (simp add: div_greater_zero_iff)
  moreover have "n = 65536 * (n div 65536) + n mod 65536" by simp
  ultimately show ?thesis by linarith
qed

function fold_carries :: "u64 \<Rightarrow> u64" where
  "fold_carries acc =
     (if drop_bit 16 acc \<noteq> 0 then fold_carries ((acc AND 0xffff) + drop_bit 16 acc) else acc)"
  by pat_completeness auto
termination
  by (relation "measure unat")
    (simp_all only: in_measure wf_measure unat_carry_step drop_bit_16_eq_0 fold_decreases
      not_False_eq_True)

declare fold_carries.simps [simp del]

definition swap_acc :: "u64 \<Rightarrow> u64" where
  "swap_acc acc = drop_bit 8 (acc AND 0xff00) OR push_bit 8 (acc AND 0x00ff)"

text \<open>
  The checksum of the bytes \<open>data\<close> that start at address \<open>vdata\<close>: the address decides where
  the first block ends and whether the bytes of the sum are exchanged at the end.
\<close>

definition ip_checksum :: "nat \<Rightarrow> u8 list \<Rightarrow> u16" where
  "ip_checksum vdata data =
     (let acc0 = 0xffff;
          offset = vdata mod 4;
          count = (if 4 - offset > length data then length data else 4 - offset);
          (acc1, data1) =
            (if offset \<noteq> 0
             then (acc_word acc0 (pad_word (replicate offset 0 @ take count data)),
                   drop count data)
             else (acc0, data));
          acc2 = acc_blocks acc1 data1;
          acc3 = (acc2 AND 0xffffffff) + drop_bit 32 acc2;
          acc4 = fold_carries acc3;
          acc5 = (if odd offset then swap_acc acc4 else acc4)
      in htons (ucast (NOT acc5)))"

section \<open>The one's complement reference\<close>

text \<open>
  The Internet checksum of RFC 1071: the bytes as big-endian 16-bit words, an odd byte at
  the end padded by zero, summed modulo \<open>2^16 - 1\<close> and complemented. Of the two forms that zero has in one's
  complement, the result is 0 and never 65535; RFC 1071 itself gives 65535 for data that are all zero, which
  the code, whose accumulator starts at 65535, does not.
\<close>

fun be16_sum :: "u8 list \<Rightarrow> nat" where
  "be16_sum [] = 0"
| "be16_sum [a] = 256 * unat a"
| "be16_sum (a # b # rest) = 256 * unat a + unat b + be16_sum rest"

definition rfc1071 :: "u8 list \<Rightarrow> nat" where
  "rfc1071 data = (65535 - be16_sum data mod 65535) mod 65535"

text \<open>The same sum by the parity of the bytes' addresses.\<close>

fun par_sum :: "nat \<Rightarrow> u8 list \<Rightarrow> nat" where
  "par_sum p [] = 0"
| "par_sum p (b # bs) = (if even p then 256 * unat b else unat b) + par_sum (Suc p) bs"

lemma par_sum_append: "par_sum p (xs @ ys) = par_sum p xs + par_sum (p + length xs) ys"
  by (induction p xs rule: par_sum.induct) auto

lemma par_sum_zeros [simp]: "par_sum p (replicate n 0) = 0"
  by (induction n arbitrary: p) auto

lemma par_sum_mod2: "par_sum (p mod 2) xs = par_sum p xs"
proof (induction xs arbitrary: p)
  case (Cons x xs)
  have "par_sum (Suc (p mod 2)) xs = par_sum (Suc (p mod 2) mod 2) xs"
    using Cons.IH[of "Suc (p mod 2)"] by simp
  also have "\<dots> = par_sum (Suc p) xs"
    using Cons.IH[of "Suc p"] by (simp add: mod_Suc_eq)
  finally show ?case by simp
qed simp

lemma par_sum_even: "even p \<Longrightarrow> par_sum p xs = par_sum 0 xs"
  using par_sum_mod2[of p xs] by (simp add: even_iff_mod_2_eq_zero)

lemma par_sum_0: "par_sum 0 xs = be16_sum xs"
proof (induction xs rule: be16_sum.induct)
  case (3 a b rest)
  then show ?case using par_sum_even[of 2 rest] by (simp add: numeral_2_eq_2)
qed auto

text \<open>Moving the data by one byte multiplies the sum by 256.\<close>

lemma par_sum_shift: "(256 * par_sum p xs) mod 65535 = par_sum (Suc p) xs mod 65535"
proof (induction xs arbitrary: p)
  case (Cons x xs)
  let ?r = "par_sum (Suc p) xs" and ?b = "unat x"
  have r: "(256 * ?r) mod 65535 = par_sum (Suc (Suc p)) xs mod 65535" by (rule Cons.IH)
  have w: "(256 * (256 * ?b)) mod 65535 = ?b mod 65535"
    using mod_mult_self2[of ?b 65535 ?b] by (simp add: mult.commute)
  show ?case
  proof (cases "even p")
    case True
    then have "(256 * par_sum p (x # xs)) mod 65535
        = ((256 * (256 * ?b)) mod 65535 + (256 * ?r) mod 65535) mod 65535"
      by (simp add: distrib_left mod_add_eq)
    then show ?thesis using True by (simp only: w r) (simp add: mod_add_eq)
  next
    case False
    then have "(256 * par_sum p (x # xs)) mod 65535
        = (256 * ?b + (256 * ?r) mod 65535) mod 65535"
      by (simp add: distrib_left mod_add_right_eq)
    then show ?thesis using False by (simp only: r) (simp add: mod_add_right_eq)
  qed
qed simp


text \<open>Congruence modulo \<open>2^16 - 1\<close>, and what each step of the code keeps of it.\<close>

definition cong :: "nat \<Rightarrow> nat \<Rightarrow> bool" where
  "cong a b \<longleftrightarrow> a mod 65535 = b mod 65535"

lemma cong_refl [simp]: "cong a a"
  by (simp add: cong_def)

lemma cong_trans: "cong a b \<Longrightarrow> cong b c \<Longrightarrow> cong a c"
  by (simp add: cong_def)

lemma cong_sym: "cong a b \<Longrightarrow> cong b a"
  by (simp add: cong_def)

lemma cong_add: "cong a b \<Longrightarrow> cong c d \<Longrightarrow> cong (a + c) (b + d)"
  unfolding cong_def by (metis mod_add_cong)

lemma cong_mult: "cong a b \<Longrightarrow> cong (c * a) (c * b)"
  unfolding cong_def by (metis mod_mult_cong)

lemma cong_drop: "cong (a + 65535 * k) a"
  by (simp add: cong_def)

lemma load_word_cong:
  assumes "length bs = 4"
  shows "cong (unat (ntohl (load_word bs))) (par_sum 0 bs)"
proof -
  from assms obtain a b c d where bs: "bs = [a, b, c, d]"
    by (auto simp: eval_nat_numeral length_Suc_conv)
  have "unat (ntohl (load_word bs)) = par_sum 0 bs + 65535 * (256 * unat a + unat b)"
    by (simp add: bs unat_le32)
  then show ?thesis by (simp only: cong_drop)
qed

lemma length_pad_word: "length bs \<le> 4 \<Longrightarrow> length (pad_word bs) = 4"
  by (simp add: pad_word_def)

lemma par_sum_pad: "par_sum p (pad_word bs) = par_sum p bs"
  by (simp add: pad_word_def par_sum_append)

lemma acc_word_step:
  assumes "length bs = 4" and "unat acc + 4294967296 < 18446744073709551616"
  shows "cong (unat (acc_word acc bs)) (unat acc + par_sum 0 bs)"
    and "unat acc \<le> unat (acc_word acc bs)"
    and "unat (acc_word acc bs) < unat acc + 4294967296"
proof -
  let ?w = "ntohl (load_word bs)"
  have "unat acc + unat (ucast ?w :: u64) < 18446744073709551616"
    unfolding unat_ucast_32 using assms(2) unat_u32_less[of ?w] by linarith
  then have "unat (acc_word acc bs) = unat acc + unat ?w"
    by (simp add: acc_word_def unat_add_small unat_ucast_32)
  moreover have "cong (unat acc + unat ?w) (unat acc + par_sum 0 bs)"
    by (intro cong_add cong_refl load_word_cong assms)
  ultimately show "cong (unat (acc_word acc bs)) (unat acc + par_sum 0 bs)"
    "unat acc \<le> unat (acc_word acc bs)" "unat (acc_word acc bs) < unat acc + 4294967296"
    by simp_all
qed

lemma acc_pad_step:
  assumes "length bs \<le> 4" and "unat acc + 4294967296 < 18446744073709551616"
  shows "cong (unat (acc_word acc (pad_word bs))) (unat acc + par_sum 0 bs)"
    and "unat acc \<le> unat (acc_word acc (pad_word bs))"
    and "unat (acc_word acc (pad_word bs)) < unat acc + 4294967296"
  using acc_word_step[OF length_pad_word[OF assms(1)] assms(2)] by (simp_all only: par_sum_pad)

lemma acc_blocks_step:
  "unat acc + 4294967296 * length data < 18446744073709551616 \<Longrightarrow>
   cong (unat (acc_blocks acc data)) (unat acc + par_sum 0 data) \<and>
   unat acc \<le> unat (acc_blocks acc data)"
proof (induction acc data rule: acc_blocks.induct[case_names block none one two three])
  case (block acc a b c d rest)
  let ?bs = "[a, b, c, d]" and ?acc = "acc_word acc [a, b, c, d]"
  have l: "length ?bs = 4" by simp
  have "unat acc + 4294967296 < 18446744073709551616" using block(2) by simp
  note st = acc_word_step[OF l this]
  have "unat ?acc + 4294967296 * length rest < 18446744073709551616"
    using block(2) st(3) by (simp del: unat_u64_less)
  note IH = block(1)[OF this]
  have ps: "par_sum 0 (a # b # c # d # rest) = par_sum 0 ?bs + par_sum 0 rest"
    using par_sum_append[of 0 ?bs rest] par_sum_even[of "Suc (Suc (Suc (Suc 0)))" rest] by simp
  have "cong (unat ?acc + par_sum 0 rest) (unat acc + par_sum 0 (a # b # c # d # rest))"
    unfolding ps add.assoc[symmetric] by (intro cong_add cong_refl st)
  then show ?case
    using IH st(2) by (simp only: acc_blocks.simps) (meson cong_trans le_trans)
next
  case (one acc a) then show ?case using acc_pad_step(1,2)[of "[a]" acc] by simp
next
  case (two acc a b) then show ?case using acc_pad_step(1,2)[of "[a, b]" acc] by simp
next
  case (three acc a b c) then show ?case using acc_pad_step(1,2)[of "[a, b, c]" acc] by simp
qed simp

lemma fold_carries_step:
  "0 < unat acc \<Longrightarrow>
   cong (unat (fold_carries acc)) (unat acc) \<and> 0 < unat (fold_carries acc) \<and>
   unat (fold_carries acc) < 65536"
proof (induction acc rule: fold_carries.induct)
  case (1 acc)
  show ?case
  proof (cases "drop_bit 16 acc = 0")
    case True
    with 1(2) show ?thesis by (simp add: fold_carries.simps[of acc] drop_bit_16_eq_0)
  next
    case False
    let ?b = "(acc AND 0xffff) + drop_bit 16 acc"
    have eq: "unat acc = unat ?b + 65535 * (unat acc div 65536)"
      using mod_mult_div_eq[of "unat acc" 65536] unfolding unat_carry_step by linarith
    have c: "cong (unat ?b) (unat acc)" by (subst eq) (simp only: cong_def mod_mult_self2)
    have "0 < unat acc div 65536" using False by (simp add: drop_bit_16_eq_0 div_greater_zero_iff)
    then have "0 < unat ?b" by (simp only: unat_carry_step add_gr_0 simp_thms)
    with 1(1)[OF False] c False show ?thesis
      by (simp only: fold_carries.simps[of acc] if_True simp_thms) (meson cong_trans)
  qed
qed

lemma deferred_carries_step:
  fixes acc :: u64
  defines "acc' \<equiv> (acc AND 0xffffffff) + drop_bit 32 acc"
  assumes "0 < unat acc"
  shows "cong (unat acc') (unat acc) \<and> 0 < unat acc'"
proof -
  have d: "unat acc div 4294967296 < 4294967296"
    using unat_u64_less[of acc] by (simp add: less_mult_imp_div_less)
  have "unat acc mod 4294967296 < 4294967296" by simp
  with d have "unat acc mod 4294967296 + unat acc div 4294967296 < 18446744073709551616"
    by linarith
  then have u: "unat acc' = unat acc mod 4294967296 + unat acc div 4294967296"
    by (simp add: acc'_def unat_add_small unat_and_32 unat_shift)
  have eq: "unat acc = unat acc' + 65535 * (65537 * (unat acc div 4294967296))"
    using mod_mult_div_eq[of "unat acc" 4294967296] unfolding u by linarith
  have "cong (unat acc') (unat acc)" by (subst eq) (simp only: cong_def mod_mult_self2)
  moreover have "0 < unat acc'" using eq assms(2) u by (cases "unat acc div 4294967296") auto
  ultimately show ?thesis by blast
qed


lemma unat_ucast_u64_16: "unat (ucast (w :: u64) :: u16) = unat w mod 65536"
  by (simp add: unsigned_ucast_eq take_bit_eq_mod)

lemma unat_not_u16: "unat (NOT (w :: u16)) = 65535 - unat w"
proof -
  have "NOT w = -1 - w" by (simp add: not_eq_complement)
  moreover have "w \<le> -1" by simp
  ultimately have "unat (NOT w) = unat (-1 :: u16) - unat w" by (simp add: unat_sub)
  then show ?thesis by (simp add: unsigned_minus_1_eq_mask mask_eq_exp_minus_1)
qed

lemma ucast_not_16: "(ucast (NOT (w :: u64)) :: u16) = NOT (ucast w)"
  by (rule bit_word_eqI) (auto simp: bit_simps)

lemma unat_swap_acc:
  assumes "unat acc < 65536"
  shows "unat (swap_acc acc) = unat acc div 256 + 256 * (unat acc mod 256)"
proof -
  let ?h = "drop_bit 8 (acc AND 0xff00)" and ?l = "push_bit 8 (acc AND 0xff)"
  have hm: "?h = drop_bit 8 acc AND mask 8"
    using drop_bit_and[of 8 acc "0xff00"] by (simp add: mask_eq_exp_minus_1)
  then have h: "unat ?h = unat acc div 256"
    using assms unfolding hm unat_and_mask unat_shift by (simp add: less_mult_imp_div_less)
  have l0: "unat (acc AND 0xff) = unat acc mod 256"
    using unat_and_mask[of acc 8] by (simp add: mask_eq_exp_minus_1)
  have "unat acc mod 256 * 256 < 18446744073709551616"
    using mod_less_divisor[of 256 "unat acc"] by linarith
  then have l: "unat ?l = 256 * (unat acc mod 256)"
    by (simp add: push_bit_eq_mult unat_word_ariths l0)
  have "swap_acc acc = ?h + ?l"
    unfolding swap_acc_def
  proof (rule disjunctive_add[symmetric])
    fix n show "\<not> bit ?h n \<or> \<not> bit ?l n"
      unfolding hm bit_and_iff bit_mask_iff bit_push_bit_iff by auto
  qed
  then show ?thesis using h l assms by (simp add: unat_add_small less_mult_imp_div_less)
qed


lemma word_of_nat_unat_eqI: "unat (w :: u16) = n \<Longrightarrow> w = word_of_nat n"
proof (rule unsigned_word_eqI[where ?'a = nat])
  assume "unat w = n"
  then show "unat w = unat (word_of_nat n :: u16)"
    unfolding unat_of_nat using unat_u16_less[of w] by auto
qed

lemma ip_checksum_final:
  fixes acc :: u64
  assumes "cong (unat acc) S" and "0 < unat acc" and "unat acc < 65536"
  shows "ucast (NOT acc) = (word_of_nat ((65535 - S mod 65535) mod 65535) :: u16)"
proof -
  have "unat acc = (if S mod 65535 = 0 then 65535 else S mod 65535)"
  proof (cases "unat acc = 65535")
    case True
    with assms(1) show ?thesis by (simp add: cong_def)
  next
    case False
    with assms(3) have "unat acc < 65535" by simp
    with assms(1,2) show ?thesis by (simp add: cong_def)
  qed
  moreover have "unat (ucast (NOT acc) :: u16) = 65535 - unat acc"
    unfolding ucast_not_16 unat_not_u16 unat_ucast_u64_16 using assms(3) by simp
  ultimately have "unat (ucast (NOT acc) :: u16) = (65535 - S mod 65535) mod 65535"
    by auto
  then show ?thesis by (rule word_of_nat_unat_eqI)
qed

text \<open>The accumulator before the carries are folded: the bytes summed by address parity.\<close>

definition ip_acc :: "nat \<Rightarrow> u8 list \<Rightarrow> u64" where
  "ip_acc offset data =
     (let count = (if 4 - offset > length data then length data else 4 - offset)
      in if offset \<noteq> 0
         then acc_blocks (acc_word 0xffff (pad_word (replicate offset 0 @ take count data)))
                (drop count data)
         else acc_blocks 0xffff data)"

lemma ip_acc_step:
  assumes "offset < 4" and "length data \<le> 4294967290"
  shows "cong (unat (ip_acc offset data)) (par_sum offset data) \<and> 0 < unat (ip_acc offset data)"
proof (cases "offset = 0")
  case True
  have b: "unat (0xffff :: u64) + 4294967296 * length data < 18446744073709551616"
    using assms(2) by simp
  have "cong (65535 + par_sum 0 data) (par_sum 0 data)"
    using cong_drop[of "par_sum 0 data" 1] by (simp add: add.commute)
  with acc_blocks_step[OF b] True show ?thesis by (simp add: ip_acc_def) (meson cong_trans)
next
  case False
  define count where "count = (if 4 - offset > length data then length data else 4 - offset)"
  define bs where "bs = replicate offset 0 @ take count data"
  define acc where "acc = acc_word 0xffff (pad_word bs)"
  have le: "length bs \<le> 4" using assms(1) by (auto simp: bs_def count_def)
  note st = acc_pad_step[OF le, of "0xffff", folded acc_def, simplified]
  have b: "unat acc + 4294967296 * length (drop count data) < 18446744073709551616"
    using assms(2) st(3) by simp
  have bs: "par_sum 0 bs = par_sum offset (take count data)" by (simp add: bs_def par_sum_append)
  have rest: "par_sum 0 (drop count data) = par_sum (offset + count) (drop count data)"
    using assms(1) par_sum_mod2[of 4] by (cases "4 - offset > length data") (auto simp: count_def)
  have "count \<le> length data" by (simp add: count_def)
  then have "par_sum 0 bs + par_sum 0 (drop count data) = par_sum offset data"
    using par_sum_append[of offset "take count data" "drop count data"] by (simp add: bs rest)
  moreover have "cong (65535 + par_sum 0 bs + par_sum 0 (drop count data))
      (par_sum 0 bs + par_sum 0 (drop count data))"
    using cong_drop[of "par_sum 0 bs + par_sum 0 (drop count data)" 1] by (simp add: ac_simps)
  moreover have "cong (unat acc + par_sum 0 (drop count data))
      (65535 + par_sum 0 bs + par_sum 0 (drop count data))"
    by (intro cong_add cong_refl st(1))
  ultimately have
    "cong (unat (acc_blocks acc (drop count data))) (par_sum offset data)"
    using acc_blocks_step[OF b] by (simp only:) (meson cong_trans)
  moreover have "0 < unat (acc_blocks acc (drop count data))"
    using acc_blocks_step[OF b] st(2) by linarith
  moreover have "ip_acc offset data = acc_blocks acc (drop count data)"
    using False by (simp add: ip_acc_def count_def acc_def bs_def Let_def)
  ultimately show ?thesis by simp
qed

lemma ip_checksum_acc:
  "ip_checksum vdata data =
     (let offset = vdata mod 4;
          acc2 = ip_acc offset data;
          acc4 = fold_carries ((acc2 AND 0xffffffff) + drop_bit 32 acc2)
      in htons (ucast (NOT (if odd offset then swap_acc acc4 else acc4))))"
  by (simp add: ip_checksum_def ip_acc_def Let_def)

lemma ip_checksum_correct:
  assumes "length data \<le> 4294967290"
  shows "ip_checksum vdata data = htons (word_of_nat (rfc1071 data))"
proof -
  define offset where "offset = vdata mod 4"
  define acc2 where "acc2 = ip_acc offset data"
  define acc3 where "acc3 = (acc2 AND 0xffffffff) + drop_bit 32 acc2"
  define acc4 where "acc4 = fold_carries acc3"
  define acc5 where "acc5 = (if odd offset then swap_acc acc4 else acc4)"
  have 2: "cong (unat acc2) (par_sum offset data)" "0 < unat acc2"
    using ip_acc_step[of offset data] assms by (simp_all add: offset_def acc2_def)
  have 3: "cong (unat acc3) (unat acc2)" "0 < unat acc3"
    using deferred_carries_step[OF 2(2)] by (simp_all add: acc3_def)
  have 4: "cong (unat acc4) (unat acc3)" "0 < unat acc4" "unat acc4 < 65536"
    using fold_carries_step[OF 3(2)] by (simp_all add: acc4_def)
  have c4: "cong (unat acc4) (par_sum offset data)"
    using cong_trans[OF 4(1) cong_trans[OF 3(1) 2(1)]] .
  have "cong (unat acc5) (be16_sum data) \<and> 0 < unat acc5 \<and> unat acc5 < 65536"
  proof (cases "odd offset")
    case False
    then show ?thesis using c4 4 par_sum_even[of offset data]
      by (simp add: acc5_def par_sum_0)
  next
    case True
    then have p: "par_sum offset data = par_sum 1 data"
      using par_sum_mod2[of offset data] by (simp add: odd_iff_mod_2_eq_one)
    have u: "unat acc5 = unat acc4 div 256 + 256 * (unat acc4 mod 256)"
      using True 4(3) by (simp add: acc5_def unat_swap_acc)
    have "256 * unat acc4 = unat acc5 + 65535 * (unat acc4 div 256)"
      unfolding u using mod_mult_div_eq[of "unat acc4" 256] by linarith
    then have "cong (unat acc5) (256 * unat acc4)" by (metis cong_def cong_drop)
    moreover have "cong (256 * unat acc4) (256 * par_sum 1 data)"
      using c4 p by (intro cong_mult) simp
    moreover have "cong (256 * par_sum 1 data) (be16_sum data)"
      using par_sum_shift[of 1 data] par_sum_even[of "Suc 1" data]
      by (simp add: cong_def par_sum_0)
    moreover have "0 < unat acc5" unfolding u using 4(2) by (cases "unat acc4 div 256 = 0") auto
    moreover have "unat acc5 < 65536"
      using 4(3) mod_less_divisor[of 256 "unat acc4"] less_mult_imp_div_less[of "unat acc4" 256 256]
      unfolding u by linarith
    ultimately show ?thesis by (meson cong_trans)
  qed
  then have "ucast (NOT acc5) = (word_of_nat (rfc1071 data) :: u16)"
    by (simp add: ip_checksum_final[of acc5 "be16_sum data"] rfc1071_def)
  then show ?thesis
    unfolding ip_checksum_acc Let_def offset_def[symmetric] acc2_def[symmetric]
      acc3_def[symmetric] acc4_def[symmetric] acc5_def[symmetric] by simp
qed


section \<open>Verifying a stored checksum\<close>

lemma rfc1071_eq:
  "rfc1071 data = (if be16_sum data mod 65535 = 0 then 0 else 65535 - be16_sum data mod 65535)"
  by (simp add: rfc1071_def)

lemma rfc1071_less: "rfc1071 data < 65536"
proof -
  define x where "x = 65535 - be16_sum data mod 65535"
  have "x \<le> 65535" unfolding x_def by (rule diff_le_self)
  then show ?thesis by (simp add: rfc1071_eq x_def[symmetric])
qed

text \<open>The receiver's test: the one's complement sum of all the words is zero.\<close>

definition sums_to_zero :: "u8 list \<Rightarrow> bool" where
  "sums_to_zero data \<longleftrightarrow> be16_sum data mod 65535 = 0"

lemma unat_ntohs: "unat (ntohs w) = 256 * (unat w mod 256) + unat w div 256"
  by (rule le16_exhaust[of w]) (simp add: unat_le16)

lemma ip_checksum_eq_0:
  assumes "length data \<le> 4294967290"
  shows "ip_checksum vdata data = 0 \<longleftrightarrow> sums_to_zero data"
proof -
  have "ip_checksum vdata data = 0 \<longleftrightarrow> unat (ntohs (ip_checksum vdata data)) = 0"
    unfolding unat_ntohs unat_eq_0[symmetric] by auto presburger?
  also have "\<dots> \<longleftrightarrow> rfc1071 data mod 65536 = 0"
    unfolding ip_checksum_correct[OF assms] ntohs_ntohs unat_of_nat by simp
  also have "\<dots> \<longleftrightarrow> sums_to_zero data"
    using rfc1071_less[of data] mod_less_divisor[of 65535 "be16_sum data"]
    unfolding rfc1071_eq sums_to_zero_def by (cases "be16_sum data mod 65535 = 0") auto
  finally show ?thesis .
qed


lemma be16_sum_append: "even (length xs) \<Longrightarrow> be16_sum (xs @ ys) = be16_sum xs + be16_sum ys"
  using par_sum_append[of 0 xs ys] par_sum_even[of "length xs" ys] by (simp add: par_sum_0)

text \<open>Overwriting a 16-bit field at an even position.\<close>

lemma be16_sum_bytes16: "be16_sum (bytes16 w) = unat (ntohs w)"
  by (rule le16_exhaust[of w]) (simp add: bytes16_le16 unat_le16)

lemma be16_sum_split16:
  assumes "even i" and "i + 2 \<le> length data"
  shows "be16_sum data = be16_sum (take i data) + unat (ntohs (rd16 data i)) + be16_sum (drop (i + 2) data)"
proof -
  have "data = take i data @ bytes_at i 2 data @ drop (i + 2) data"
    by (rule split_bytes_at)
  then have "be16_sum data = be16_sum (take i data @ (bytes16 (rd16 data i) @ drop (i + 2) data))"
    using rd16_bytes[OF assms(2)] by simp
  also have "\<dots> = be16_sum (take i data) + (be16_sum (bytes16 (rd16 data i)) + be16_sum (drop (i + 2) data))"
    using assms by (subst be16_sum_append, simp, subst be16_sum_append) simp_all
  finally show ?thesis by (simp add: be16_sum_bytes16)
qed

lemma be16_sum_put16:
  assumes "even i" and "i + 2 \<le> length data"
  shows "be16_sum (put_at i (bytes16 w) data) + unat (ntohs (rd16 data i))
       = be16_sum data + unat (ntohs w)"
proof -
  let ?d = "put_at i (bytes16 w) data"
  have "take i ?d = take i data" "drop (i + 2) ?d = drop (i + 2) data"
    using assms(2) by (simp_all add: put_at_def)
  then show ?thesis
    using be16_sum_split16[OF assms] be16_sum_split16[of i ?d] assms
    by (simp add: rd16_put_same)
qed

text \<open>A sender that clears the field, sums and stores the result produces data that verify.\<close>

lemma rfc1071_cancel: "(be16_sum data + rfc1071 data) mod 65535 = 0"
proof -
  have "(be16_sum data + rfc1071 data) mod 65535 = (be16_sum data mod 65535 + rfc1071 data) mod 65535"
    by (simp add: mod_add_left_eq)
  also have "\<dots> = 0" using mod_less_divisor[of 65535 "be16_sum data"] by (simp add: rfc1071_eq)
  finally show ?thesis .
qed

lemma filled_checksum_verifies:
  assumes "even i" and "i + 2 \<le> length data" and "length data \<le> 4294967290"
    and "rd16 data i = 0"
  shows "sums_to_zero (put_at i (bytes16 (ip_checksum vdata data)) data)"
proof -
  have "be16_sum (put_at i (bytes16 (ip_checksum vdata data)) data) = be16_sum data + rfc1071 data"
    using be16_sum_put16[OF assms(1,2), of "ip_checksum vdata data"] assms(4) rfc1071_less[of data]
    unfolding ip_checksum_correct[OF assms(3)] ntohs_ntohs unat_of_nat by (simp add: unat_ntohs)
  then show ?thesis by (simp add: sums_to_zero_def rfc1071_cancel)
qed

section \<open>icmp_checksum\<close>

text \<open>
  The words are summed as the machine loads them. An odd byte at the end is read as a whole
  16-bit word, one byte past the data.
\<close>

fun icmp_acc :: "u64 \<Rightarrow> u8 list \<Rightarrow> u64 res" where
  "icmp_acc cksum (a # b # rest) = icmp_acc (cksum + ucast (le16 a b)) rest"
| "icmp_acc cksum [] = Inr cksum"
| "icmp_acc cksum [a] = Inl OutOfBounds"

definition icmp_checksum :: "u8 list \<Rightarrow> u16 res" where
  "icmp_checksum buffer =
     bindE (icmp_acc 0 buffer) (\<lambda>cksum.
       let cksum1 = drop_bit 16 cksum + (cksum AND 0xffff);
           cksum2 = cksum1 + drop_bit 16 cksum1
       in Inr (ucast (NOT cksum2)))"

lemma unat_ucast_16_64: "unat (ucast (w :: u16) :: u64) = unat w"
proof -
  have "unat w < 2 ^ 64" using unat_u16_less[of w] by (rule less_trans) simp
  then show ?thesis by (simp add: unsigned_ucast_eq take_bit_nat_eq_self)
qed

lemma icmp_acc_sum:
  "even (length data) \<Longrightarrow> unat ck + 65536 * length data < 18446744073709551616 \<Longrightarrow>
   \<exists>ck'. icmp_acc ck data = Inr ck' \<and> unat ck' = unat ck + par_sum 1 data"
proof (induction ck data rule: icmp_acc.induct)
  case (1 ck a b rest)
  have "unat ck + unat (ucast (le16 a b) :: u64) < 18446744073709551616"
    using 1(3) unat_u16_less[of "le16 a b"] by (simp add: unat_ucast_16_64 del: unat_u16_less)
  then have u: "unat (ck + ucast (le16 a b)) = unat ck + (unat a + 256 * unat b)"
    by (simp add: unat_add_small unat_ucast_16_64 unat_le16)
  moreover have "unat a + 256 * unat b < 65536"
    using unat_u16_less[of "le16 a b"] by (simp only: unat_le16)
  ultimately have "unat (ck + ucast (le16 a b)) + 65536 * length rest < 18446744073709551616"
    using 1(3) by simp
  with 1(1,2) obtain ck' where "icmp_acc (ck + ucast (le16 a b)) rest = Inr ck'"
    "unat ck' = unat ck + (unat a + 256 * unat b) + par_sum 1 rest"
    using u by auto
  moreover have "par_sum 1 (a # b # rest) = unat a + 256 * unat b + par_sum 1 rest"
    using par_sum_mod2[of "Suc (Suc (Suc 0))" rest] par_sum_mod2[of 1 rest] by simp
  ultimately show ?case by simp
qed simp_all


lemma par_sum_le: "par_sum p data \<le> 65280 * length data"
proof (induction p data rule: par_sum.induct)
  case (2 p b bs)
  then show ?case using unat_u8_less[of b] by (simp del: unat_u8_less)
qed simp

lemma icmp_fold:
  fixes c c1 c2 :: u64
  assumes n: "unat c < 4294967296" and c1: "c1 = drop_bit 16 c + (c AND 0xffff)"
    and c2: "c2 = c1 + drop_bit 16 c1"
  shows "cong (unat c + unat (ucast (NOT c2) :: u16)) 0"
proof -
  define m where "m = unat c mod 65536 + unat c div 65536"
  have u1: "unat c1 = m"
    using unat_carry_step[of c] by (simp add: c1 m_def add.commute)
  have "unat c div 65536 < 65536" using n by (simp add: less_mult_imp_div_less)
  moreover have "unat c mod 65536 < 65536" by simp
  ultimately have m: "m < 131071" unfolding m_def by linarith
  then have d: "m div 65536 < 2" by (simp add: less_mult_imp_div_less)
  have "unat c1 + unat (drop_bit 16 c1) < 18446744073709551616"
    unfolding u1 unat_shift using m d by simp
  then have u2: "unat c2 = m + m div 65536" by (simp add: c2 unat_add_small u1 unat_shift)
  define s where "s = unat c2 mod 65536"
  have s: "s \<le> 65535" "m = s \<or> m = s + 65535"
  proof -
    show "s \<le> 65535" using mod_less_divisor[of 65536 "unat c2"] unfolding s_def by linarith
    show "m = s \<or> m = s + 65535"
    proof (cases "m < 65536")
      case True then show ?thesis by (simp add: s_def u2)
    next
      case False
      then have "m div 65536 = 1" using d div_greater_zero_iff[of m 65536] by linarith
      then have "unat c2 = (m - 65535) + 65536" using False u2 by simp
      moreover have "m - 65535 < 65536" using m by linarith
      ultimately have "s = m - 65535" unfolding s_def by (metis mod_add_self2 mod_less)
      then show ?thesis using False by simp
    qed
  qed
  have "unat c = m + 65535 * (unat c div 65536)"
    using mod_mult_div_eq[of "unat c" 65536] unfolding m_def by linarith
  then have cm: "cong (unat c) m" by (metis cong_drop)
  have r: "unat (ucast (NOT c2) :: u16) = 65535 - s"
    unfolding ucast_not_16 unat_not_u16 unat_ucast_u64_16 s_def ..
  have "m + (65535 - s) = 65535 \<or> m + (65535 - s) = 65535 + 65535" using s by linarith
  then have "cong (m + (65535 - s)) 0" by (auto simp: cong_def)
  then show ?thesis unfolding r using cong_add[OF cm cong_refl] cong_trans by blast
qed

lemma icmp_checksum_sum:
  assumes "even (length data)" and "length data \<le> 65536"
  shows "\<exists>r. icmp_checksum data = Inr r \<and> cong (par_sum 1 data + unat r) 0"
proof -
  have "unat (0 :: u64) + 65536 * length data < 18446744073709551616" using assms(2) by simp
  from icmp_acc_sum[OF assms(1) this] obtain c where c: "icmp_acc 0 data = Inr c"
    "unat c = par_sum 1 data" by auto
  have "par_sum 1 data < 4294967296"
    using par_sum_le[of 1 data] assms(2) by linarith
  with c icmp_fold[of c, OF _ refl refl] show ?thesis
    by (auto simp: icmp_checksum_def Let_def)
qed

lemma cong_ntohs: "cong (unat (ntohs w)) (256 * unat w)"
proof -
  have "256 * unat w = unat (ntohs w) + 65535 * (unat w div 256)"
    using mod_mult_div_eq[of "unat w" 256] unfolding unat_ntohs by linarith
  then show ?thesis by (metis cong_def cong_drop)
qed

lemma filled_icmp_checksum_verifies:
  assumes "even i" and "i + 2 \<le> length data" and "even (length data)" and "length data \<le> 65536"
    and "rd16 data i = 0"
  shows "\<exists>r. icmp_checksum data = Inr r \<and> sums_to_zero (put_at i (bytes16 r) data)"
proof -
  obtain r where r: "icmp_checksum data = Inr r" "cong (par_sum 1 data + unat r) 0"
    using icmp_checksum_sum[OF assms(3,4)] by blast
  have "be16_sum (put_at i (bytes16 r) data) = be16_sum data + unat (ntohs r)"
    using be16_sum_put16[OF assms(1,2), of r] assms(5) by (simp add: unat_ntohs)
  moreover have "cong (be16_sum data + unat (ntohs r)) (256 * par_sum 1 data + 256 * unat r)"
    using par_sum_shift[of 1 data] par_sum_even[of 2 data]
    by (intro cong_add cong_ntohs) (simp add: cong_def par_sum_0 numeral_2_eq_2)
  moreover have "cong (256 * par_sum 1 data + 256 * unat r) 0"
    using cong_mult[OF r(2), of 256] by (simp add: distrib_left)
  ultimately have "cong (be16_sum (put_at i (bytes16 r) data)) 0" by (metis cong_trans)
  with r(1) show ?thesis by (simp add: sums_to_zero_def cong_def)
qed

section \<open>calculate_checksum\<close>

text \<open>
  The incremental update after the time to live went down by one; \<open>check\<close> and \<open>ttl\<close> are the
  header's fields (\<open>ttl\<close> already decremented), promoted to \<open>int\<close>.
\<close>

definition calculate_checksum :: "u16 \<Rightarrow> u8 \<Rightarrow> u16" where
  "calculate_checksum check ttl =
     word_of_int ((uint check - NOT (uint ttl + 1) - uint ttl) - 1)"

lemma calculate_checksum_plus_1: "calculate_checksum check ttl = check + 1"
proof -
  have eq: "(uint check - NOT (uint ttl + 1) - uint ttl) - 1 = uint check + 1"
    by (simp add: not_int_def)
  show ?thesis unfolding calculate_checksum_def eq by simp
qed

text \<open>The stored field grows by \<open>0x0100\<close> in network order, except when it is \<open>0xffff\<close>.\<close>

lemma ntohs_plus_1:
  "w \<noteq> 0xffff \<Longrightarrow> cong (unat (ntohs (w + 1))) (unat (ntohs w) + 256)"
proof -
  assume ne: "w \<noteq> 0xffff"
  have "unat w \<noteq> 65535"
  proof
    assume "unat w = 65535"
    then have "w = word_of_nat 65535" by (rule word_of_nat_unat_eqI)
    with ne show False by simp
  qed
  then have "unat w + 1 < 65536" using unat_u16_less[of w] by linarith
  then have u: "unat (w + 1) = unat w + 1" unfolding unat_word_ariths by simp
  have "256 * unat (w + 1) = 256 * unat w + 256" unfolding u by simp
  moreover have "cong (256 * unat w + 256) (unat (ntohs w) + 256)"
    by (rule cong_add[OF cong_sym[OF cong_ntohs] cong_refl])
  ultimately have "cong (256 * unat (w + 1)) (unat (ntohs w) + 256)" by (simp only:)
  then show ?thesis by (rule cong_trans[OF cong_ntohs])
qed

section \<open>Properties\<close>

text \<open>
  C17: \<open>ip_checksum\<close> is the Internet checksum of RFC 1071 in network byte order, for data of any
  alignment and any length up to four gigabytes: the 64-bit accumulator never overflows and
  the carries, the partial blocks and the odd address are made up for. Zero is written as 0, never
  as 65535, also for data that are all zero.
\<close>

theorem ip_checksum_is_rfc1071:
  assumes "length data \<le> 4294967290"
  shows "ip_checksum addr data = htons (word_of_nat (rfc1071 data))"
  by (rule ip_checksum_correct[OF assms])

lemma ip_checksum_is_rfc1071_witness:
  "ip_checksum 7 [69, 0, 1] = htons (word_of_nat (rfc1071 [69, 0, 1]))"
  by (rule ip_checksum_is_rfc1071) simp

text \<open>
  A block of data is accepted (\<open>ip_checksum\<close> gives 0) exactly if its 16-bit words add up to
  zero in one's complement, and a sender that clears an aligned checksum field and stores the
  result there produces data that are accepted.
\<close>

theorem ip_checksum_accepts:
  assumes "length data \<le> 4294967290" and "even i" and "i + 2 \<le> length data" and "rd16 data i = 0"
  shows "(ip_checksum addr data = 0 \<longleftrightarrow> be16_sum data mod 65535 = 0) \<and>
    ip_checksum addr' (put_at i (bytes16 (ip_checksum addr data)) data) = 0"
proof -
  let ?d = "put_at i (bytes16 (ip_checksum addr data)) data"
  have "length ?d \<le> 4294967290" using assms(1,3) by simp
  moreover have "sums_to_zero ?d" by (rule filled_checksum_verifies[OF assms(2,3,1,4)])
  ultimately show ?thesis
    using ip_checksum_eq_0[OF assms(1)] ip_checksum_eq_0[of ?d addr'] by (simp add: sums_to_zero_def)
qed

lemma ip_checksum_accepts_witness:
  "ip_checksum 0 (put_at 2 (bytes16 (ip_checksum 2 [69, 0, 0, 0, 9])) [69, 0, 0, 0, 9]) = 0"
  using ip_checksum_accepts[of "[69, 0, 0, 0, 9]" 2 2 0]
  by (simp add: rd16_def le16_def)

text \<open>
  \<open>icmp_checksum\<close> fills a checksum field so that even-sized data verify; on data of odd size
  it reads one byte past the end.
\<close>

lemma icmp_checksum_fills:
  assumes "even i" and "i + 2 \<le> length data" and "length data \<le> 65536" and "rd16 data i = 0"
  shows "if even (length data)
    then \<exists>r. icmp_checksum data = Inr r \<and> sums_to_zero (put_at i (bytes16 r) data)
    else icmp_checksum data = Inl OutOfBounds"
proof (cases "even (length data)")
  case True
  with filled_icmp_checksum_verifies[OF assms(1,2) _ assms(3,4)] show ?thesis by simp
next
  case False
  have "odd (length d) \<Longrightarrow> icmp_acc ck d = Inl OutOfBounds" for ck d
    by (induction ck d rule: icmp_acc.induct) auto
  with False show ?thesis by (simp add: icmp_checksum_def)
qed

end
