(* ===== verification/Frames.thy ===== *)
theory Frames
  imports Checksum "HOL-Library.Char_ord"
begin

text \<open>
  The packet layer of \<open>PCom1/skel.c\<close> and \<open>PCom1/include/skel.h\<close>: the headers as records
  with their layout in memory, the functions that build and send frames, those that
  recognise a received frame, and the MAC address parser. A frame that was sent is the
  interface and the bytes handed to \<open>write\<close>.
\<close>

section \<open>Packets and headers\<close>

definition MAX_LEN :: nat where "MAX_LEN = 1600"
definition ROUTER_NUM_INTERFACES :: int where "ROUTER_NUM_INTERFACES = 3"

abbreviation "ETH_HLEN \<equiv> 14 :: nat"  \<comment> \<open>sizeof (struct ether_header)\<close>
abbreviation "IP_HLEN \<equiv> 20 :: nat"   \<comment> \<open>sizeof (struct iphdr)\<close>
abbreviation "ICMP_HLEN \<equiv> 8 :: nat"  \<comment> \<open>sizeof (struct icmphdr)\<close>
abbreviation "ARP_HLEN \<equiv> 28 :: nat"  \<comment> \<open>sizeof (struct arp_header)\<close>

abbreviation "ETHERTYPE_IP \<equiv> 0x0800 :: u16"
abbreviation "ETHERTYPE_ARP \<equiv> 0x0806 :: u16"
abbreviation "ARPOP_REQUEST \<equiv> 1 :: u16"
abbreviation "ARPOP_REPLY \<equiv> 2 :: u16"
abbreviation "ARPHRD_ETHER \<equiv> 1 :: u16"
abbreviation "IPPROTO_ICMP \<equiv> 1 :: u8"
abbreviation "ICMP_ECHOREPLY \<equiv> 0 :: u8"
abbreviation "ICMP_DEST_UNREACH \<equiv> 3 :: u8"
abbreviation "ICMP_ECHO \<equiv> 8 :: u8"
abbreviation "ICMP_TIME_EXCEEDED \<equiv> 11 :: u8"

record packet =
  len :: nat
  payload :: "u8 list"
  interface :: int

type_synonym frame = "int \<times> u8 list"
type_synonym mac = "u8 list"

record ether_header =
  ether_dhost :: mac
  ether_shost :: mac
  ether_type :: u16

record iphdr =
  version :: u8
  ihl :: u8
  tos :: u8
  tot_len :: u16
  ip_id :: u16
  frag_off :: u16
  ttl :: u8
  protocol :: u8
  check :: u16
  saddr :: u32
  daddr :: u32

record icmphdr =
  icmp_type :: u8
  icmp_code :: u8
  icmp_check :: u16
  echo_id :: u16
  echo_sequence :: u16

record arp_header =
  htype :: u16
  ptype :: u16
  hlen :: u8
  plen :: u8
  arp_op :: u16
  sha :: mac
  spa :: u32
  tha :: mac
  tpa :: u32

text \<open>The bytes of a header in memory; \<open>version\<close> and \<open>ihl\<close> share the first byte.\<close>

definition ether_bytes :: "ether_header \<Rightarrow> u8 list" where
  "ether_bytes e = ether_dhost e @ ether_shost e @ bytes16 (ether_type e)"

definition ip_bytes :: "iphdr \<Rightarrow> u8 list" where
  "ip_bytes h =
     [16 * version h + ihl h, tos h] @ bytes16 (tot_len h) @ bytes16 (ip_id h) @
     bytes16 (frag_off h) @ [ttl h, protocol h] @ bytes16 (check h) @
     bytes32 (saddr h) @ bytes32 (daddr h)"

definition icmp_bytes :: "icmphdr \<Rightarrow> u8 list" where
  "icmp_bytes c =
     [icmp_type c, icmp_code c] @ bytes16 (icmp_check c) @ bytes16 (echo_id c) @
     bytes16 (echo_sequence c)"

definition arp_bytes :: "arp_header \<Rightarrow> u8 list" where
  "arp_bytes a =
     bytes16 (htype a) @ bytes16 (ptype a) @ [hlen a, plen a] @ bytes16 (arp_op a) @
     sha a @ bytes32 (spa a) @ tha a @ bytes32 (tpa a)"

text \<open>Reading a field of a received frame through the header pointers.\<close>

definition eth_dhost_of :: "u8 list \<Rightarrow> mac" where "eth_dhost_of b = bytes_at 0 6 b"
definition eth_shost_of :: "u8 list \<Rightarrow> mac" where "eth_shost_of b = bytes_at 6 6 b"
definition eth_type_of :: "u8 list \<Rightarrow> u16" where "eth_type_of b = rd16 b 12"
definition ip_ttl_of :: "u8 list \<Rightarrow> u8" where "ip_ttl_of b = b ! 22"
definition ip_protocol_of :: "u8 list \<Rightarrow> u8" where "ip_protocol_of b = b ! 23"
definition ip_check_of :: "u8 list \<Rightarrow> u16" where "ip_check_of b = rd16 b 24"
definition ip_saddr_of :: "u8 list \<Rightarrow> u32" where "ip_saddr_of b = rd32 b 26"
definition ip_daddr_of :: "u8 list \<Rightarrow> u32" where "ip_daddr_of b = rd32 b 30"
definition icmp_type_of :: "u8 list \<Rightarrow> u8" where "icmp_type_of b = b ! 34"
definition icmp_id_of :: "u8 list \<Rightarrow> u16" where "icmp_id_of b = rd16 b 38"
definition icmp_sequence_of :: "u8 list \<Rightarrow> u16" where "icmp_sequence_of b = rd16 b 40"
definition arp_op_of :: "u8 list \<Rightarrow> u16" where "arp_op_of b = rd16 b 20"
definition arp_sha_of :: "u8 list \<Rightarrow> mac" where "arp_sha_of b = bytes_at 22 6 b"
definition arp_spa_of :: "u8 list \<Rightarrow> u32" where "arp_spa_of b = rd32 b 28"
definition arp_tpa_of :: "u8 list \<Rightarrow> u32" where "arp_tpa_of b = rd32 b 38"

lemmas field_defs = eth_dhost_of_def eth_shost_of_def eth_type_of_def ip_ttl_of_def
  ip_protocol_of_def ip_check_of_def ip_saddr_of_def ip_daddr_of_def icmp_type_of_def
  icmp_id_of_def icmp_sequence_of_def arp_op_of_def arp_sha_of_def arp_spa_of_def arp_tpa_of_def

section \<open>Sending\<close>

text \<open>
  \<open>send_packet\<close> indexes the global array \<open>interfaces\<close> without a check; a \<open>write\<close> that fails
  ends the program (\<open>DIE\<close>) and is not modelled.
\<close>

definition valid_interface :: "int \<Rightarrow> bool" where
  "valid_interface i \<longleftrightarrow> 0 \<le> i \<and> i < ROUTER_NUM_INTERFACES"

definition send_packet :: "int \<Rightarrow> packet \<Rightarrow> frame res" where
  "send_packet i m =
     (if valid_interface i then Inr (i, take (len m) (payload m)) else Inl OutOfBounds)"

definition build_ethhdr :: "mac \<Rightarrow> mac \<Rightarrow> u16 \<Rightarrow> ether_header" where
  "build_ethhdr smac dmac type = \<lparr>ether_dhost = dmac, ether_shost = smac, ether_type = type\<rparr>"

text \<open>
  The header both ICMP senders fill in; the local \<open>struct iphdr\<close> is aligned to four bytes,
  which is all that \<open>ip_checksum\<close> can see of its address.
\<close>

definition icmp_iphdr :: "u32 \<Rightarrow> u32 \<Rightarrow> iphdr" where
  "icmp_iphdr dst src =
     (let h = \<lparr>version = 4, ihl = 5, tos = 0,
               tot_len = htons (of_nat (IP_HLEN + ICMP_HLEN)), ip_id = htons 1, frag_off = 0,
               ttl = 64, protocol = IPPROTO_ICMP, check = 0, saddr = src, daddr = dst\<rparr>
      in h\<lparr>check := ip_checksum 0 (ip_bytes h)\<rparr>)"

text \<open>
  The payload array is not initialised; \<open>payload\<close> below holds the 42 bytes that are written
  into it and sent.
\<close>

definition send_icmp_packet :: "ether_header \<Rightarrow> iphdr \<Rightarrow> icmphdr \<Rightarrow> int \<Rightarrow> frame res" where
  "send_icmp_packet eth_hdr ip_hdr icmp_hdr i =
     bindE (icmp_checksum (icmp_bytes icmp_hdr)) (\<lambda>ck.
     send_packet i
       \<lparr>len = ETH_HLEN + IP_HLEN + ICMP_HLEN,
        payload = ether_bytes eth_hdr @ ip_bytes ip_hdr @ icmp_bytes (icmp_hdr\<lparr>icmp_check := ck\<rparr>),
        interface = 0\<rparr>)"

definition send_icmp ::
  "u32 \<Rightarrow> u32 \<Rightarrow> mac \<Rightarrow> mac \<Rightarrow> u8 \<Rightarrow> u8 \<Rightarrow> int \<Rightarrow> int \<Rightarrow> int \<Rightarrow> frame res" where
  "send_icmp dst src smac dmac type code i ident seq =
     send_icmp_packet (build_ethhdr smac dmac (htons ETHERTYPE_IP)) (icmp_iphdr dst src)
       \<lparr>icmp_type = type, icmp_code = code, icmp_check = 0,
        echo_id = word_of_int ident, echo_sequence = word_of_int seq\<rparr> i"

definition send_icmp_error :: "u32 \<Rightarrow> u32 \<Rightarrow> mac \<Rightarrow> mac \<Rightarrow> u8 \<Rightarrow> u8 \<Rightarrow> int \<Rightarrow> frame res" where
  "send_icmp_error dst src smac dmac type code i =
     send_icmp_packet (build_ethhdr smac dmac (htons ETHERTYPE_IP)) (icmp_iphdr dst src)
       \<lparr>icmp_type = type, icmp_code = code, icmp_check = 0, echo_id = 0, echo_sequence = 0\<rparr> i"

definition send_arp :: "u32 \<Rightarrow> u32 \<Rightarrow> ether_header \<Rightarrow> int \<Rightarrow> u16 \<Rightarrow> frame res" where
  "send_arp dst src eth_hdr i op =
     (let arp_hdr = \<lparr>htype = htons ARPHRD_ETHER, ptype = htons 2048, hlen = 6, plen = 4,
                     arp_op = op, sha = ether_shost eth_hdr, spa = src,
                     tha = ether_dhost eth_hdr, tpa = dst\<rparr>;
          buf = put_at ETH_HLEN (arp_bytes arp_hdr)
                  (put_at 0 (ether_bytes eth_hdr) (replicate MAX_LEN 0))
      in send_packet i \<lparr>len = ARP_HLEN + ETH_HLEN, payload = buf, interface = 0\<rparr>)"

section \<open>Recognising\<close>

text \<open>The pointers the parsers return are offsets into the payload.\<close>

definition parse_arp :: "u8 list \<Rightarrow> nat option" where
  "parse_arp b = (if ntohs (eth_type_of b) = ETHERTYPE_ARP then Some ETH_HLEN else None)"

definition parse_icmp :: "u8 list \<Rightarrow> nat option" where
  "parse_icmp b =
     (if ntohs (eth_type_of b) = ETHERTYPE_IP
      then (if ip_protocol_of b = 1 then Some (IP_HLEN + ETH_HLEN) else None)
      else None)"

section \<open>MAC addresses\<close>

definition hex2num :: "char \<Rightarrow> int" where
  "hex2num c =
     (if CHR ''0'' \<le> c \<and> c \<le> CHR ''9'' then of_char c - of_char CHR ''0''
      else if CHR ''a'' \<le> c \<and> c \<le> CHR ''f'' then of_char c - of_char CHR ''a'' + 10
      else if CHR ''A'' \<le> c \<and> c \<le> CHR ''F'' then of_char c - of_char CHR ''A'' + 10
      else - 1)"

text \<open>\<open>*txt++\<close> on a string: its end is the terminating NUL.\<close>

fun next_char :: "string \<Rightarrow> char \<times> string" where
  "next_char [] = (CHR 0x00, [])"
| "next_char (c # cs) = (c, cs)"

text \<open>
  The loop over the six bytes, \<open>n\<close> of them left: the result code and the bytes stored so
  far.
\<close>

fun hwaddr_loop :: "nat \<Rightarrow> string \<Rightarrow> u8 list \<Rightarrow> int \<times> u8 list" where
  "hwaddr_loop 0 txt addr = (0, addr)"
| "hwaddr_loop (Suc n) txt addr =
     (let (c1, txt1) = next_char txt; a = hex2num c1
      in if a < 0 then (- 1, addr)
         else let (c2, txt2) = next_char txt1; b = hex2num c2
              in if b < 0 then (- 1, addr)
                 else let addr' = addr @ [word_of_int (push_bit 4 a OR b)]
                      in if n \<noteq> 0 then
                           let (c3, txt3) = next_char txt2
                           in if c3 \<noteq> CHR '':'' then (- 1, addr') else hwaddr_loop n txt3 addr'
                         else hwaddr_loop n txt2 addr')"

definition hwaddr_aton :: "string \<Rightarrow> int \<times> u8 list" where
  "hwaddr_aton txt = hwaddr_loop 6 txt []"


definition hex2byte :: "string \<Rightarrow> int" where
  "hex2byte hex =
     (let (c1, hex1) = next_char hex; a = hex2num c1
      in if a < 0 then - 1
         else let (c2, hex2) = next_char hex1; b = hex2num c2
              in if b < 0 then - 1 else push_bit 4 a OR b)"

section \<open>Setting up\<close>

text \<open>
  \<open>init\<close> opens a socket for every name on the command line and stores it in the global array \<open>interfaces\<close>, which
  starts as zeros; it does not look at the size of the array. What \<open>get_sock\<close> answers is a parameter.
\<close>

fun init_loop :: "(string \<Rightarrow> int) \<Rightarrow> nat \<Rightarrow> string list \<Rightarrow> int list \<Rightarrow> int list res" where
  "init_loop get_sock i [] fds = Inr fds"
| "init_loop get_sock i (name # argv) fds =
     (if i < length fds then init_loop get_sock (Suc i) argv (fds[i := get_sock name])
      else Inl OutOfBounds)"

definition init_interfaces :: "(string \<Rightarrow> int) \<Rightarrow> string list \<Rightarrow> int list res" where
  "init_interfaces get_sock argv = init_loop get_sock 0 argv (replicate (nat ROUTER_NUM_INTERFACES) 0)"

lemma init_loop_result:
  "i \<le> length fds \<Longrightarrow> init_loop get_sock i argv fds =
     (if i + length argv \<le> length fds
      then Inr (take i fds @ map get_sock argv @ drop (i + length argv) fds) else Inl OutOfBounds)"
proof (induction argv arbitrary: i fds)
  case (Cons name argv)
  show ?case
  proof (cases "i < length fds")
    case True
    have "take (Suc i) (fds[i := get_sock name]) = take i fds @ [get_sock name]"
      using True by (simp add: take_Suc_conv_app_nth)
    then show ?thesis using Cons.IH[of "Suc i" "fds[i := get_sock name]"] True by (simp add: drop_update_cancel)
  qed simp
qed simp

text \<open>The array holds the sockets in the order of the names, exactly when there are at most three of them.\<close>

lemma init_interfaces_result:
  "init_interfaces get_sock argv =
     (if length argv \<le> 3 then Inr (map get_sock argv @ replicate (3 - length argv) 0) else Inl OutOfBounds)"
  using init_loop_result[of 0 "replicate 3 0" get_sock argv]
  by (simp add: init_interfaces_def ROUTER_NUM_INTERFACES_def)

section \<open>What is sent\<close>

lemma length_ip_bytes [simp]: "length (ip_bytes h) = 20"
  by (simp add: ip_bytes_def)

lemma length_icmp_bytes [simp]: "length (icmp_bytes c) = 8"
  by (simp add: icmp_bytes_def)

text \<open>Setting a checksum field is overwriting its two bytes.\<close>

lemma ip_bytes_check: "ip_bytes (h\<lparr>check := c\<rparr>) = put_at 10 (bytes16 c) (ip_bytes h)"
  by (simp add: ip_bytes_def put_at_def)

lemma icmp_bytes_check: "icmp_bytes (h\<lparr>icmp_check := c\<rparr>) = put_at 2 (bytes16 c) (icmp_bytes h)"
  by (simp add: icmp_bytes_def put_at_def)

lemma rd16_ip_check: "rd16 (ip_bytes h) 10 = check h"
  using le16_bytes16[of "check h"] by (simp add: ip_bytes_def rd16_def nth_append bytes16_def)

lemma rd16_icmp_check: "rd16 (icmp_bytes h) 2 = icmp_check h"
  using le16_bytes16[of "icmp_check h"] by (simp add: icmp_bytes_def rd16_def nth_append)

lemma icmp_iphdr_verifies: "sums_to_zero (ip_bytes (icmp_iphdr dst src))"
  unfolding icmp_iphdr_def Let_def ip_bytes_check
  by (rule filled_checksum_verifies) (simp_all add: rd16_ip_check)


lemma send_icmp_packet_sent:
  assumes "valid_interface i" and "icmp_check c = 0"
    and "length (ether_dhost e) = 6" and "length (ether_shost e) = 6"
  shows "\<exists>ck. send_icmp_packet e h c i =
      Inr (i, ether_bytes e @ ip_bytes h @ icmp_bytes (c\<lparr>icmp_check := ck\<rparr>)) \<and>
    sums_to_zero (icmp_bytes (c\<lparr>icmp_check := ck\<rparr>))"
proof -
  obtain ck where ck: "icmp_checksum (icmp_bytes c) = Inr ck"
    "sums_to_zero (put_at 2 (bytes16 ck) (icmp_bytes c))"
    using filled_icmp_checksum_verifies[of 2 "icmp_bytes c"] assms(2)
    by (auto simp: rd16_icmp_check)
  with assms show ?thesis
    by (auto simp: send_icmp_packet_def send_packet_def ether_bytes_def icmp_bytes_check
        intro!: exI[of _ ck])
qed

lemma send_icmp_packet_fault:
  "\<not> valid_interface i \<Longrightarrow> send_icmp_packet e h c i = Inl OutOfBounds"
  by (auto simp: send_icmp_packet_def send_packet_def icmp_checksum_def icmp_bytes_def
      bytes16_def Let_def)

lemma send_icmp_fault:
  "\<not> valid_interface i \<Longrightarrow> send_icmp dst src smac dmac type code i ident seq = Inl OutOfBounds"
  by (simp add: send_icmp_def send_icmp_packet_fault)

lemma length_arp_bytes: "length (sha a) = 6 \<Longrightarrow> length (tha a) = 6 \<Longrightarrow> length (arp_bytes a) = 28"
  by (simp add: arp_bytes_def)

lemma send_arp_sent:
  assumes "length (ether_dhost e) = 6" and "length (ether_shost e) = 6"
  shows "send_arp dst src e i op =
    (if valid_interface i
     then Inr (i, ether_bytes e @ arp_bytes
            \<lparr>htype = htons ARPHRD_ETHER, ptype = htons 2048, hlen = 6, plen = 4, arp_op = op,
             sha = ether_shost e, spa = src, tha = ether_dhost e, tpa = dst\<rparr>)
     else Inl OutOfBounds)"
proof -
  have t: "take (28 + 14) (put_at 14 ys (put_at 0 xs (replicate MAX_LEN 0))) = xs @ ys"
    if "length xs = 14" "length ys = 28" for xs ys :: "u8 list"
    using that by (simp add: put_at_def)
  show ?thesis
    using assms t[of "ether_bytes e"]
    by (simp add: send_arp_def send_packet_def Let_def length_arp_bytes ether_bytes_def)
qed

text \<open>Fields of a frame that starts with given headers.\<close>

lemma fields_of_frame:
  assumes "length (ether_dhost e) = 6" and "length (ether_shost e) = 6"
  shows "eth_dhost_of (ether_bytes e @ r) = ether_dhost e"
    and "eth_shost_of (ether_bytes e @ r) = ether_shost e"
    and "eth_type_of (ether_bytes e @ r) = ether_type e"
    and "bytes_at ETH_HLEN n (ether_bytes e @ r) = take n r"
  using assms le16_bytes16[of "ether_type e"]
  by (simp_all add: ether_bytes_def eth_dhost_of_def eth_shost_of_def eth_type_of_def
      bytes_at_def rd16_def nth_append)

lemma word_of_int_uint_same [simp]: "word_of_int (uint w) = (w :: u16)"
  by simp

section \<open>MAC addresses in text\<close>

definition hexdigit :: "nat \<Rightarrow> char" where
  "hexdigit n = ''0123456789abcdef'' ! n"

definition byte_text :: "u8 \<Rightarrow> string" where
  "byte_text b = [hexdigit (unat b div 16), hexdigit (unat b mod 16)]"

fun mac_text :: "u8 list \<Rightarrow> string" where
  "mac_text [] = []"
| "mac_text [b] = byte_text b"
| "mac_text (b # bs) = byte_text b @ CHR '':'' # mac_text bs"

lemma hex2num_hexdigit: "n < 16 \<Longrightarrow> hex2num (hexdigit n) = int n"
proof -
  have "\<forall>n \<in> set [0..<16]. hex2num (hexdigit n) = int n"
    by (simp add: upt_rec hex2num_def hexdigit_def less_eq_char_def)
  then show "n < 16 \<Longrightarrow> hex2num (hexdigit n) = int n" by simp
qed


lemma or_nibbles: "b < 16 \<Longrightarrow> push_bit 4 (int a) OR int b = int (16 * a + b)"
proof -
  assume "b < 16"
  then have "take_bit 4 (int b) = int b" by (simp add: take_bit_int_eq_self)
  then show ?thesis
    using concat_bit_def[of 4 "int b" "int a"] concat_bit_eq[of 4 "int b" "int a"]
    by (simp add: or.commute push_bit_eq_mult)
qed

lemma byte_of_nibbles:
  "(word_of_int (push_bit 4 (int (unat b div 16)) OR int (unat b mod 16)) :: u8) = b"
proof -
  have "16 * (unat b div 16) + unat b mod 16 = unat b" by simp
  then show ?thesis by (simp only: or_nibbles mod_less_divisor zero_less_numeral) simp
qed

lemma hwaddr_loop_byte:
  "hwaddr_loop (Suc n) (byte_text b @ r) acc =
     (if n \<noteq> 0
      then (let (c, t) = next_char r in if c \<noteq> CHR '':'' then (- 1, acc @ [b]) else hwaddr_loop n t (acc @ [b]))
      else hwaddr_loop n r (acc @ [b]))"
proof -
  have "unat b div 16 < 16" using unat_u8_less[of b] by (simp add: less_mult_imp_div_less)
  then show ?thesis by (simp add: byte_text_def hex2num_hexdigit byte_of_nibbles Let_def)
qed

lemma hwaddr_loop_text:
  "bs \<noteq> [] \<Longrightarrow> hwaddr_loop (length bs) (mac_text bs @ r) acc = (0, acc @ bs)"
proof (induction bs arbitrary: acc rule: mac_text.induct)
  case (2 b)
  show ?case using hwaddr_loop_byte[of 0 b r acc] by simp
next
  case (3 b b' bs)
  have "hwaddr_loop (Suc (length (b' # bs))) (byte_text b @ CHR '':'' # mac_text (b' # bs) @ r) acc
      = hwaddr_loop (length (b' # bs)) (mac_text (b' # bs) @ r) (acc @ [b])"
    unfolding hwaddr_loop_byte by simp
  then show ?case using "3.IH"[of "acc @ [b]"] by (simp del: hwaddr_loop.simps)
qed simp

lemma hwaddr_aton_text: "length m = 6 \<Longrightarrow> hwaddr_aton (mac_text m @ r) = (0, m)"
  using hwaddr_loop_text[of m r "[]"] by (cases "m = []") (auto simp: hwaddr_aton_def)

lemma hex2byte_text: "hex2byte (byte_text b @ r) = uint b"
proof -
  have "unat b div 16 < 16" using unat_u8_less[of b] by (simp add: less_mult_imp_div_less)
  then have "hex2byte (byte_text b @ r) = push_bit 4 (int (unat b div 16)) OR int (unat b mod 16)"
    by (simp add: hex2byte_def byte_text_def hex2num_hexdigit Let_def)
  also have "\<dots> = int (unat b)" by (simp only: or_nibbles mod_less_divisor zero_less_numeral mult_div_mod_eq)
  finally show ?thesis by simp
qed

lemma hwaddr_broadcast: "hwaddr_aton ''ff:ff:ff:ff:ff:ff'' = (0, [255, 255, 255, 255, 255, 255])"
proof -
  have "byte_text 255 = ''ff''" by (simp add: byte_text_def hexdigit_def)
  then show ?thesis using hwaddr_aton_text[of "[255, 255, 255, 255, 255, 255]" "[]"] by simp
qed

section \<open>Property\<close>

text \<open>
  \<open>hwaddr_aton\<close> reads back every MAC address written with two hexadecimal digits a byte and
  colons between them, and looks at nothing behind it.
\<close>

lemma hwaddr_aton_roundtrip:
  assumes "length m = 6"
  shows "hwaddr_aton (mac_text m @ rest) = (0, m)"
  by (rule hwaddr_aton_text[OF assms])

lemma hwaddr_aton_roundtrip_witness:
  "hwaddr_aton (mac_text [0, 17, 34, 51, 68, 255] @ ''x'') = (0, [0, 17, 34, 51, 68, 255])"
  by (rule hwaddr_aton_roundtrip) simp

end
