(* ===== verification/C_Text.thy ===== *)
theory C_Text
  imports Byte_Order "HOL-Library.Char_ord"
begin

text \<open>
  The text functions of the C library that the programs use, on strings as character lists
  that end where the terminating NUL stands: character classes, decimal printing,
  \<open>strtoul\<close> and \<open>strtol\<close>, the conversions \<open>%s\<close> and \<open>%d\<close> of \<open>scanf\<close>, \<open>inet_addr\<close> and
  \<open>inet_ntoa\<close>.
\<close>

section \<open>Characters\<close>

definition isspace :: "char \<Rightarrow> bool" where
  "isspace c \<longleftrightarrow> c \<in> {CHR '' '', CHR 0x09, CHR 0x0A, CHR 0x0B, CHR 0x0C, CHR 0x0D}"

text \<open>The value of a digit of a base up to 16.\<close>

definition digit_val :: "char \<Rightarrow> nat option" where
  "digit_val c =
     (if CHR ''0'' \<le> c \<and> c \<le> CHR ''9'' then Some (of_char c - of_char CHR ''0'')
      else if CHR ''a'' \<le> c \<and> c \<le> CHR ''f'' then Some (of_char c - of_char CHR ''a'' + 10)
      else if CHR ''A'' \<le> c \<and> c \<le> CHR ''F'' then Some (of_char c - of_char CHR ''A'' + 10)
      else None)"

definition is_digit_of :: "nat \<Rightarrow> char \<Rightarrow> bool" where
  "is_digit_of base c = (case digit_val c of None \<Rightarrow> False | Some d \<Rightarrow> d < base)"

abbreviation "isdigit \<equiv> is_digit_of 10"

section \<open>Numbers in text\<close>

fun scan_digits :: "nat \<Rightarrow> nat \<Rightarrow> string \<Rightarrow> nat \<times> string" where
  "scan_digits base acc [] = (acc, [])"
| "scan_digits base acc (c # cs) =
     (if is_digit_of base c then scan_digits base (acc * base + the (digit_val c)) cs
      else (acc, c # cs))"

definition digit_char :: "nat \<Rightarrow> char" where
  "digit_char d = ''0123456789'' ! d"

fun nat_text :: "nat \<Rightarrow> string" where
  "nat_text n =
     (if n < 10 then [digit_char n] else nat_text (n div 10) @ [digit_char (n mod 10)])"

declare nat_text.simps [simp del]

definition int_text :: "int \<Rightarrow> string" where
  "int_text i = (if i < 0 then CHR ''-'' # nat_text (nat (- i)) else nat_text (nat i))"

lemma digit_char_all:
  "d < 10 \<Longrightarrow> digit_val (digit_char d) = Some d \<and> isdigit (digit_char d) \<and>
     \<not> isspace (digit_char d) \<and> (digit_char d = CHR ''0'' \<longleftrightarrow> d = 0) \<and>
     digit_char d \<notin> {CHR ''-'', CHR ''+'', CHR ''.''}"
proof -
  have "\<forall>d \<in> set [0..<10]. digit_val (digit_char d) = Some d \<and> isdigit (digit_char d) \<and>
     \<not> isspace (digit_char d) \<and> (digit_char d = CHR ''0'' \<longleftrightarrow> d = 0) \<and>
     digit_char d \<notin> {CHR ''-'', CHR ''+'', CHR ''.''}"
    by (simp add: upt_rec digit_val_def digit_char_def is_digit_of_def isspace_def
        less_eq_char_def)
  then show "d < 10 \<Longrightarrow> ?thesis" by simp
qed

lemma nat_text_digits: "c \<in> set (nat_text n) \<Longrightarrow> \<exists>d < 10. c = digit_char d"
proof (induction n rule: nat_text.induct)
  case (1 n)
  then show ?case
    by (cases "n < 10") (auto simp: nat_text.simps[of n] intro: exI[of _ "n mod 10"])
qed

lemma nat_text_nonempty [simp]: "nat_text n \<noteq> []"
  by (simp add: nat_text.simps[of n])

lemma hd_nat_text: "0 < n \<Longrightarrow> \<exists>d. 0 < d \<and> d < 10 \<and> hd (nat_text n) = digit_char d"
proof (induction n rule: nat_text.induct)
  case (1 n)
  then show ?case by (cases "n < 10") (auto simp: nat_text.simps[of n])
qed

lemma scan_digits_append:
  assumes "\<And>c. c \<in> set xs \<Longrightarrow> is_digit_of b c"
  shows "scan_digits b acc (xs @ ys) = scan_digits b (fst (scan_digits b acc xs)) ys"
  using assms by (induction b acc xs rule: scan_digits.induct) auto

lemma nat_text_isdigit: "c \<in> set (nat_text n) \<Longrightarrow> isdigit c"
  by (auto dest!: nat_text_digits simp: digit_char_all)

lemma scan_nat_text: "scan_digits 10 0 (nat_text n) = (n, [])"
proof (induction n rule: nat_text.induct)
  case (1 n)
  show ?case
  proof (cases "n < 10")
    case True
    then show ?thesis by (simp add: nat_text.simps[of n] digit_char_all)
  next
    case False
    then have "scan_digits 10 0 (nat_text n)
      = scan_digits 10 (fst (scan_digits 10 0 (nat_text (n div 10)))) [digit_char (n mod 10)]"
      by (simp only: nat_text.simps[of n] if_False scan_digits_append[OF nat_text_isdigit])
    then show ?thesis using 1[OF False] digit_char_all[of "n mod 10"] by simp
  qed
qed

lemma scan_digits_stop: "ys = [] \<or> \<not> is_digit_of b (hd ys) \<Longrightarrow> scan_digits b acc ys = (acc, ys)"
  by (cases ys) auto

lemma scan_nat_text_rest:
  "ys = [] \<or> \<not> isdigit (hd ys) \<Longrightarrow> scan_digits 10 0 (nat_text n @ ys) = (n, ys)"
  by (simp add: scan_digits_append[OF nat_text_isdigit] scan_nat_text scan_digits_stop)

lemma scan_digits_length: "scan_digits b acc xs = (v, ys) \<Longrightarrow> length ys \<le> length xs"
  by (induction b acc xs rule: scan_digits.induct) (auto split: if_splits)

text \<open>
  \<open>strtoul (cp, &end, 0)\<close> where \<open>cp\<close> starts with a digit: the value, not cut off at the
  width of the result, and the rest of the text.
\<close>

definition strtoul0 :: "string \<Rightarrow> nat \<times> string" where
  "strtoul0 cp =
     (case cp of
        CHR ''0'' # x # h # r \<Rightarrow>
          if x \<in> {CHR ''x'', CHR ''X''} \<and> is_digit_of 16 h then scan_digits 16 0 (h # r)
          else scan_digits 8 0 cp
      | CHR ''0'' # _ \<Rightarrow> scan_digits 8 0 cp
      | _ \<Rightarrow> scan_digits 10 0 cp)"


lemma digit_0_octal: "is_digit_of 8 CHR ''0'' \<and> the (digit_val CHR ''0'') = 0"
  by (simp add: is_digit_of_def digit_val_def less_eq_char_def)

lemma strtoul0_nat_text:
  assumes "ys = [] \<or> hd ys = CHR ''.''"
  shows "strtoul0 (nat_text n @ ys) = (n, ys)"
proof (cases "n = 0")
  case True
  have nd: "\<not> is_digit_of b CHR ''.''" for b
    by (simp add: is_digit_of_def digit_val_def less_eq_char_def)
  have z: "nat_text 0 = [CHR ''0'']" by (simp add: nat_text.simps[of 0] digit_char_def)
  show ?thesis
  proof (cases ys)
    case Nil
    then show ?thesis using True digit_0_octal by (simp add: z strtoul0_def)
  next
    case (Cons c r)
    then show ?thesis using True digit_0_octal assms nd
      by (cases r) (auto simp: z strtoul0_def)
  qed
next
  case False
  then obtain d where d: "0 < d" "d < 10" "hd (nat_text n) = digit_char d"
    using hd_nat_text by blast
  then have "hd (nat_text n) \<noteq> CHR ''0''" using digit_char_all[of d] by simp
  then obtain c r where "nat_text n = c # r" "c \<noteq> CHR ''0''" by (cases "nat_text n") auto
  then have "strtoul0 (nat_text n @ ys) = scan_digits 10 0 (nat_text n @ ys)"
    by (auto simp: strtoul0_def split: list.splits char.splits bool.splits)
  then show ?thesis
    using assms scan_nat_text_rest[of ys n]
    by (auto simp: is_digit_of_def digit_val_def less_eq_char_def)
qed

section \<open>inet_addr and inet_ntoa\<close>

text \<open>
  \<open>inet_addr\<close> reads one to four numbers separated by dots, decimal, octal or hexadecimal;
  all but the last are one byte, the last fills the bytes that remain. White space may
  follow. Anything else is \<open>INADDR_NONE\<close>. The argument \<open>d\<close> counts the dots still allowed.
\<close>

definition part_max :: "nat \<Rightarrow> nat" where
  "part_max k = [4294967295, 16777215, 65535, 255] ! k"

fun parts_value :: "nat list \<Rightarrow> nat" where
  "parts_value ps = (case ps of
     [] \<Rightarrow> 0 | [a] \<Rightarrow> 16777216 * a | [a, b] \<Rightarrow> 16777216 * a + 65536 * b
   | a # b # c # _ \<Rightarrow> 16777216 * a + 65536 * b + 256 * c)"

fun inet_loop :: "nat \<Rightarrow> nat list \<Rightarrow> string \<Rightarrow> u32 option" where
  "inet_loop d parts cp =
     (if cp = [] \<or> \<not> isdigit (hd cp) then None
      else let (v, rest) = strtoul0 cp
           in if v > 4294967295 then None
              else if rest \<noteq> [] \<and> hd rest = CHR ''.''
              then (case d of 0 \<Rightarrow> None
                    | Suc d' \<Rightarrow> if v > 255 then None else inet_loop d' (parts @ [v]) (tl rest))
              else if rest \<noteq> [] \<and> \<not> isspace (hd rest) then None
              else if v > part_max (length parts) then None
              else Some (htonl (word_of_nat (parts_value parts + v))))"

declare inet_loop.simps [simp del]

definition INADDR_NONE :: u32 where "INADDR_NONE = 0xffffffff"

definition inet_addr :: "string \<Rightarrow> u32" where
  "inet_addr cp = (case inet_loop 3 [] cp of None \<Rightarrow> INADDR_NONE | Some w \<Rightarrow> w)"

definition inet_ntoa :: "u32 \<Rightarrow> string" where
  "inet_ntoa w = (let b = bytes32 w in
     nat_text (unat (b ! 0)) @ CHR ''.'' # nat_text (unat (b ! 1)) @ CHR ''.'' #
     nat_text (unat (b ! 2)) @ CHR ''.'' # nat_text (unat (b ! 3)))"

lemma hd_nat_text_digit: "isdigit (hd (nat_text n @ ys))"
  using nat_text_isdigit[of "hd (nat_text n)" n] by (simp add: hd_in_set)

lemma hd_nat_text_isdigit: "isdigit (hd (nat_text n))"
  using hd_nat_text_digit[of n "[]"] by simp

lemma inet_loop_part:
  "n < 256 \<Longrightarrow> inet_loop (Suc d) parts (nat_text n @ CHR ''.'' # r) = inet_loop d (parts @ [n]) r"
  by (subst inet_loop.simps) (simp add: hd_nat_text_isdigit strtoul0_nat_text)

lemma inet_loop_last:
  "n < 256 \<Longrightarrow> length parts < 4 \<Longrightarrow>
   inet_loop d parts (nat_text n) = Some (htonl (word_of_nat (parts_value parts + n)))"
proof -
  assume n: "n < 256" "length parts < 4"
  have "\<forall>k \<in> set [0..<4]. 255 \<le> part_max k" by (simp add: upt_rec part_max_def)
  then have "255 \<le> part_max (length parts)" using n(2) by simp
  then show ?thesis
    using n hd_nat_text_digit[of n "[]"] strtoul0_nat_text[of "[]" n]
    by (subst inet_loop.simps) simp
qed

lemma inet_addr_ntoa: "inet_addr (inet_ntoa w) = w"
proof -
  obtain a b c d where w: "w = le32 a b c d" by (rule le32_exhaust)
  have "inet_addr (inet_ntoa w)
      = htonl (word_of_nat (16777216 * unat a + 65536 * unat b + 256 * unat c + unat d))"
    by (simp add: inet_addr_def inet_ntoa_def w bytes32_le32 Let_def inet_loop_part
        inet_loop_last numeral_3_eq_3)
  also have "\<dots> = htonl (le32 d c b a)"
    unfolding le32_def by (simp only: ac_simps)
  finally show ?thesis by (simp add: w)
qed

section \<open>scanf\<close>

fun skip_space :: "string \<Rightarrow> string" where
  "skip_space [] = []"
| "skip_space (c # cs) = (if isspace c then skip_space cs else c # cs)"

lemma skip_space_length: "length (skip_space s) \<le> length s"
  by (induction s) auto

fun scan_token :: "string \<Rightarrow> string \<times> string" where
  "scan_token [] = ([], [])"
| "scan_token (c # cs) =
     (if isspace c then ([], c # cs) else let (t, r) = scan_token cs in (c # t, r))"

text \<open>
  One conversion: the value, or nothing on a failure, the input that is left and whether the
  end of the file was read (the flag that \<open>feof\<close> reports).
\<close>

definition scan_s :: "string \<Rightarrow> string option \<times> string \<times> bool" where
  "scan_s inp =
     (let inp1 = skip_space inp
      in if inp1 = [] then (None, [], True)
         else let (t, r) = scan_token inp1 in (Some t, r, r = []))"

text \<open>
  \<open>%d\<close> goes through \<open>strtol\<close>: out of the range of \<open>long\<close> the value is cut to it, and it
  is stored in an \<open>int\<close>.
\<close>

definition to_int32 :: "int \<Rightarrow> int" where
  "to_int32 v = signed_take_bit 31 (max (- (2 ^ 63)) (min (2 ^ 63 - 1) v))"

definition scan_d :: "string \<Rightarrow> int option \<times> string \<times> bool" where
  "scan_d inp =
     (let inp1 = skip_space inp
      in if inp1 = [] then (None, [], True)
         else let (neg, inp2) =
                (if hd inp1 = CHR ''-'' then (True, tl inp1)
                 else if hd inp1 = CHR ''+'' then (False, tl inp1) else (False, inp1));
                (v, r) = scan_digits 10 0 inp2
         in if inp2 = [] then (None, [], True)
            else if \<not> isdigit (hd inp2) then (None, inp2, False)
            else (Some (to_int32 (if neg then - int v else int v)), r, r = []))"

end
