(* ===== verification/Growable.thy ===== *)
theory Growable
  imports Prelude
begin

text \<open>
  Heap-allocated arrays: slots that may not have been written yet, bounds-checked access,
  \<open>realloc\<close>, and the contract of the arrays that double when they fill up (the buckets of
  the routing table and the ARP table), as the locale \<open>growable\<close>.
\<close>

section \<open>Arrays\<close>

type_synonym 'a slots = "'a option list"

definition malloc_array :: "nat \<Rightarrow> 'a slots" where
  "malloc_array n = replicate n None"

definition realloc_array :: "nat \<Rightarrow> 'a slots \<Rightarrow> 'a slots" where
  "realloc_array n es = take n es @ replicate (n - length es) None"

definition array_store :: "nat \<Rightarrow> 'a \<Rightarrow> 'a slots \<Rightarrow> 'a slots res" where
  "array_store i x es = (if i < length es then Inr (es[i := Some x]) else Inl OutOfBounds)"

definition array_load :: "nat \<Rightarrow> 'a slots \<Rightarrow> 'a res" where
  "array_load i es =
     (if i < length es then (case es ! i of None \<Rightarrow> Inl UninitRead | Some x \<Rightarrow> Inr x)
      else Inl OutOfBounds)"

text \<open>
  The representation of a list by an array with a size and a capacity: the first slots hold
  the list, the others were never written, and there is room for one element more.
\<close>

definition array_repr :: "'a slots \<Rightarrow> nat \<Rightarrow> nat \<Rightarrow> 'a list \<Rightarrow> bool" where
  "array_repr es n cap xs \<longleftrightarrow>
     n = length xs \<and> cap = length es \<and> n < cap \<and> (\<exists>junk. es = map Some xs @ junk)"

lemma array_repr_load: "array_repr es n cap xs \<Longrightarrow> i < n \<Longrightarrow> array_load i es = Inr (xs ! i)"
  by (auto simp: array_repr_def array_load_def nth_append)

lemma array_repr_init: "array_repr (malloc_array 1) 0 1 []"
  by (simp add: array_repr_def malloc_array_def)

lemma array_repr_store:
  assumes "array_repr es n cap xs"
  shows "\<exists>es'. array_store n x es = Inr es' \<and> length es' = cap \<and>
    (\<exists>junk. es' = map Some (xs @ [x]) @ junk)"
proof -
  from assms obtain junk where "es = map Some xs @ junk" "length xs = n" "n < length es"
    "cap = length es"
    by (auto simp: array_repr_def)
  moreover from this obtain s junk' where "junk = s # junk'" by (cases junk) auto
  ultimately show ?thesis by (auto simp: array_store_def list_update_append)
qed

text \<open>The append with doubling that both tables perform.\<close>

definition grow_push :: "'a \<Rightarrow> 'a slots \<times> nat \<times> nat \<Rightarrow> ('a slots \<times> nat \<times> nat) res" where
  "grow_push x s =
     (let (es, n, cap) = s
      in bindE (array_store n x es) (\<lambda>es1.
         if n + 1 = cap then Inr (realloc_array (2 * cap) es1, n + 1, 2 * cap)
         else Inr (es1, n + 1, cap)))"

lemma grow_push_repr:
  assumes "array_repr es n cap xs"
  shows "\<exists>es' cap'. grow_push x (es, n, cap) = Inr (es', n + 1, cap') \<and>
    array_repr es' (n + 1) cap' (xs @ [x])"
proof -
  obtain es1 junk where es1: "array_store n x es = Inr es1" "length es1 = cap"
    "es1 = map Some (xs @ [x]) @ junk"
    using array_repr_store[OF assms] by blast
  show ?thesis
  proof (cases "n + 1 = cap")
    case True
    let ?es = "realloc_array (2 * cap) es1"
    have es: "?es = map Some (xs @ [x]) @ (junk @ replicate cap None)"
      using es1 by (simp add: realloc_array_def)
    have "length ?es = 2 * cap" using es1(2) by (simp add: realloc_array_def)
    with es True assms have "array_repr ?es (n + 1) (2 * cap) (xs @ [x])"
      unfolding array_repr_def by auto
    with es1 True show ?thesis by (simp add: grow_push_def)
  next
    case False
    with assms es1 have "array_repr es1 (n + 1) cap (xs @ [x])"
      unfolding array_repr_def by auto
    with es1 False show ?thesis by (simp add: grow_push_def)
  qed
qed

section \<open>The contract\<close>

locale growable =
  fixes init :: "'s"
    and push :: "'a \<Rightarrow> 's \<Rightarrow> 's res"
    and repr :: "'s \<Rightarrow> 'a list \<Rightarrow> bool"
  assumes init_repr: "repr init []"
    and push_repr: "repr s xs \<Longrightarrow> \<exists>s'. push x s = Inr s' \<and> repr s' (xs @ [x])"
begin

fun push_all :: "'a list \<Rightarrow> 's \<Rightarrow> 's res" where
  "push_all [] s = Inr s"
| "push_all (x # xs) s = bindE (push x s) (push_all xs)"

lemma push_D: "repr s xs \<Longrightarrow> push x s = Inr s' \<Longrightarrow> repr s' (xs @ [x])"
  using push_repr[of s xs x] by auto

lemma push_all_repr: "repr s xs \<Longrightarrow> \<exists>s'. push_all ys s = Inr s' \<and> repr s' (xs @ ys)"
proof (induction ys arbitrary: s xs)
  case (Cons y ys)
  obtain s1 where s1: "push y s = Inr s1" "repr s1 (xs @ [y])"
    using push_repr[OF Cons.prems] by blast
  then show ?case using Cons.IH[OF s1(2)] by simp
qed auto

end

end
