(* ===== verification/C_Sort.thy ===== *)
theory C_Sort
  imports Prelude "HOL-Library.Multiset"
begin

text \<open>
  The C library's \<open>qsort\<close>: glibc's merge sort (\<open>msort_with_tmp\<close>), which also fixes what
  happens when the comparison function is not an ordering, and the contract its callers may
  rely on when it is one, the locale \<open>sorter\<close>.
\<close>

section \<open>glibc's qsort\<close>

fun merge_runs :: "('a \<Rightarrow> 'a \<Rightarrow> int) \<Rightarrow> 'a list \<Rightarrow> 'a list \<Rightarrow> 'a list" where
  "merge_runs cmp [] ys = ys"
| "merge_runs cmp xs [] = xs"
| "merge_runs cmp (x # xs) (y # ys) =
     (if cmp x y \<le> 0 then x # merge_runs cmp xs (y # ys)
      else y # merge_runs cmp (x # xs) ys)"

function qsort :: "('a \<Rightarrow> 'a \<Rightarrow> int) \<Rightarrow> 'a list \<Rightarrow> 'a list" where
  "qsort cmp b =
     (if length b \<le> 1 then b
      else let n1 = length b div 2
           in merge_runs cmp (qsort cmp (take n1 b)) (qsort cmp (drop n1 b)))"
  by pat_completeness auto
termination
  by (relation "measure (\<lambda>(cmp, b). length b)") auto

declare qsort.simps [simp del]

lemma mset_merge_runs: "mset (merge_runs cmp xs ys) = mset xs + mset ys"
  by (induction cmp xs ys rule: merge_runs.induct) auto

lemma mset_qsort: "mset (qsort cmp b) = mset b"
proof (induction cmp b rule: qsort.induct)
  case (1 cmp b)
  show ?case
  proof (cases "length b \<le> 1")
    case True
    then show ?thesis by (simp add: qsort.simps[of cmp b])
  next
    case False
    let ?n = "length b div 2"
    have "mset (qsort cmp b) = mset (take ?n b) + mset (drop ?n b)"
      using False 1[OF False refl] by (simp add: qsort.simps[of cmp b] mset_merge_runs Let_def)
    also have "\<dots> = mset b" by (metis append_take_drop_id mset_append)
    finally show ?thesis .
  qed
qed

lemma set_merge_runs: "set (merge_runs cmp xs ys) = set xs \<union> set ys"
  by (metis mset_merge_runs set_mset_mset set_mset_union)

lemma set_qsort: "set (qsort cmp b) = set b"
  by (metis mset_qsort set_mset_mset)

text \<open>A comparison function that orders the elements of a set.\<close>

definition orders :: "('a \<Rightarrow> 'a \<Rightarrow> int) \<Rightarrow> 'a set \<Rightarrow> bool" where
  "orders cmp A \<longleftrightarrow>
     (\<forall>a \<in> A. \<forall>b \<in> A. cmp a b \<le> 0 \<or> cmp b a \<le> 0) \<and>
     (\<forall>a \<in> A. \<forall>b \<in> A. \<forall>c \<in> A. cmp a b \<le> 0 \<longrightarrow> cmp b c \<le> 0 \<longrightarrow> cmp a c \<le> 0)"

lemma orders_subset: "orders cmp A \<Longrightarrow> B \<subseteq> A \<Longrightarrow> orders cmp B"
  unfolding orders_def by blast

abbreviation "sorted_by cmp \<equiv> sorted_wrt (\<lambda>a b. cmp a b \<le> (0 :: int))"

lemma merge_runs_sorted:
  "orders cmp (set xs \<union> set ys) \<Longrightarrow> sorted_by cmp xs \<Longrightarrow> sorted_by cmp ys \<Longrightarrow>
   sorted_by cmp (merge_runs cmp xs ys)"
proof (induction cmp xs ys rule: merge_runs.induct)
  case (3 cmp x xs y ys)
  have t: "cmp a c \<le> 0"
    if "a \<in> set (x # xs) \<union> set (y # ys)" "b \<in> set (x # xs) \<union> set (y # ys)"
      "c \<in> set (x # xs) \<union> set (y # ys)" "cmp a b \<le> 0" "cmp b c \<le> 0" for a b c
    using 3(3) that unfolding orders_def by blast
  show ?case
  proof (cases "cmp x y \<le> 0")
    case True
    have "sorted_by cmp (merge_runs cmp xs (y # ys))"
      using 3 True by (auto intro!: "3.IH" elim: orders_subset)
    moreover have "cmp x z \<le> 0" if "z \<in> set xs \<union> set (y # ys)" for z
      using that 3(4,5) True t[of x y z] by auto
    ultimately show ?thesis using True by (auto simp: set_merge_runs)
  next
    case False
    then have yx: "cmp y x \<le> 0" using 3(3) unfolding orders_def by auto
    have "sorted_by cmp (merge_runs cmp (x # xs) ys)"
      using 3 False by (auto intro!: "3.IH" elim: orders_subset)
    moreover have "cmp y z \<le> 0" if "z \<in> set (x # xs) \<union> set ys" for z
      using that 3(4,5) yx t[of y x z] by auto
    ultimately show ?thesis using False by (auto simp: set_merge_runs)
  qed
qed auto

lemma qsort_sorted: "orders cmp (set b) \<Longrightarrow> sorted_by cmp (qsort cmp b)"
proof (induction cmp b rule: qsort.induct)
  case (1 cmp b)
  show ?case
  proof (cases "length b \<le> 1")
    case True
    then show ?thesis by (cases b) (auto simp: qsort.simps)
  next
    case False
    let ?n = "length b div 2"
    have sub: "set (take ?n b) \<union> set (drop ?n b) \<subseteq> set b"
      by (auto dest: in_set_takeD in_set_dropD)
    have "sorted_by cmp (merge_runs cmp (qsort cmp (take ?n b)) (qsort cmp (drop ?n b)))"
      using sub 1(3)
      by (intro merge_runs_sorted 1(1,2)[OF False refl])
        (auto simp: set_qsort elim: orders_subset)
    then show ?thesis using False by (simp add: qsort.simps[of cmp b] Let_def)
  qed
qed

section \<open>The contract\<close>

locale sorter =
  fixes srt :: "('a \<Rightarrow> 'a \<Rightarrow> int) \<Rightarrow> 'a list \<Rightarrow> 'a list"
  assumes srt_mset: "mset (srt cmp xs) = mset xs"
    and srt_sorted: "orders cmp (set xs) \<Longrightarrow> sorted_by cmp (srt cmp xs)"
begin

lemma srt_set: "set (srt cmp xs) = set xs"
  by (metis srt_mset set_mset_mset)

lemma srt_length: "length (srt cmp xs) = length xs"
  by (metis srt_mset size_mset)

text \<open>A comparison that agrees with an order on keys sorts by the keys.\<close>

lemma srt_by_key:
  fixes key :: "'a \<Rightarrow> nat"
  assumes agree: "\<And>a b. a \<in> set xs \<Longrightarrow> b \<in> set xs \<Longrightarrow> cmp a b \<le> 0 \<longleftrightarrow> key a \<le> key b"
  shows "sorted (map key (srt cmp xs))"
proof -
  have "orders cmp (set xs)" unfolding orders_def using agree by auto
  then have "sorted_by cmp (srt cmp xs)" by (rule srt_sorted)
  then have "sorted_wrt (\<lambda>a b. key a \<le> key b) (srt cmp xs)"
    by (rule sorted_wrt_mono_rel[rotated]) (simp add: agree srt_set)
  then show ?thesis by (simp add: sorted_map)
qed

end

interpretation qs: sorter qsort
  by unfold_locales (simp_all add: mset_qsort qsort_sorted)

end
