(* ===== verification/Route_Table.thy ===== *)
theory Route_Table
  imports C_Text Growable C_Sort
begin

text \<open>
  The routing table of \<open>PCom1/router.c\<close>: the buckets by prefix length, the parser of the
  table file, and the search for the best route, with the longest prefix match they are
  proved to compute. Addresses are kept as the code keeps them, in network byte order in a
  32-bit word of a little-endian machine.
\<close>

unbundle bit_operations_syntax

section \<open>Runs of ones\<close>

text \<open>The mask of \<open>p\<close> ones in host byte order, and how often it can be shifted before it is zero.\<close>

definition ones_run :: "nat \<Rightarrow> u32" where
  "ones_run p = push_bit (32 - p) (mask p)"

lemma ones_run_arith: "push_bit (32 - p) (2 ^ p - 1) = ones_run p"
  by (simp add: ones_run_def mask_eq_exp_minus_1)

lemma ones_run_0 [simp]: "ones_run 0 = 0"
  by (simp add: ones_run_def)

lemma ones_run_32: "ones_run 32 = - 1"
  by (simp add: ones_run_def mask_eq_exp_minus_1)

lemma ones_run_shifts: "p \<le> 32 \<Longrightarrow> (LEAST k. push_bit k (ones_run p) = 0) = p"
proof (rule Least_equality)
  assume p: "p \<le> 32"
  show "push_bit p (ones_run p) = 0"
    using p by (intro bit_word_eqI) (auto simp: bit_simps ones_run_def)
  fix k assume k: "push_bit k (ones_run p) = 0"
  show "p \<le> k"
  proof (rule ccontr)
    assume "\<not> p \<le> k"
    then have "bit (push_bit k (ones_run p)) (k + (32 - p))"
      using p by (auto simp: bit_simps ones_run_def)
    with k show False by simp
  qed
qed

section \<open>Data\<close>

record rtable_entry =
  prefix :: u32
  next_hop :: u32
  mask :: u32
  out_if :: int

record bucket =
  b_entries :: "rtable_entry slots"
  b_size :: nat
  b_capacity :: nat

type_synonym rtable = "bucket list"

definition init_bucket :: bucket where
  "init_bucket = \<lparr>b_entries = malloc_array 1, b_size = 0, b_capacity = 1\<rparr>"

definition init_rtable :: rtable where
  "init_rtable = replicate 33 init_bucket"

section \<open>Masks and prefix lengths\<close>

text \<open>
  \<open>while (ip > 0) { ip = ip << 1; prefix++; }\<close>: the loop ends when the set bits have been
  shifted out.
\<close>

lemma shift_out: "push_bit 32 (ip :: u32) = 0"
  by (rule bit_word_eqI) (simp add: bit_simps)

definition shifts :: "u32 \<Rightarrow> nat" where
  "shifts ip = (LEAST k. push_bit k ip = 0)"

lemma shifts_shift: "ip \<noteq> 0 \<Longrightarrow> shifts ip = Suc (shifts (push_bit 1 ip))"
proof -
  assume "ip \<noteq> 0"
  then have "shifts ip = Suc (LEAST k. push_bit (Suc k) ip = 0)"
    unfolding shifts_def using shift_out[of ip] by (intro Least_Suc[of _ 32]) simp_all
  then show ?thesis by (simp add: shifts_def push_bit_push_bit)
qed

function prefix_loop :: "u32 \<Rightarrow> nat \<Rightarrow> nat" where
  "prefix_loop ip n = (if ip > 0 then prefix_loop (push_bit 1 ip) (n + 1) else n)"
  by pat_completeness auto
termination
proof (relation "measure (\<lambda>(ip, n). shifts ip)")
  fix ip :: u32 and n :: nat
  assume "ip > 0"
  then show "((push_bit 1 ip, n + 1), ip, n) \<in> measure (\<lambda>(ip, n). shifts ip)"
    using shifts_shift[of ip] by (simp add: word_neq_0_conv)
qed simp

declare prefix_loop.simps [simp del]

definition get_prefix_length :: "u32 \<Rightarrow> nat" where
  "get_prefix_length ip_addr = prefix_loop (ntohl ip_addr) 0"

text \<open>
  \<open>((1 << prefix) - (prefix == 32 ? 2 : 1)) << (32 - prefix)\<close> on \<open>int\<close>. A shift by 32 is
  undefined in C; the compiled code runs on x86, whose shift instructions take the count
  modulo 32, which the special case for 32 relies on.
\<close>

definition shl32 :: "u32 \<Rightarrow> nat \<Rightarrow> u32" where
  "shl32 x n = push_bit (n mod 32) x"

definition get_subnet_mask :: "nat \<Rightarrow> u32" where
  "get_subnet_mask p =
     htonl (shl32 (shl32 1 p - (if p = 32 then 2 else 1)) (32 - p))"

lemma prefix_loop_shifts: "prefix_loop ip n = n + shifts ip"
proof (induction ip n rule: prefix_loop.induct)
  case (1 ip n)
  show ?case
  proof (cases "ip > 0")
    case True
    then have "shifts ip = Suc (shifts (push_bit 1 ip))"
      using shifts_shift[of ip] by (simp add: word_neq_0_conv)
    with 1 True show ?thesis by (simp add: prefix_loop.simps[of ip n])
  next
    case False
    then have "ip = 0" by (simp add: word_gt_0)
    then have "shifts ip = 0" unfolding shifts_def by simp
    with False show ?thesis by (simp add: prefix_loop.simps[of ip n])
  qed
qed

lemma get_prefix_length_le: "get_prefix_length m \<le> 32"
  unfolding get_prefix_length_def prefix_loop_shifts shifts_def
  using Least_le[of "\<lambda>k. push_bit k (ntohl m) = 0" 32] shift_out by simp

lemma subnet_mask_host: "p \<le> 32 \<Longrightarrow> get_subnet_mask p = htonl (ones_run p)"
proof -
  assume "p \<le> 32"
  then consider "p = 0" | "p = 32" | "0 < p" "p < 32" by linarith
  then show ?thesis
  proof cases
    case 3
    then have "(32 - p) mod 32 = 32 - p" by simp
    with 3 show ?thesis by (simp add: get_subnet_mask_def shl32_def ones_run_arith)
  qed (simp_all add: get_subnet_mask_def shl32_def ones_run_32)
qed

lemma get_prefix_length_mask: "p \<le> 32 \<Longrightarrow> get_prefix_length (get_subnet_mask p) = p"
  by (simp add: subnet_mask_host get_prefix_length_def prefix_loop_shifts shifts_def ones_run_shifts)

text \<open>The masks a routing table may use: a run of ones and a run of zeros.\<close>

definition contiguous :: "u32 \<Rightarrow> bool" where
  "contiguous m \<longleftrightarrow> m = get_subnet_mask (get_prefix_length m)"

lemma contiguous_iff: "contiguous m \<longleftrightarrow> (\<exists>p \<le> 32. m = get_subnet_mask p)"
  unfolding contiguous_def using get_prefix_length_le get_prefix_length_mask by metis


section \<open>Building the table\<close>

text \<open>The comparison function of the sort: the difference of the prefixes, as an \<open>int\<close>.\<close>

definition entry_compare :: "rtable_entry \<Rightarrow> rtable_entry \<Rightarrow> int" where
  "entry_compare a b = sint (prefix a - prefix b)"

definition add_to_bucket :: "rtable_entry \<Rightarrow> bucket \<Rightarrow> bucket res" where
  "add_to_bucket e b =
     bindE (grow_push e (b_entries b, b_size b, b_capacity b)) (\<lambda>(es, n, cap).
     Inr (b\<lparr>b_entries := es, b_size := n, b_capacity := cap\<rparr>))"

definition add_route :: "rtable_entry \<Rightarrow> rtable \<Rightarrow> rtable res" where
  "add_route e rt =
     (let idx = get_prefix_length (mask e)
      in if idx < length rt
         then bindE (add_to_bucket e (rt ! idx)) (\<lambda>b. Inr (rt[idx := b]))
         else Inl OutOfBounds)"

text \<open>The first \<open>size\<close> slots of a bucket, all of them written, go through \<open>qsort\<close>.\<close>

definition sort_bucket :: "bucket \<Rightarrow> bucket res" where
  "sort_bucket b =
     (if b_size b = 0 then Inr b
      else if length (b_entries b) < b_size b then Inl OutOfBounds
      else if None \<in> set (take (b_size b) (b_entries b)) then Inl UninitRead
      else let xs = qsort entry_compare (map the (take (b_size b) (b_entries b)))
           in Inr (b\<lparr>b_entries := map Some xs @ drop (b_size b) (b_entries b)\<rparr>))"

fun sort_buckets :: "rtable \<Rightarrow> rtable res" where
  "sort_buckets [] = Inr []"
| "sort_buckets (b # bs) =
     bindE (sort_bucket b) (\<lambda>b'. bindE (sort_buckets bs) (\<lambda>bs'. Inr (b' # bs')))"

subsection \<open>The table file\<close>

text \<open>
  The variables that \<open>fscanf\<close> fills live outside the loop: what a line does not provide
  keeps its value from the line before, or was never assigned.
\<close>

record row_vars =
  v_prefix :: "string option"
  v_next_hop :: "string option"
  v_mask :: "string option"
  v_interface :: "int option"

definition no_row :: row_vars where
  "no_row = \<lparr>v_prefix = None, v_next_hop = None, v_mask = None, v_interface = None\<rparr>"

text \<open>A word of more than 15 characters does not fit its array of 16.\<close>

definition fits :: "string \<Rightarrow> bool" where
  "fits t \<longleftrightarrow> length t < 16"

text \<open>
  \<open>fscanf (f, "%s %s %s %d\n", ...)\<close>: the variables, the rest of the file and whether its
  end was reached.
\<close>

definition fscanf_row :: "string \<Rightarrow> row_vars \<Rightarrow> (row_vars \<times> string \<times> bool) res" where
  "fscanf_row f v =
     (case scan_s f of
        (None, f1, eof) \<Rightarrow> Inr (v, f1, eof)
      | (Some p, f1, eof) \<Rightarrow>
          if \<not> fits p then Inl OutOfBounds
          else let v1 = v\<lparr>v_prefix := Some p\<rparr> in
     (case scan_s f1 of
        (None, f2, eof) \<Rightarrow> Inr (v1, f2, eof)
      | (Some nh, f2, eof) \<Rightarrow>
          if \<not> fits nh then Inl OutOfBounds
          else let v2 = v1\<lparr>v_next_hop := Some nh\<rparr> in
     (case scan_s f2 of
        (None, f3, eof) \<Rightarrow> Inr (v2, f3, eof)
      | (Some m, f3, eof) \<Rightarrow>
          if \<not> fits m then Inl OutOfBounds
          else let v3 = v2\<lparr>v_mask := Some m\<rparr> in
     (case scan_d f3 of
        (None, f4, eof) \<Rightarrow> Inr (v3, f4, eof)
      | (Some i, f4, eof) \<Rightarrow>
          let f5 = skip_space f4 in Inr (v3\<lparr>v_interface := Some i\<rparr>, f5, f5 = [])))))"

definition assigned :: "'a option \<Rightarrow> 'a res" where
  "assigned x = (case x of None \<Rightarrow> Inl UninitRead | Some y \<Rightarrow> Inr y)"

definition make_entry :: "row_vars \<Rightarrow> rtable_entry res" where
  "make_entry v =
     bindE (assigned (v_prefix v)) (\<lambda>p.
     bindE (assigned (v_next_hop v)) (\<lambda>nh.
     bindE (assigned (v_mask v)) (\<lambda>m.
     bindE (assigned (v_interface v)) (\<lambda>i.
     Inr \<lparr>prefix = inet_addr p, next_hop = inet_addr nh, mask = inet_addr m, out_if = i\<rparr>))))"

text \<open>The file gets shorter with every line, until its end has been read.\<close>

lemma scan_token_length: "scan_token s = (t, r) \<Longrightarrow> length s = length t + length r"
  by (induction s arbitrary: t) (auto split: if_splits prod.splits)

lemma skip_space_hd: "skip_space s = c # r \<Longrightarrow> \<not> isspace c"
  by (induction s) (auto split: if_splits)

lemma scan_s_None: "scan_s s = (None, r, eof) \<Longrightarrow> eof"
  by (auto simp: scan_s_def Let_def split: if_splits prod.splits)

lemma scan_s_Some_length: "scan_s s = (Some t, r, eof) \<Longrightarrow> length r < length s"
proof -
  assume a: "scan_s s = (Some t, r, eof)"
  then obtain c cs where c: "skip_space s = c # cs" and t: "scan_token (c # cs) = (t, r)"
    by (auto simp: scan_s_def Let_def neq_Nil_conv split: if_splits prod.splits)
  from c have "\<not> isspace c" by (rule skip_space_hd)
  with t have "t \<noteq> []" by (auto split: prod.splits)
  then have "length r < length (c # cs)" using scan_token_length[OF t] by simp
  then show ?thesis using skip_space_length[of s] c by simp
qed

lemma scan_d_length: "scan_d s = (x, r, eof) \<Longrightarrow> length r \<le> length s"
  using skip_space_length[of s] scan_digits_length[of 10 0]
  by (fastforce simp: scan_d_def Let_def split: if_splits prod.splits
      dest: scan_digits_length order_trans)


lemma skip_space_le: "length s \<le> n \<Longrightarrow> length (skip_space s) \<le> n"
  using skip_space_length[of s] by simp

lemma scan_s_length: "scan_s s = (x, r, e) \<Longrightarrow> length r \<le> length s"
  using scan_s_Some_length[of s _ r e] skip_space_length[of s]
  by (cases x) (auto simp: scan_s_def Let_def split: if_splits prod.splits)

lemma fscanf_row_length: "fscanf_row f v = Inr (v', f', False) \<Longrightarrow> length f' < length f"
proof -
  assume r: "fscanf_row f v = Inr (v', f', False)"
  obtain t f1 e1 where 1: "scan_s f = (Some t, f1, e1)"
    using r scan_s_None[of f] by (cases "scan_s f"; cases "fst (scan_s f)")
      (auto simp: fscanf_row_def split: prod.splits)
  have l1: "length f1 < length f" by (rule scan_s_Some_length[OF 1])
  have "length f' \<le> length f1"
    using r 1
    by (auto simp: fscanf_row_def Let_def split: option.splits prod.splits if_splits
        dest!: scan_s_length scan_d_length intro!: skip_space_le)
  with l1 show ?thesis by simp
qed

function parse_loop :: "string \<Rightarrow> row_vars \<Rightarrow> rtable \<Rightarrow> rtable res" where
  "parse_loop f v rt =
     bindE (fscanf_row f v) (\<lambda>(v', f', eof).
     bindE (make_entry v') (\<lambda>e.
     bindE (add_route e rt) (\<lambda>rt'.
     if eof then Inr rt' else parse_loop f' v' rt')))"
  by pat_completeness auto
termination
  by (relation "measure (\<lambda>(f, v, rt). length f)") (auto dest: fscanf_row_length)

declare parse_loop.simps [simp del]

definition parse_rtable :: "string \<Rightarrow> rtable res" where
  "parse_rtable f = bindE (parse_loop f no_row init_rtable) sort_buckets"

section \<open>The best route\<close>

text \<open>The binary search in one bucket; \<open>left\<close>, \<open>right\<close> and \<open>mid\<close> are \<open>int\<close>s.\<close>

function search_bucket ::
  "bucket \<Rightarrow> u32 \<Rightarrow> int \<Rightarrow> int \<Rightarrow> rtable_entry option res" where
  "search_bucket b to_match left right =
     (if left \<le> right
      then let mid = (left + right) div 2
           in if mid < 0 then Inl OutOfBounds
              else bindE (array_load (nat mid) (b_entries b)) (\<lambda>e.
                if to_match = prefix e then Inr (Some e)
                else if to_match < prefix e then search_bucket b to_match left (mid - 1)
                else search_bucket b to_match (mid + 1) right)
      else Inr None)"
  by pat_completeness auto
termination
  by (relation "measure (\<lambda>(b, t, left, right). nat (right - left + 1))") auto

declare search_bucket.simps [simp del]

text \<open>The loop over the buckets \<open>i - 1, ..., 0\<close>.\<close>

fun route_loop :: "rtable \<Rightarrow> u32 \<Rightarrow> nat \<Rightarrow> rtable_entry option res" where
  "route_loop rt dest_ip 0 = Inr None"
| "route_loop rt dest_ip (Suc i) =
     (if i < length rt
      then let b = rt ! i; s_mask = get_subnet_mask i
           in if b_size b \<noteq> 0
              then bindE (search_bucket b (dest_ip AND s_mask) 0 (int (b_size b) - 1))
                (\<lambda>r. case r of Some e \<Rightarrow> Inr (Some e) | None \<Rightarrow> route_loop rt dest_ip i)
              else route_loop rt dest_ip i
      else Inl OutOfBounds)"

definition get_best_route :: "rtable \<Rightarrow> u32 \<Rightarrow> rtable_entry option res" where
  "get_best_route rt dest_ip = route_loop rt dest_ip 33"

section \<open>What the table represents\<close>

text \<open>The rows of a table file, in order, without the table.\<close>

function rows_loop :: "string \<Rightarrow> row_vars \<Rightarrow> rtable_entry list res" where
  "rows_loop f v =
     bindE (fscanf_row f v) (\<lambda>(v', f', eof).
     bindE (make_entry v') (\<lambda>e.
     if eof then Inr [e] else bindE (rows_loop f' v') (\<lambda>es. Inr (e # es))))"
  by pat_completeness auto
termination
  by (relation "measure (\<lambda>(f, v). length f)") (auto dest: fscanf_row_length)

declare rows_loop.simps [simp del]

definition rtable_rows :: "string \<Rightarrow> rtable_entry list res" where
  "rtable_rows f = rows_loop f no_row"

abbreviation prefix_len :: "rtable_entry \<Rightarrow> nat" where
  "prefix_len e \<equiv> get_prefix_length (mask e)"

definition bucket_repr :: "bucket \<Rightarrow> rtable_entry list \<Rightarrow> bool" where
  "bucket_repr b xs \<longleftrightarrow> array_repr (b_entries b) (b_size b) (b_capacity b) xs"

interpretation bk: growable init_bucket add_to_bucket bucket_repr
proof
  show "bucket_repr init_bucket []"
    using array_repr_init by (simp add: bucket_repr_def init_bucket_def)
  fix s xs x
  assume "bucket_repr s xs"
  then show "\<exists>s'. add_to_bucket x s = Inr s' \<and> bucket_repr s' (xs @ [x])"
    unfolding bucket_repr_def add_to_bucket_def
    using grow_push_repr[of "b_entries s" "b_size s" "b_capacity s" xs x]
    by (auto simp: bucket_repr_def array_repr_def)
qed

text \<open>Bucket \<open>i\<close> holds the rows of prefix length \<open>i\<close>, in the order of the file.\<close>

definition rtable_repr :: "rtable \<Rightarrow> rtable_entry list \<Rightarrow> bool" where
  "rtable_repr rt es \<longleftrightarrow>
     length rt = 33 \<and> (\<forall>i < 33. bucket_repr (rt ! i) (filter (\<lambda>e. prefix_len e = i) es))"

interpretation tb: growable init_rtable add_route rtable_repr
proof
  show "rtable_repr init_rtable []"
    by (simp add: rtable_repr_def init_rtable_def bk.init_repr)
  fix s xs and x :: rtable_entry
  assume r: "rtable_repr s xs"
  let ?i = "get_prefix_length (mask x)"
  have i: "?i < 33" using get_prefix_length_le[of "mask x"] by simp
  with r obtain b where b: "add_to_bucket x (s ! ?i) = Inr b"
    "bucket_repr b (filter (\<lambda>e. prefix_len e = ?i) xs @ [x])"
    unfolding rtable_repr_def using bk.push_repr by blast
  have "rtable_repr (s[?i := b]) (xs @ [x])"
    using r i b by (auto simp: rtable_repr_def nth_list_update)
  with i b r show "\<exists>s'. add_route x s = Inr s' \<and> rtable_repr s' (xs @ [x])"
    by (auto simp: add_route_def rtable_repr_def)
qed


text \<open>The table as it is after the sort.\<close>

definition loaded :: "rtable \<Rightarrow> rtable_entry list \<Rightarrow> bool" where
  "loaded rt es \<longleftrightarrow>
     length rt = 33 \<and>
     (\<forall>i < 33. bucket_repr (rt ! i) (qsort entry_compare (filter (\<lambda>e. prefix_len e = i) es)))"

lemma sort_bucket_repr:
  assumes "bucket_repr b xs"
  shows "\<exists>b'. sort_bucket b = Inr b' \<and> bucket_repr b' (qsort entry_compare xs)"
proof (cases "b_size b = 0")
  case True
  with assms have "xs = []" by (simp add: bucket_repr_def array_repr_def)
  with True assms show ?thesis by (simp add: sort_bucket_def qsort.simps)
next
  case False
  from assms obtain junk where es: "b_entries b = map Some xs @ junk" "b_size b = length xs"
    "b_capacity b = length (b_entries b)" "b_size b < b_capacity b"
    by (auto simp: bucket_repr_def array_repr_def)
  let ?ys = "qsort entry_compare xs"
  have "map the (map Some xs) = xs" by (simp add: comp_def)
  with False es have "sort_bucket b = Inr (b\<lparr>b_entries := map Some ?ys @ junk\<rparr>)"
    by (auto simp: sort_bucket_def Let_def)
  moreover have "bucket_repr (b\<lparr>b_entries := map Some ?ys @ junk\<rparr>) ?ys"
    using es by (simp add: bucket_repr_def array_repr_def qs.srt_length)
  ultimately show ?thesis by blast
qed

lemma sort_buckets_repr:
  "length bs = length xss \<Longrightarrow> (\<And>i. i < length bs \<Longrightarrow> bucket_repr (bs ! i) (xss ! i)) \<Longrightarrow>
   \<exists>bs'. sort_buckets bs = Inr bs' \<and> length bs' = length bs \<and>
     (\<forall>i < length bs. bucket_repr (bs' ! i) (qsort entry_compare (xss ! i)))"
proof (induction bs arbitrary: xss)
  case (Cons b bs)
  then obtain xs xss' where xss: "xss = xs # xss'" by (cases xss) auto
  have "bucket_repr b xs" using Cons.prems(2)[of 0] xss by simp
  then obtain b' where b': "sort_bucket b = Inr b'" "bucket_repr b' (qsort entry_compare xs)"
    using sort_bucket_repr by blast
  have "\<And>i. i < length bs \<Longrightarrow> bucket_repr (bs ! i) (xss' ! i)"
    using Cons.prems(2)[of "Suc i" for i] xss by auto
  with Cons.IH[of xss'] Cons.prems(1) xss obtain bs' where
    "sort_buckets bs = Inr bs'" "length bs' = length bs"
    "\<forall>i < length bs. bucket_repr (bs' ! i) (qsort entry_compare (xss' ! i))" by auto
  with b' xss show ?case by (auto simp: nth_Cons split: nat.splits)
qed simp

lemma sort_buckets_loaded:
  assumes "rtable_repr rt es"
  shows "\<exists>rt'. sort_buckets rt = Inr rt' \<and> loaded rt' es"
  using assms sort_buckets_repr[of rt "map (\<lambda>i. filter (\<lambda>e. prefix_len e = i) es) [0..<33]"]
  by (auto simp: rtable_repr_def loaded_def)

lemma parse_loop_rows:
  "parse_loop f v rt = bindE (rows_loop f v) (\<lambda>es. tb.push_all es rt)" if "rtable_repr rt es0"
  using that
proof (induction f v rt arbitrary: es0 rule: parse_loop.induct)
  case (1 f v rt)
  show ?case
  proof (cases "fscanf_row f v")
    case (Inr row)
    obtain v' f' eof where row: "row = (v', f', eof)" by (cases row)
    show ?thesis
    proof (cases "make_entry v'")
      case e: (Inr e)
      obtain rt' where rt': "add_route e rt = Inr rt'" "rtable_repr rt' (es0 @ [e])"
        using tb.push_repr[OF 1(2)] by blast
      show ?thesis
      proof (cases eof)
        case True
        then show ?thesis using Inr row e rt'
          by (simp add: parse_loop.simps[of f v rt] rows_loop.simps[of f v])
      next
        case False
        then have "parse_loop f' v' rt' = bindE (rows_loop f' v') (\<lambda>es. tb.push_all es rt')"
          by (rule 1(1)[OF Inr row[symmetric] refl e rt'(1) _ rt'(2)])
        then show ?thesis using Inr row e rt' False
          by (simp add: parse_loop.simps[of f v rt] rows_loop.simps[of f v] bindE_assoc)
      qed
    qed (use Inr row in \<open>simp add: parse_loop.simps[of f v rt] rows_loop.simps[of f v]\<close>)
  qed (simp add: parse_loop.simps[of f v rt] rows_loop.simps[of f v])
qed

text \<open>The parser never fails once it has its rows, and it loads exactly them.\<close>

lemma parse_rtable_loaded:
  "rtable_rows f = Inr es \<Longrightarrow> \<exists>rt. parse_rtable f = Inr rt \<and> loaded rt es"
proof -
  assume es: "rtable_rows f = Inr es"
  obtain rt where rt: "tb.push_all es init_rtable = Inr rt" "rtable_repr rt es"
    using tb.push_all_repr[OF tb.init_repr] by force
  have "parse_rtable f = sort_buckets rt"
    using es rt by (simp add: parse_rtable_def rtable_rows_def parse_loop_rows[OF tb.init_repr])
  with sort_buckets_loaded[OF rt(2)] show ?thesis by simp
qed

lemma parse_rtable_rows: "parse_rtable f = Inr rt \<Longrightarrow> \<exists>es. rtable_rows f = Inr es \<and> loaded rt es"
  using parse_rtable_loaded[of f]
  by (cases "rtable_rows f")
    (auto simp: parse_rtable_def rtable_rows_def parse_loop_rows[OF tb.init_repr])


section \<open>The search\<close>

text \<open>Inside the bucket's bounds the search returns, and what it returns has the prefix.\<close>

lemma search_bucket_sound:
  "bucket_repr b xs \<Longrightarrow> 0 \<le> left \<Longrightarrow> right < int (length xs) \<Longrightarrow>
   \<exists>r. search_bucket b key left right = Inr r \<and>
       (\<forall>e. r = Some e \<longrightarrow> e \<in> set xs \<and> prefix e = key)"
proof (induction b key left right rule: search_bucket.induct)
  case (1 b key left right)
  show ?case
  proof (cases "left \<le> right")
    case True
    define mid where "mid = (left + right) div 2"
    have m: "0 \<le> mid" "left \<le> mid" "mid \<le> right" using True 1(4) by (auto simp: mid_def)
    then have i: "nat mid < length xs" using 1(5) by linarith
    let ?e = "xs ! nat mid"
    have ld: "array_load (nat mid) (b_entries b) = Inr ?e"
      using 1(3) i by (auto simp: bucket_repr_def array_repr_def array_load_def nth_append)
    consider "key = prefix ?e" | "key < prefix ?e" | "prefix ?e < key" by (rule linorder_cases)
    then show ?thesis
    proof cases
      case a: 1
      have "search_bucket b key left right = Inr (Some ?e)" using True m ld a
        by (subst search_bucket.simps) (simp add: mid_def[symmetric] Let_def)
      then show ?thesis using a i by simp
    next
      case a: 2
      have "\<exists>r. search_bucket b key left (mid - 1) = Inr r \<and>
          (\<forall>e. r = Some e \<longrightarrow> e \<in> set xs \<and> prefix e = key)"
        using 1(1)[OF True mid_def _ ld] a m 1(3-5) by auto
      moreover have "key \<noteq> prefix ?e" using a by auto
      ultimately show ?thesis using True m ld a
        by (simp add: search_bucket.simps[of b key left right] mid_def[symmetric] Let_def)
    next
      case a: 3
      then have "key \<noteq> prefix ?e" "\<not> key < prefix ?e" by auto
      moreover from this have "\<exists>r. search_bucket b key (mid + 1) right = Inr r \<and>
          (\<forall>e. r = Some e \<longrightarrow> e \<in> set xs \<and> prefix e = key)"
        using 1(2)[OF True mid_def _ ld] m 1(3-5) by auto
      ultimately show ?thesis using True m ld
        by (simp add: search_bucket.simps[of b key left right] mid_def[symmetric] Let_def)
    qed
  qed (simp add: search_bucket.simps[of b key left right])
qed

text \<open>In a bucket sorted by prefix it also finds the prefix if it is there.\<close>

lemma search_bucket_complete:
  "bucket_repr b xs \<Longrightarrow> 0 \<le> left \<Longrightarrow> right < int (length xs) \<Longrightarrow>
   sorted (map (\<lambda>e. unat (prefix e)) xs) \<Longrightarrow>
   (\<And>k. k < length xs \<Longrightarrow> int k < left \<Longrightarrow> prefix (xs ! k) < key) \<Longrightarrow>
   (\<And>k. k < length xs \<Longrightarrow> right < int k \<Longrightarrow> key < prefix (xs ! k)) \<Longrightarrow>
   search_bucket b key left right = Inr None \<Longrightarrow> e \<in> set xs \<Longrightarrow> prefix e \<noteq> key"
proof (induction b key left right rule: search_bucket.induct)
  case (1 b key left right)
  have srt: "prefix (xs ! i) \<le> prefix (xs ! j)" if "i \<le> j" "j < length xs" for i j
    using 1(6) that by (auto simp: sorted_iff_nth_mono word_le_nat_alt)
  show ?case
  proof (cases "left \<le> right")
    case True
    define mid where "mid = (left + right) div 2"
    have m: "0 \<le> mid" "left \<le> mid" "mid \<le> right" using True 1(4) by (auto simp: mid_def)
    then have i: "nat mid < length xs" using 1(5) by linarith
    let ?e = "xs ! nat mid"
    have ld: "array_load (nat mid) (b_entries b) = Inr ?e"
      using 1(3) i by (auto simp: bucket_repr_def array_repr_def array_load_def nth_append)
    have res: "key \<noteq> prefix ?e"
      "key < prefix ?e \<Longrightarrow> search_bucket b key left (mid - 1) = Inr None"
      "\<not> key < prefix ?e \<Longrightarrow> search_bucket b key (mid + 1) right = Inr None"
      using 1(9) True m ld
      by (auto simp: search_bucket.simps[of b key left right] mid_def[symmetric] Let_def
          split: if_splits)
    show ?thesis
    proof (cases "key < prefix ?e")
      case less: True
      have "key < prefix (xs ! k)" if "k < length xs" "mid - 1 < int k" for k
        using less_le_trans[OF less srt[of "nat mid" k]] that m by simp
      then show ?thesis
        using 1(1)[OF True mid_def _ ld] m res less 1(3-8,10) by auto
    next
      case ge: False
      then have gt: "prefix ?e < key" using res(1) by simp
      have "prefix (xs ! k) < key" if "k < length xs" "int k < mid + 1" for k
        using le_less_trans[OF srt[of k "nat mid"] gt] that m i by simp
      then show ?thesis
        using 1(2)[OF True mid_def _ ld] m res ge 1(3-8,10) by auto
    qed
  next
    case False
    from 1(10) obtain k where k: "k < length xs" "xs ! k = e" by (auto simp: in_set_conv_nth)
    have "int k < left \<or> right < int k" using False by linarith
    with 1(7,8) k show ?thesis by fastforce
  qed
qed

section \<open>Longest prefix match\<close>

text \<open>A row matches an address when the prefix is the masked address.\<close>

definition matches :: "rtable_entry \<Rightarrow> u32 \<Rightarrow> bool" where
  "matches e dest \<longleftrightarrow> dest AND mask e = prefix e"

definition longest_match :: "rtable_entry list \<Rightarrow> u32 \<Rightarrow> rtable_entry option \<Rightarrow> bool" where
  "longest_match es dest r \<longleftrightarrow>
     (case r of
        None \<Rightarrow> \<forall>e \<in> set es. \<not> matches e dest
      | Some e \<Rightarrow> e \<in> set es \<and> matches e dest \<and>
          (\<forall>e' \<in> set es. matches e' dest \<longrightarrow> prefix_len e' \<le> prefix_len e))"

text \<open>
  Two prefixes are compared correctly by \<open>entry_compare\<close> when they are less than \<open>2^31\<close>
  apart.
\<close>

definition near :: "rtable_entry \<Rightarrow> rtable_entry \<Rightarrow> bool" where
  "near a b \<longleftrightarrow> \<bar>int (unat (prefix a)) - int (unat (prefix b))\<bar> < 2 ^ 31"

definition comparable :: "rtable_entry list \<Rightarrow> bool" where
  "comparable es \<longleftrightarrow> (\<forall>a \<in> set es. \<forall>b \<in> set es. prefix_len a = prefix_len b \<longrightarrow> near a b)"

lemma entry_compare_near: "near a b \<Longrightarrow> entry_compare a b = int (unat (prefix a)) - int (unat (prefix b))"
proof -
  assume "near a b"
  then have n: "\<bar>uint (prefix a) - uint (prefix b)\<bar> < 2 ^ 31"
    by (simp add: near_def)
  have "sint (prefix a - prefix b) = sint (word_of_int (uint (prefix a) - uint (prefix b)) :: u32)"
    by simp
  also have "\<dots> = signed_take_bit 31 (uint (prefix a) - uint (prefix b))"
    by (subst sint_sbintrunc') simp
  also have "\<dots> = uint (prefix a) - uint (prefix b)"
    using n by (intro signed_take_bit_int_eq_self) linarith+
  finally show ?thesis by (simp add: entry_compare_def)
qed


lemma entry_compare_agrees:
  "near a b \<Longrightarrow> entry_compare a b \<le> 0 \<longleftrightarrow> unat (prefix a) \<le> unat (prefix b)"
  by (simp only: entry_compare_near le_iff_diff_le_0[symmetric] of_nat_le_iff)

lemma bucket_sorted:
  assumes "comparable es"
  shows "sorted (map (\<lambda>e. unat (prefix e)) (qsort entry_compare (filter (\<lambda>e. prefix_len e = i) es)))"
  using assms by (intro qs.srt_by_key entry_compare_agrees) (auto simp: comparable_def)

text \<open>One round of the loop over the buckets.\<close>

lemma search_loaded:
  assumes "loaded rt es" and "i < 33" and "b_size (rt ! i) \<noteq> 0"
  shows "\<exists>r. search_bucket (rt ! i) key 0 (int (b_size (rt ! i)) - 1) = Inr r \<and>
    (\<forall>e. r = Some e \<longrightarrow> e \<in> set es \<and> prefix_len e = i \<and> prefix e = key) \<and>
    (comparable es \<and> r = None \<longrightarrow> (\<forall>e \<in> set es. prefix_len e = i \<longrightarrow> prefix e \<noteq> key))"
proof -
  let ?xs = "qsort entry_compare (filter (\<lambda>e. prefix_len e = i) es)"
  have br: "bucket_repr (rt ! i) ?xs" using assms by (simp add: loaded_def)
  then have sz: "b_size (rt ! i) = length ?xs" by (simp add: bucket_repr_def array_repr_def)
  obtain r where r: "search_bucket (rt ! i) key 0 (int (length ?xs) - 1) = Inr r"
    "\<And>e. r = Some e \<Longrightarrow> e \<in> set ?xs \<and> prefix e = key"
    using search_bucket_sound[OF br, of 0 "int (length ?xs) - 1" key] by auto
  have "prefix e \<noteq> key" if "comparable es" "r = None" "e \<in> set es" "prefix_len e = i" for e
    using search_bucket_complete[OF br, of 0 "int (length ?xs) - 1" key e]
      bucket_sorted[OF that(1), of i] r(1) that by (auto simp: qs.srt_set)
  with r show ?thesis by (intro exI[of _ r]) (auto simp: sz qs.srt_set)
qed

lemma loaded_size_0:
  assumes "loaded rt es" and "i < 33" and "b_size (rt ! i) = 0"
  shows "\<forall>e \<in> set es. prefix_len e \<noteq> i"
proof -
  have "qsort entry_compare (filter (\<lambda>e. prefix_len e = i) es) = []"
    using assms by (auto simp: loaded_def bucket_repr_def array_repr_def)
  then have "filter (\<lambda>e. prefix_len e = i) es = []" by (metis qs.srt_length length_0_conv)
  then show ?thesis by (simp add: filter_empty_conv)
qed

lemma route_loop_result:
  assumes "loaded rt es"
  shows "n \<le> 33 \<Longrightarrow> \<exists>r. route_loop rt dest n = Inr r \<and>
    (case r of
       Some e \<Rightarrow> e \<in> set es \<and> prefix_len e < n \<and> prefix e = dest AND get_subnet_mask (prefix_len e) \<and>
         (comparable es \<longrightarrow> (\<forall>e' \<in> set es. prefix_len e' < n \<longrightarrow>
            prefix e' = dest AND get_subnet_mask (prefix_len e') \<longrightarrow> prefix_len e' \<le> prefix_len e))
     | None \<Rightarrow> comparable es \<longrightarrow> (\<forall>e' \<in> set es. prefix_len e' < n \<longrightarrow>
         prefix e' \<noteq> dest AND get_subnet_mask (prefix_len e')))"
proof (induction n)
  case (Suc n)
  then have n: "n < 33" "n < length rt" using assms by (auto simp: loaded_def)
  from Suc obtain r0 where r0: "route_loop rt dest n = Inr r0" by auto
  show ?case
  proof (cases "b_size (rt ! n) = 0")
    case True
    have "route_loop rt dest (Suc n) = route_loop rt dest n"
      using True n by (simp add: Let_def)
    with Suc loaded_size_0[OF assms n(1) True] show ?thesis
      by (auto simp: less_Suc_eq split: option.splits)
  next
    case False
    obtain r where r: "search_bucket (rt ! n) (dest AND get_subnet_mask n) 0 (int (b_size (rt ! n)) - 1) = Inr r"
      "\<forall>e. r = Some e \<longrightarrow> e \<in> set es \<and> prefix_len e = n \<and> prefix e = dest AND get_subnet_mask n"
      "comparable es \<and> r = None \<longrightarrow>
         (\<forall>e \<in> set es. prefix_len e = n \<longrightarrow> prefix e \<noteq> dest AND get_subnet_mask n)"
      using search_loaded[OF assms n(1) False] by blast
    show ?thesis
    proof (cases r)
      case (Some e)
      then have "route_loop rt dest (Suc n) = Inr (Some e)" using r(1) n False by (simp add: Let_def)
      with r(2) Some show ?thesis by auto
    next
      case None
      then have "route_loop rt dest (Suc n) = route_loop rt dest n"
        using r(1) n False by (simp add: Let_def)
      with Suc None r(3) show ?thesis by (auto simp: less_Suc_eq split: option.splits)
    qed
  qed
qed simp


lemma matches_contiguous:
  "contiguous (mask e) \<Longrightarrow> matches e dest \<longleftrightarrow> prefix e = dest AND get_subnet_mask (prefix_len e)"
  unfolding matches_def contiguous_def by (metis (no_types))

lemma get_best_route_result:
  assumes "loaded rt es"
  shows "\<exists>r. get_best_route rt dest = Inr r \<and>
    (\<forall>e. r = Some e \<longrightarrow> e \<in> set es \<and> prefix e = dest AND get_subnet_mask (prefix_len e)) \<and>
    (comparable es \<longrightarrow> (\<forall>e \<in> set es. contiguous (mask e)) \<longrightarrow> longest_match es dest r)"
proof -
  obtain r where r: "get_best_route rt dest = Inr r"
    "case r of
       Some e \<Rightarrow> e \<in> set es \<and> prefix_len e < 33 \<and> prefix e = dest AND get_subnet_mask (prefix_len e) \<and>
         (comparable es \<longrightarrow> (\<forall>e' \<in> set es. prefix_len e' < 33 \<longrightarrow>
            prefix e' = dest AND get_subnet_mask (prefix_len e') \<longrightarrow> prefix_len e' \<le> prefix_len e))
     | None \<Rightarrow> comparable es \<longrightarrow> (\<forall>e' \<in> set es. prefix_len e' < 33 \<longrightarrow>
         prefix e' \<noteq> dest AND get_subnet_mask (prefix_len e'))"
    using route_loop_result[OF assms, of 33 dest] unfolding get_best_route_def by blast
  have lt: "prefix_len e < 33" for e using get_prefix_length_le[of "mask e"] by simp
  have "longest_match es dest r" if "comparable es" "\<forall>e \<in> set es. contiguous (mask e)"
    using r(2) lt that
    by (auto simp: longest_match_def matches_contiguous split: option.splits)
  with r show ?thesis by (auto split: option.splits)
qed

section \<open>Table files as they are written\<close>

text \<open>One row of a table file, as the example tables have it: four fields, one space apart.\<close>

definition row_text :: "rtable_entry \<Rightarrow> string" where
  "row_text e =
     inet_ntoa (prefix e) @ CHR '' '' # inet_ntoa (next_hop e) @ CHR '' '' #
     inet_ntoa (mask e) @ CHR '' '' # int_text (out_if e) @ [CHR 0x0A]"

lemma nat_text_length: "n < 1000 \<Longrightarrow> length (nat_text n) \<le> 3"
  by (simp add: nat_text.simps[of n] nat_text.simps[of "n div 10"]
      nat_text.simps[of "n div 10 div 10"])

lemma inet_ntoa_fits: "fits (inet_ntoa w)"
proof -
  have "length (nat_text (unat b)) \<le> 3" for b :: u8
    using nat_text_length[of "unat b"] unat_u8_less[of b] by simp
  from this[of "bytes32 w ! 0"] this[of "bytes32 w ! 1"] this[of "bytes32 w ! 2"]
    this[of "bytes32 w ! 3"]
  show ?thesis by (simp add: fits_def inet_ntoa_def Let_def)
qed

lemma nat_text_not_space: "c \<in> set (nat_text n) \<Longrightarrow> \<not> isspace c"
  using nat_text_digits[of c n] digit_char_all by auto

lemma inet_ntoa_not_space: "c \<in> set (inet_ntoa w) \<Longrightarrow> \<not> isspace c"
  by (auto simp: inet_ntoa_def Let_def nat_text_not_space isspace_def[of "CHR ''.''"])

lemma skip_space_id: "t \<noteq> [] \<Longrightarrow> \<not> isspace (hd t) \<Longrightarrow> skip_space (t @ r) = t @ r"
  by (cases t) auto

lemma scan_token_word:
  "(\<And>c. c \<in> set t \<Longrightarrow> \<not> isspace c) \<Longrightarrow> isspace s \<Longrightarrow> scan_token (t @ s # r) = (t, s # r)"
  by (induction t) auto

lemma scan_s_word:
  assumes "t \<noteq> []" and "\<And>c. c \<in> set t \<Longrightarrow> \<not> isspace c" and "isspace s"
  shows "scan_s (t @ s # r) = (Some t, s # r, False)"
    and "scan_s (CHR '' '' # t @ s # r) = (Some t, s # r, False)"
proof -
  have "skip_space (t @ s # r) = t @ s # r" using assms by (intro skip_space_id) auto
  with assms show "scan_s (t @ s # r) = (Some t, s # r, False)"
    "scan_s (CHR '' '' # t @ s # r) = (Some t, s # r, False)"
    by (simp_all add: scan_s_def scan_token_word isspace_def[of "CHR '' ''"])
qed

lemma nat_text_plain: "c \<in> set (nat_text n) \<Longrightarrow> \<not> isspace c \<and> c \<noteq> CHR ''-'' \<and> c \<noteq> CHR ''+''"
proof -
  assume "c \<in> set (nat_text n)"
  then obtain d where "d < 10" "c = digit_char d" using nat_text_digits by blast
  with digit_char_all[of d] show ?thesis by simp
qed

lemma nat_text_hd_plain: "\<not> isspace (hd (nat_text n @ r)) \<and> hd (nat_text n @ r) \<noteq> CHR ''-'' \<and>
  hd (nat_text n @ r) \<noteq> CHR ''+''"
  using nat_text_plain[of "hd (nat_text n)" n] by (simp add: hd_in_set)

lemma int_text_hd: "hd (int_text i @ r) \<noteq> CHR ''+''" "\<not> isspace (hd (int_text i @ r))"
  "int_text i \<noteq> []"
proof -
  show "hd (int_text i @ r) \<noteq> CHR ''+''" "\<not> isspace (hd (int_text i @ r))" "int_text i \<noteq> []"
    using nat_text_hd_plain[of _ r]
    by (simp_all add: int_text_def isspace_def[of "CHR ''-''"])
qed

definition fits_int :: "int \<Rightarrow> bool" where
  "fits_int i \<longleftrightarrow> - (2 ^ 31) \<le> i \<and> i < 2 ^ 31"

lemma to_int32_id: "fits_int i \<Longrightarrow> to_int32 i = i"
  by (simp add: fits_int_def to_int32_def signed_take_bit_int_eq_self)

lemma scan_d_int_text:
  assumes "fits_int i" and "isspace s"
  shows "scan_d (CHR '' '' # int_text i @ s # r) = (Some i, s # r, False)"
proof -
  have s: "\<not> isdigit s" using assms(2)
    by (auto simp: isspace_def is_digit_of_def digit_val_def less_eq_char_def)
  have sk: "skip_space (CHR '' '' # int_text i @ s # r) = int_text i @ s # r"
    using int_text_hd by (simp add: isspace_def[of "CHR '' ''"] skip_space_id)
  note nm = nat_text_hd_plain[of _ "s # r"]
  show ?thesis
  proof (cases "i < 0")
    case True
    then have "int_text i = CHR ''-'' # nat_text (nat (- i))" by (simp add: int_text_def)
    then show ?thesis
      using sk s True scan_nat_text_rest[of "s # r" "nat (- i)"] to_int32_id[OF assms(1)]
      by (simp add: scan_d_def hd_nat_text_isdigit)
  next
    case False
    then have "int_text i = nat_text (nat i)" by (simp add: int_text_def)
    then show ?thesis
      using sk s False scan_nat_text_rest[of "s # r" "nat i"] to_int32_id[OF assms(1)] nm
      by (simp add: scan_d_def hd_nat_text_isdigit)
  qed
qed

lemma inet_ntoa_nonempty: "inet_ntoa w \<noteq> []"
  by (simp add: inet_ntoa_def Let_def)

definition row_of :: "rtable_entry \<Rightarrow> row_vars" where
  "row_of e = \<lparr>v_prefix = Some (inet_ntoa (prefix e)), v_next_hop = Some (inet_ntoa (next_hop e)),
     v_mask = Some (inet_ntoa (mask e)), v_interface = Some (out_if e)\<rparr>"

lemma fscanf_row_text:
  assumes "fits_int (out_if e)" and "r = [] \<or> \<not> isspace (hd r)"
  shows "fscanf_row (row_text e @ r) v = Inr (row_of e, r, r = [])"
proof -
  have sp: "isspace CHR '' ''" "isspace (CHR 0x0A)" by (simp_all add: isspace_def)
  note w = scan_s_word[OF inet_ntoa_nonempty inet_ntoa_not_space sp(1)]
  have "skip_space r = r" using assms(2) by (cases r) auto
  with assms(1) show ?thesis
    by (simp add: fscanf_row_def row_text_def w inet_ntoa_fits scan_d_int_text sp row_of_def Let_def)
qed

lemma make_entry_row: "make_entry (row_of e) = Inr (e :: rtable_entry)"
  by (simp add: make_entry_def row_of_def assigned_def inet_addr_ntoa)

lemma row_text_hd: "\<not> isspace (hd (row_text e @ r))" "row_text e \<noteq> []"
  using inet_ntoa_not_space[of "hd (inet_ntoa (prefix e))" "prefix e"] inet_ntoa_nonempty
  by (simp_all add: row_text_def)

lemma rows_loop_text:
  "es \<noteq> [] \<Longrightarrow> \<forall>e \<in> set es. fits_int (out_if e) \<Longrightarrow>
   rows_loop (concat (map row_text es)) v = Inr es"
proof (induction es arbitrary: v)
  case (Cons e es)
  have hd: "concat (map row_text es) = [] \<or> \<not> isspace (hd (concat (map row_text es)))"
    using row_text_hd by (cases es) simp_all
  have f: "fscanf_row (concat (map row_text (e # es))) v
      = Inr (row_of e, concat (map row_text es), es = [])"
    using fscanf_row_text[OF _ hd, of e v] Cons.prems row_text_hd(2) by auto
  show ?case
    using Cons f by (subst rows_loop.simps) (auto simp: make_entry_row)
qed simp

text \<open>A routing table of networks, no longer than /24, in canonical form.\<close>

definition network_row :: "rtable_entry \<Rightarrow> bool" where
  "network_row e \<longleftrightarrow> contiguous (mask e) \<and> prefix_len e \<le> 24 \<and> prefix e AND mask e = prefix e"

lemma ones_run_low_byte: "p \<le> 24 \<Longrightarrow> (word_of_nat (unat (ones_run p)) :: u8) = 0"
proof -
  assume "p \<le> 24"
  then have "ucast (ones_run p) = (0 :: u8)"
    by (intro bit_word_eqI) (auto simp: bit_simps ones_run_def)
  then show ?thesis by simp
qed

lemma le32_low_three: "unat (le32 a b c 0) < 16777216"
proof -
  have "unat (le32 a b c 0) = unat a + 256 * unat b + 65536 * unat c"
    by (simp add: unat_le32)
  also have "\<dots> < 16777216"
    using unat_u8_less[of a] unat_u8_less[of b] unat_u8_less[of c] by linarith
  finally show ?thesis .
qed

lemma short_mask_small:
  assumes "p \<le> 24"
  shows "unat (get_subnet_mask p) < 16777216"
proof -
  have "get_subnet_mask p = htonl (ones_run p)" using assms by (intro subnet_mask_host) simp
  then show ?thesis
    using ones_run_low_byte[OF assms] le32_low_three by (simp add: ntohl_def bytes32_def)
qed

lemma network_prefix_small: "network_row e \<Longrightarrow> unat (prefix e) < 16777216"
proof -
  assume n: "network_row e"
  then have "prefix e \<le> mask e" unfolding network_row_def by (metis word_and_le1)
  also have "unat (mask e) < 16777216"
    using n short_mask_small[of "prefix_len e"] unfolding network_row_def contiguous_def by simp
  ultimately show ?thesis by (simp add: word_le_nat_alt)
qed

lemma network_rows_comparable: "\<forall>e \<in> set es. network_row e \<Longrightarrow> comparable es"
proof -
  assume n: "\<forall>e \<in> set es. network_row e"
  have "near a b" if "a \<in> set es" "b \<in> set es" for a b
    using network_prefix_small[OF bspec[OF n that(1)]] network_prefix_small[OF bspec[OF n that(2)]]
    by (simp add: near_def abs_less_iff uint_nat del: of_nat_unat)
  then show ?thesis by (simp add: comparable_def)
qed


text \<open>Prefixes farther apart than the range of \<open>int\<close> compare the wrong way round.\<close>

lemma entry_compare_far:
  assumes "unat (prefix a) + 2147483648 < unat (prefix b)"
  shows "entry_compare a b > 0" and "entry_compare b a \<le> 0"
proof -
  define d where "d = uint (prefix b) - uint (prefix a)"
  have d: "2147483648 < d" "d < 4294967296"
    using assms unat_u32_less[of "prefix b"] unfolding d_def uint_nat by linarith+
  have w: "sint (word_of_int x :: u32) = signed_take_bit 31 x" for x
    by (subst sint_sbintrunc') simp
  have s: "signed_take_bit 31 x = signed_take_bit 31 (y :: int)" if "x mod 2 ^ 32 = y mod 2 ^ 32" for x y
    using that by (simp add: signed_take_bit_eq_iff_take_bit_eq take_bit_eq_mod)
  have "prefix a - prefix b = word_of_int (- d)" "prefix b - prefix a = word_of_int d"
    by (simp_all add: d_def)
  then have "entry_compare a b = signed_take_bit 31 (- d)" "entry_compare b a = signed_take_bit 31 d"
    by (simp_all only: entry_compare_def w)
  moreover have "signed_take_bit 31 (- d) = signed_take_bit 31 (2 ^ 32 - d)"
    "signed_take_bit 31 d = signed_take_bit 31 (d - 2 ^ 32)"
    by (rule s; simp add: mod_diff_left_eq[symmetric])+
  ultimately have "entry_compare a b = 2 ^ 32 - d" "entry_compare b a = d - 2 ^ 32"
    using d by (simp_all add: signed_take_bit_int_eq_self)
  with d show "entry_compare a b > 0" "entry_compare b a \<le> 0" by simp_all
qed

lemma qsort_far:
  assumes "unat (prefix a) + 2147483648 < unat (prefix b)" and "es = [a, b] \<or> es = [b, a]"
  shows "qsort entry_compare es = [b, a]"
  using assms(2) entry_compare_far[OF assms(1)] by (auto simp: qsort.simps)


lemma host_mask: "get_subnet_mask 32 = - 1" "get_prefix_length (- 1) = 32"
proof -
  have "le32 255 255 255 255 = (- 1)" by (simp add: le32_def)
  then have "ntohl (- 1) = - 1" by (metis ntohl_le32)
  then show "get_subnet_mask 32 = - 1" by (simp add: subnet_mask_host ones_run_32)
  then show "get_prefix_length (- 1) = 32" using get_prefix_length_mask[of 32] by simp
qed

lemma route_loop_empty:
  "n \<le> length rt \<Longrightarrow> (\<And>i. i < n \<Longrightarrow> b_size (rt ! i) = 0) \<Longrightarrow> route_loop rt dest n = Inr None"
  by (induction n) (simp_all add: Let_def)

lemma far_host_lost:
  assumes ld: "loaded rt es" and es: "es = [a, b] \<or> es = [b, a]"
    and m: "mask a = - 1" "mask b = - 1"
    and far: "unat (prefix a) + 2147483648 < unat (prefix b)"
  shows "get_best_route rt (prefix a) = Inr None"
proof -
  have p: "prefix_len a = 32" "prefix_len b = 32" using m by (simp_all add: host_mask)
  have len: "length rt = 33" using ld by (simp add: loaded_def)
  have br: "bucket_repr (rt ! i) (qsort entry_compare (filter (\<lambda>e. prefix_len e = i) es))" if "i < 33" for i
    using ld that by (simp add: loaded_def)
  have "b_size (rt ! i) = 0" if "i < 32" for i
    using br[of i] that es p by (auto simp: bucket_repr_def array_repr_def qsort.simps)
  then have rest: "route_loop rt dest 32 = Inr None" for dest
    using len by (intro route_loop_empty) auto
  have "filter (\<lambda>e. prefix_len e = 32) es = es" using es p by auto
  then have b32: "bucket_repr (rt ! 32) [b, a]" using br[of 32] qsort_far[OF far es] by simp
  then have sz: "b_size (rt ! 32) = 2" "array_load 0 (b_entries (rt ! 32)) = Inr b"
    by (auto simp: bucket_repr_def array_repr_def array_load_def)
  have lt: "prefix a < prefix b" using far by (simp add: word_less_nat_alt)
  then have "search_bucket (rt ! 32) (prefix a) 0 1 = Inr None"
    using sz by (subst search_bucket.simps) (auto simp: search_bucket.simps[of _ _ 0 "- 1"])
  then have "route_loop rt (prefix a) (Suc 32) = Inr None"
    unfolding route_loop.simps(2) using sz len rest by (simp add: host_mask Let_def)
  then show ?thesis by (simp add: get_best_route_def)
qed

section \<open>Properties\<close>

text \<open>
  C6: a table read from a file finds, for every destination, the longest prefix match of the
  file's rows, provided the masks are contiguous and prefixes of one length are less than
  \<open>2^31\<close> apart.
\<close>

theorem best_route_longest_prefix:
  assumes "rtable_rows f = Inr es"
    and "\<forall>e \<in> set es. contiguous (mask e)"
    and "comparable es"
  shows "\<exists>rt r. parse_rtable f = Inr rt \<and> get_best_route rt dest = Inr r \<and> longest_match es dest r"
proof -
  obtain rt where "parse_rtable f = Inr rt" "loaded rt es"
    using parse_rtable_loaded[OF assms(1)] by blast
  with get_best_route_result[of rt es dest] assms(2,3) show ?thesis by blast
qed

text \<open>
  C36: whatever the masks and prefixes are, the search of a loaded table never leaves its
  arrays, and a route it returns is a row of the file whose prefix is the destination masked
  to the row's length.
\<close>

theorem best_route_sound:
  assumes "rtable_rows f = Inr es"
  shows "\<exists>rt r. parse_rtable f = Inr rt \<and> get_best_route rt dest = Inr r \<and>
    (\<forall>e. r = Some e \<longrightarrow> e \<in> set es \<and> prefix e = dest AND get_subnet_mask (prefix_len e))"
proof -
  obtain rt where "parse_rtable f = Inr rt" "loaded rt es"
    using parse_rtable_loaded[OF assms(1)] by blast
  with get_best_route_result[of rt es dest] show ?thesis by blast
qed

text \<open>
  The parser fails only where reading a row fails (a word too long for its array, or a
  variable no line has assigned): the growing buckets and the sort never do.
\<close>

theorem parse_rtable_faults: "parse_rtable f = Inl err \<longleftrightarrow> rtable_rows f = Inl err"
proof (cases "rtable_rows f")
  case (Inl e)
  then show ?thesis
    by (simp add: parse_rtable_def rtable_rows_def parse_loop_rows[OF tb.init_repr])
next
  case (Inr es)
  then show ?thesis using parse_rtable_loaded[OF Inr] by auto
qed


section \<open>Properties of concrete and of canonical tables\<close>

text \<open>
  Writing rows to a table file and reading them back gives the same rows in the same
  order: dotted quads, widths and the end-of-file test of the parser's loop agree.
\<close>

theorem rtable_rows_text:
  assumes "es \<noteq> []" and "\<forall>e \<in> set es. fits_int (out_if e)"
  shows "rtable_rows (concat (map row_text es)) = Inr es"
  using rows_loop_text[OF assms] by (simp add: rtable_rows_def)

definition example_rows :: "rtable_entry list" where
  "example_rows =
     [\<lparr>prefix = le32 10 0 0 0, next_hop = le32 192 168 0 2, mask = get_subnet_mask 8, out_if = 1\<rparr>,
      \<lparr>prefix = le32 10 1 0 0, next_hop = le32 192 168 1 2, mask = get_subnet_mask 16, out_if = 2\<rparr>]"

lemma example_rows_text: "rtable_rows (concat (map row_text example_rows)) = Inr example_rows"
  unfolding rtable_rows_def
  by (rule rows_loop_text) (simp_all add: example_rows_def fits_int_def)

lemma ntohl_masks: "ntohl 0xff000000 = 0xff" "ntohl 0xffff0000 = 0xffff"
proof -
  have "0xff000000 = le32 0 0 0 255" "0xffff0000 = le32 0 0 255 255"
    "le32 255 0 0 0 = 0xff" "le32 255 255 0 0 = 0xffff" by (simp_all add: le32_def)
  then show "ntohl 0xff000000 = 0xff" "ntohl 0xffff0000 = 0xffff" by (simp_all only: ntohl_le32)
qed

lemma subnet_masks: "get_subnet_mask 8 = 0xff" "get_subnet_mask 16 = 0xffff"
  by (simp_all add: get_subnet_mask_def shl32_def ntohl_masks)

lemma example_network: "\<forall>e \<in> set example_rows. network_row e \<and> contiguous (mask e)"
proof -
  have "le32 10 0 0 0 = 10" "le32 10 1 0 0 = 266" by (simp_all add: le32_def)
  then show ?thesis
    by (simp add: example_rows_def network_row_def contiguous_def get_prefix_length_mask)
      (simp add: subnet_masks)
qed

lemma rtable_rows_text_witness:
  "rtable_rows (concat (map row_text example_rows)) = Inr example_rows"
  by (rule rtable_rows_text) (simp_all add: example_rows_def fits_int_def)

lemma best_route_longest_prefix_witness:
  "\<exists>rt r. parse_rtable (concat (map row_text example_rows)) = Inr rt \<and>
     get_best_route rt (le32 10 1 2 3) = Inr r \<and> longest_match example_rows (le32 10 1 2 3) r"
proof (rule best_route_longest_prefix)
  show "rtable_rows (concat (map row_text example_rows)) = Inr example_rows"
    by (rule example_rows_text)
  show "\<forall>e \<in> set example_rows. contiguous (mask e)" using example_network by blast
  show "comparable example_rows" using example_network by (intro network_rows_comparable) blast
qed

lemma best_route_sound_witness:
  "\<exists>rt r. parse_rtable (concat (map row_text example_rows)) = Inr rt \<and>
     get_best_route rt (le32 10 1 2 3) = Inr r \<and>
     (\<forall>e. r = Some e \<longrightarrow> e \<in> set example_rows \<and>
        prefix e = le32 10 1 2 3 AND get_subnet_mask (prefix_len e))"
  by (rule best_route_sound[OF example_rows_text])

text \<open>
  C16: a table of networks with masks up to /24 (canonical prefixes, contiguous masks), written
  to a file and loaded, finds the longest prefix match of every destination: in the byte
  order the code keeps, such prefixes are small enough for its comparison function.
\<close>

theorem network_table_lpm:
  assumes "es \<noteq> []" and "\<forall>e \<in> set es. network_row e \<and> fits_int (out_if e)"
  shows "\<exists>rt r. parse_rtable (concat (map row_text es)) = Inr rt \<and>
    get_best_route rt dest = Inr r \<and> longest_match es dest r"
proof -
  have "rtable_rows (concat (map row_text es)) = Inr es"
    using assms rows_loop_text by (simp add: rtable_rows_def)
  moreover have "comparable es" using assms(2) by (intro network_rows_comparable) blast
  moreover have "\<forall>e \<in> set es. contiguous (mask e)" using assms(2) by (simp add: network_row_def)
  ultimately show ?thesis using parse_rtable_loaded get_best_route_result by blast
qed

lemma network_table_lpm_witness:
  "\<exists>rt r. parse_rtable (concat (map row_text example_rows)) = Inr rt \<and>
    get_best_route rt (le32 10 1 2 3) = Inr r \<and> longest_match example_rows (le32 10 1 2 3) r"
  by (rule network_table_lpm) (use example_network in \<open>simp_all add: example_rows_def fits_int_def\<close>)

text \<open>
  Host routes whose prefixes are more than \<open>2^31\<close> apart (their last octets differ by more
  than 128) are sorted against the order of the search: of two such routes the smaller one
  is never found, although its row matches.
\<close>

lemma far_host_route_lost:
  assumes "rtable_rows f = Inr [a, b]" and "mask a = - 1" and "mask b = - 1"
    and "unat (prefix a) + 2147483648 < unat (prefix b)"
  shows "matches a (prefix a) \<and>
    (\<exists>rt. parse_rtable f = Inr rt \<and> get_best_route rt (prefix a) = Inr None)"
proof -
  obtain rt where "parse_rtable f = Inr rt" "loaded rt [a, b]"
    using parse_rtable_loaded[OF assms(1)] by blast
  moreover from this(2) have "get_best_route rt (prefix a) = Inr None"
    by (rule far_host_lost[OF _ disjI1[OF refl] assms(2-4)])
  ultimately show ?thesis using assms(2) by (simp add: matches_def)
qed

definition example_hosts :: "rtable_entry list" where
  "example_hosts =
     [\<lparr>prefix = le32 10 0 0 1, next_hop = le32 192 168 0 2, mask = - 1, out_if = 1\<rparr>,
      \<lparr>prefix = le32 10 0 0 200, next_hop = le32 192 168 1 2, mask = - 1, out_if = 2\<rparr>]"

lemma far_host_route_lost_witness:
  "\<exists>rt. parse_rtable (concat (map row_text example_hosts)) = Inr rt \<and>
     get_best_route rt (le32 10 0 0 1) = Inr None"
proof -
  have "rtable_rows (concat (map row_text example_hosts)) = Inr example_hosts"
    unfolding rtable_rows_def by (rule rows_loop_text) (simp_all add: example_hosts_def fits_int_def)
  then show ?thesis
    using far_host_route_lost[of "concat (map row_text example_hosts)"
        "example_hosts ! 0" "example_hosts ! 1"]
    by (simp add: example_hosts_def unat_le32)
qed

text \<open>
  The mask computed for a prefix length has that prefix length again, for all lengths the
  table has buckets for, and every mask is given one of these buckets.
\<close>

lemma prefix_length_roundtrip:
  "(p \<le> 32 \<longrightarrow> get_prefix_length (get_subnet_mask p) = p) \<and> get_prefix_length m \<le> 32"
  by (simp add: get_prefix_length_mask get_prefix_length_le)

lemma prefix_length_roundtrip_witness:
  "get_prefix_length (get_subnet_mask 24) = 24 \<and> get_prefix_length 0xff \<le> 32"
  using prefix_length_roundtrip[of 24 "0xff"] by simp

end
