(* ===== verification/Arp_Table.thy ===== *)
theory Arp_Table
  imports Frames Growable
begin

text \<open>
  The ARP table of \<open>PCom1/router.c\<close>: a growing array of address pairs that is only ever
  appended to and searched from the front.
\<close>

section \<open>Data and operations\<close>

record arptable_entry =
  ip :: u32
  mac :: "u8 list"

record arptable =
  a_entries :: "arptable_entry slots"
  a_size :: nat
  a_capacity :: nat

definition init_arptable :: arptable where
  "init_arptable = \<lparr>a_entries = malloc_array 1, a_size = 0, a_capacity = 1\<rparr>"

definition add_to_arptable :: "arptable \<Rightarrow> u32 \<Rightarrow> u8 list \<Rightarrow> arptable res" where
  "add_to_arptable t i m =
     (let entry = \<lparr>ip = i, mac = m\<rparr>
      in bindE (grow_push entry (a_entries t, a_size t, a_capacity t)) (\<lambda>(es, n, cap).
         Inr (t\<lparr>a_entries := es, a_size := n, a_capacity := cap\<rparr>)))"

text \<open>The loop over the entries, \<open>k\<close> of them left.\<close>

fun mac_loop :: "arptable \<Rightarrow> u32 \<Rightarrow> nat \<Rightarrow> arptable_entry option res" where
  "mac_loop t i 0 = Inr None"
| "mac_loop t i (Suc k) =
     bindE (array_load (a_size t - Suc k) (a_entries t)) (\<lambda>e.
     if ip e = i then Inr (Some e) else mac_loop t i k)"

definition get_mac :: "arptable \<Rightarrow> u32 \<Rightarrow> arptable_entry option res" where
  "get_mac t i = mac_loop t i (a_size t)"

section \<open>What the table represents\<close>

definition arp_repr :: "arptable \<Rightarrow> arptable_entry list \<Rightarrow> bool" where
  "arp_repr t es \<longleftrightarrow> array_repr (a_entries t) (a_size t) (a_capacity t) es"

interpretation ar: growable init_arptable "\<lambda>e t. add_to_arptable t (ip e) (mac e)" arp_repr
proof
  show "arp_repr init_arptable []"
    using array_repr_init by (simp add: arp_repr_def init_arptable_def)
  fix s xs x
  assume "arp_repr s xs"
  then show "\<exists>s'. add_to_arptable s (ip x) (mac x) = Inr s' \<and> arp_repr s' (xs @ [x])"
    unfolding arp_repr_def add_to_arptable_def Let_def
    using grow_push_repr[of "a_entries s" "a_size s" "a_capacity s" xs x]
    by (cases x) (auto simp: arp_repr_def array_repr_def)
qed

lemma add_to_arptable_repr:
  assumes "arp_repr t es"
  shows "\<exists>t'. add_to_arptable t i m = Inr t' \<and> arp_repr t' (es @ [\<lparr>ip = i, mac = m\<rparr>])"
  using ar.push_repr[OF assms, of "\<lparr>ip = i, mac = m\<rparr>"] by simp

lemma mac_loop_find:
  assumes "arp_repr t es"
  shows "k \<le> length es \<Longrightarrow> mac_loop t i k = Inr (find (\<lambda>e. ip e = i) (drop (length es - k) es))"
proof (induction k)
  case (Suc k)
  have sz: "a_size t = length es" using assms by (simp add: arp_repr_def array_repr_def)
  have "array_load (length es - Suc k) (a_entries t) = Inr (es ! (length es - Suc k))"
    using assms sz Suc.prems unfolding arp_repr_def by (metis array_repr_load diff_less less_le_trans zero_less_Suc)
  moreover have "drop (length es - Suc k) es = es ! (length es - Suc k) # drop (length es - k) es"
    using Suc.prems by (metis Cons_nth_drop_Suc Suc_diff_le diff_Suc_Suc diff_less less_le_trans zero_less_Suc)
  ultimately show ?case using Suc sz by simp
qed simp

lemma get_mac_find: "arp_repr t es \<Longrightarrow> get_mac t i = Inr (find (\<lambda>e. ip e = i) es)"
  using mac_loop_find[of t es "length es" i]
  by (simp add: get_mac_def arp_repr_def array_repr_def)

lemma find_append: "find P (xs @ ys) = (case find P xs of None \<Rightarrow> find P ys | Some x \<Rightarrow> Some x)"
  by (induction xs) auto

section \<open>Properties\<close>

text \<open>
  The ARP table holds every address pair it was given, for any number of them, and a
  lookup answers with the first pair recorded for the address: a later reply with another
  MAC address never takes effect.
\<close>

lemma arp_first_reply_wins:
  "\<exists>t. ar.push_all es init_arptable = Inr t \<and>
     get_mac t i = Inr (find (\<lambda>e. ip e = i) es) \<and>
     (\<exists>t'. add_to_arptable t i m = Inr t' \<and>
        get_mac t' i = Inr (Some (case find (\<lambda>e. ip e = i) es of
          None \<Rightarrow> \<lparr>ip = i, mac = m\<rparr> | Some e \<Rightarrow> e)))"
proof -
  obtain t where t: "ar.push_all es init_arptable = Inr t" "arp_repr t es"
    using ar.push_all_repr[OF ar.init_repr, of es] by auto
  moreover obtain t' where "add_to_arptable t i m = Inr t'"
    "arp_repr t' (es @ [\<lparr>ip = i, mac = m\<rparr>])"
    using add_to_arptable_repr[OF t(2)] by blast
  ultimately show ?thesis by (auto simp: get_mac_find find_append split: option.splits)
qed

end
