(* ===== verification/Router.thy ===== *)
theory Router
  imports Pkt_Queue Frames Route_Table Arp_Table
begin

text \<open>
  The router of \<open>PCom1/router.c\<close>: its state (routing table, ARP table, packet queue, the heap
  of queued packets, the receive buffer), one definition per branch of the main loop, and the
  loop as a step relation over the frames that arrive.
\<close>

section \<open>State\<close>

text \<open>
  What the kernel answers for an interface (\<open>ioctl\<close>) is a parameter: its address and its
  MAC address.
\<close>

record net_env =
  if_addr :: "int \<Rightarrow> u32"
  if_hwaddr :: "int \<Rightarrow> u8 list"

record router =
  r_table :: rtable
  r_arp :: arptable
  r_queue :: "addr qstate"
  r_heap :: "packet heap"
  r_buf :: packet

definition get_interface_ip :: "net_env \<Rightarrow> int \<Rightarrow> string res" where
  "get_interface_ip env i =
     (if valid_interface i then Inr (inet_ntoa (if_addr env i)) else Inl OutOfBounds)"

definition get_interface_mac :: "net_env \<Rightarrow> int \<Rightarrow> u8 list res" where
  "get_interface_mac env i =
     (if valid_interface i then Inr (if_hwaddr env i) else Inl OutOfBounds)"

section \<open>Receiving\<close>

text \<open>
  \<open>read\<close> overwrites the start of the buffer with at most \<open>MAX_LEN\<close> bytes; what lies behind
  them is left over from earlier frames.
\<close>

definition socket_receive_message :: "u8 list \<Rightarrow> packet \<Rightarrow> packet" where
  "socket_receive_message data m =
     (let d = take MAX_LEN data in m\<lparr>len := length d, payload := put_at 0 d (payload m)\<rparr>)"

text \<open>
  One return of \<open>select\<close>: \<open>ready\<close> tells which interfaces have a frame waiting, and the first
  of them is read. With no such interface \<open>select\<close> is called again.
\<close>

definition get_packet :: "(int \<Rightarrow> u8 list option) \<Rightarrow> packet \<Rightarrow> packet option" where
  "get_packet ready m =
     (case find (\<lambda>i. ready i \<noteq> None) [0..ROUTER_NUM_INTERFACES - 1] of
        None \<Rightarrow> None
      | Some i \<Rightarrow> Some ((socket_receive_message (the (ready i)) m)\<lparr>interface := i\<rparr>))"

section \<open>ICMP echo and ARP requests\<close>

definition echo_for_router :: "net_env \<Rightarrow> packet \<Rightarrow> bool res" where
  "echo_for_router env m =
     (let b = payload m
      in if parse_icmp b \<noteq> None \<and> icmp_type_of b = ICMP_ECHO
         then bindE (get_interface_ip env (interface m)) (\<lambda>a. Inr (ip_daddr_of b = inet_addr a))
         else Inr False)"

definition reply_echo :: "packet \<Rightarrow> frame res" where
  "reply_echo m =
     (let b = payload m
      in send_icmp (ip_saddr_of b) (ip_daddr_of b) (eth_dhost_of b) (eth_shost_of b)
           ICMP_ECHOREPLY 0 (interface m) (uint (icmp_id_of b)) (uint (icmp_sequence_of b)))"

definition request_for_router :: "net_env \<Rightarrow> packet \<Rightarrow> bool res" where
  "request_for_router env m =
     (let b = payload m
      in if parse_arp b \<noteq> None \<and> arp_op_of b = htons ARPOP_REQUEST
         then bindE (get_interface_ip env (interface m)) (\<lambda>a. Inr (arp_tpa_of b = inet_addr a))
         else Inr False)"

definition reply_arp :: "net_env \<Rightarrow> packet \<Rightarrow> frame res" where
  "reply_arp env m =
     (let b = payload m
      in bindE (get_interface_mac env (interface m)) (\<lambda>hw.
         send_arp (arp_spa_of b) (arp_tpa_of b)
           (build_ethhdr hw (arp_sha_of b) (htons ETHERTYPE_ARP)) (interface m)
           (htons ARPOP_REPLY)))"

section \<open>ARP replies\<close>

text \<open>
  The loop that sends waiting packets. \<open>p0\<close> is the packet that \<open>p_eth_hdr\<close> and \<open>p_ip_hdr\<close>
  point into: it is set once, before the loop, and not moved on with \<open>p\<close>.
\<close>

function flush_loop ::
  "addr \<Rightarrow> rtable_entry \<Rightarrow> arptable_entry option \<Rightarrow> router \<Rightarrow> frame list \<Rightarrow> (router \<times> frame list) res"
where
  "flush_loop p0 best_route entry s out =
     (case entry of
        None \<Rightarrow> Inr (s, out)
      | Some e \<Rightarrow>
          bindE (queue_deq (r_queue s)) (\<lambda>(p, q).
          bindE (h_read (r_heap s) p0) (\<lambda>pk0.
          bindE (h_write p0 (pk0\<lparr>payload := put_at 0 (mac e) (payload pk0)\<rparr>) (r_heap s)) (\<lambda>h1.
          bindE (h_read h1 p) (\<lambda>pk.
          bindE (send_packet (out_if best_route) pk) (\<lambda>f.
          bindE (h_free p h1) (\<lambda>h2.
          let s' = s\<lparr>r_queue := q, r_heap := h2\<rparr>
          in if queue_empty (fst q) then Inr (s', out @ [f])
             else bindE (queue_top q) (\<lambda>_.
                  bindE (h_read h2 p0) (\<lambda>pk'.
                  bindE (get_best_route (r_table s) (ip_daddr_of (payload pk'))) (\<lambda>br.
                  bindE (deref br) (\<lambda>best_route'.
                  bindE (get_mac (r_arp s) (next_hop best_route')) (\<lambda>entry'.
                  flush_loop p0 best_route' entry' s' (out @ [f])))))))))))))"
  by pat_completeness auto
termination
  by (relation "measure (\<lambda>(p0, r, e, s, out). live (snd (r_queue s)))")
    (auto dest: queue_deq_live[of "fst (r_queue s)" "snd (r_queue s)" for s, simplified])

declare flush_loop.simps [simp del]

definition arp_reply :: "router \<Rightarrow> (router \<times> frame list) res" where
  "arp_reply s =
     (let b = payload (r_buf s)
      in bindE (add_to_arptable (r_arp s) (arp_spa_of b) (arp_sha_of b)) (\<lambda>t.
         let s1 = s\<lparr>r_arp := t\<rparr>
         in if queue_empty (fst (r_queue s1)) then Inr (s1, [])
            else bindE (queue_top (r_queue s1)) (\<lambda>p.
                 bindE (h_read (r_heap s1) p) (\<lambda>pk.
                 bindE (get_best_route (r_table s1) (ip_daddr_of (payload pk))) (\<lambda>br.
                 bindE (deref br) (\<lambda>best_route.
                 bindE (get_mac t (next_hop best_route)) (\<lambda>entry.
                 flush_loop p best_route entry s1 [])))))))"

section \<open>Forwarding\<close>

text \<open>\<open>ip_hdr->ttl--; ip_hdr->check = calculate_checksum (ip_hdr);\<close>\<close>

definition age :: "u8 list \<Rightarrow> u8 list" where
  "age b =
     (let b1 = put_at 22 [ip_ttl_of b - 1] b
      in put_at 24 (bytes16 (calculate_checksum (ip_check_of b1) (ip_ttl_of b1))) b1)"

definition send_error :: "u8 \<Rightarrow> packet \<Rightarrow> frame res" where
  "send_error type m =
     (let b = payload m
      in send_icmp_error (ip_saddr_of b) (ip_daddr_of b) (eth_dhost_of b) (eth_shost_of b)
           type 0 (interface m))"

text \<open>No MAC address for the next hop: the packet waits and an ARP request is broadcast.\<close>

definition enqueue_and_request :: "net_env \<Rightarrow> rtable_entry \<Rightarrow> router \<Rightarrow> (router \<times> frame list) res" where
  "enqueue_and_request env best_route s =
     (let (p, h) = h_alloc (r_buf s) (r_heap s)
      in bindE (queue_enq p (r_queue s)) (\<lambda>q.
         let dmac = snd (hwaddr_aton ''ff:ff:ff:ff:ff:ff'');
             intf = out_if best_route
         in bindE (get_interface_mac env intf) (\<lambda>smac.
            let eth = build_ethhdr smac dmac (htons ETHERTYPE_ARP)
            in bindE (get_interface_ip env intf) (\<lambda>a.
               bindE (send_arp (next_hop best_route) (inet_addr a) eth intf (htons ARPOP_REQUEST)) (\<lambda>f.
               Inr (s\<lparr>r_queue := q, r_heap := h\<rparr>, [f]))))))"

text \<open>
  The payload lies at an address that is 2 modulo 4 (a \<open>packet\<close> starts with an \<open>int\<close>, the
  Ethernet header has 14 bytes): 18 stands for it in \<open>ip_checksum\<close>.
\<close>

definition ip_packet :: "net_env \<Rightarrow> router \<Rightarrow> (router \<times> frame list) res" where
  "ip_packet env s =
     (let m = r_buf s; b = payload m
      in if ip_ttl_of b \<le> 1
         then bindE (send_error ICMP_TIME_EXCEEDED m) (\<lambda>f. Inr (s, [f]))
         else if ip_checksum 18 (bytes_at ETH_HLEN IP_HLEN b) \<noteq> 0 then Inr (s, [])
         else let m1 = m\<lparr>payload := age b\<rparr>; s1 = s\<lparr>r_buf := m1\<rparr>
              in bindE (get_best_route (r_table s) (ip_daddr_of (payload m1))) (\<lambda>br.
                 case br of
                   None \<Rightarrow> bindE (send_error ICMP_DEST_UNREACH m1) (\<lambda>f. Inr (s1, [f]))
                 | Some best_route \<Rightarrow>
                     bindE (get_interface_mac env (out_if best_route)) (\<lambda>smac.
                     let m2 = m1\<lparr>payload := put_at 6 smac (payload m1)\<rparr>; s2 = s1\<lparr>r_buf := m2\<rparr>
                     in bindE (get_mac (r_arp s) (next_hop best_route)) (\<lambda>arp_entry.
                        case arp_entry of
                          None \<Rightarrow> enqueue_and_request env best_route s2
                        | Some e \<Rightarrow>
                            let m3 = m2\<lparr>payload := put_at 0 (mac e) (payload m2)\<rparr>
                            in bindE (send_packet (out_if best_route) m3) (\<lambda>f.
                               Inr (s2\<lparr>r_buf := m3\<rparr>, [f]))))))"

section \<open>The main loop\<close>

definition router_body :: "net_env \<Rightarrow> router \<Rightarrow> (router \<times> frame list) res" where
  "router_body env s =
     (let m = r_buf s; b = payload m
      in bindE (echo_for_router env m) (\<lambda>echo.
         if echo then bindE (reply_echo m) (\<lambda>f. Inr (s, [f]))
         else bindE (request_for_router env m) (\<lambda>req.
           if req then bindE (reply_arp env m) (\<lambda>f. Inr (s, [f]))
           else if parse_arp b \<noteq> None \<and> arp_op_of b = htons ARPOP_REPLY then arp_reply s
           else ip_packet env s)))"

definition router_step ::
  "net_env \<Rightarrow> (int \<Rightarrow> u8 list option) \<Rightarrow> router \<Rightarrow> (router \<times> frame list) res" where
  "router_step env ready s =
     (case get_packet ready (r_buf s) of
        None \<Rightarrow> Inr (s, [])
      | Some m \<Rightarrow> router_body env (s\<lparr>r_buf := m\<rparr>))"

text \<open>Start-up, with the table file's text and the uninitialised receive buffer.\<close>

definition router_start :: "string \<Rightarrow> packet \<Rightarrow> router res" where
  "router_start f m =
     bindE (parse_rtable f) (\<lambda>rt.
     Inr \<lparr>r_table = rt, r_arp = init_arptable, r_queue = (queue_create, []), r_heap = [],
          r_buf = m\<rparr>)"

fun router_run ::
  "net_env \<Rightarrow> (int \<Rightarrow> u8 list option) list \<Rightarrow> router \<Rightarrow> (router \<times> frame list) res" where
  "router_run env [] s = Inr (s, [])"
| "router_run env (ev # evs) s =
     bindE (router_step env ev s) (\<lambda>(s1, out1).
     bindE (router_run env evs s1) (\<lambda>(s2, out2). Inr (s2, out1 @ out2)))"

end
