(* ===== verification/Router_Spec.thy ===== *)
theory Router_Spec
  imports Router
begin

text \<open>
  The abstract router: the ARP replies seen so far as a list, the waiting packets as a list,
  the routing table as a function, no arrays, cells or addresses; and the proof that the
  router of \<open>router.c\<close> refines it step by step, faults included.
\<close>

section \<open>The abstract router\<close>

record spec =
  s_arp :: "arptable_entry list"
  s_wait :: "packet list"
  s_buf :: packet

type_synonym routes = "u32 \<Rightarrow> rtable_entry option"

definition lookup_mac :: "spec \<Rightarrow> u32 \<Rightarrow> arptable_entry option" where
  "lookup_mac a i = find (\<lambda>e. ip e = i) (s_arp a)"

definition set_dhost :: "arptable_entry \<Rightarrow> packet \<Rightarrow> packet" where
  "set_dhost e m = m\<lparr>payload := put_at 0 (mac e) (payload m)\<rparr>"

definition spec_flush :: "routes \<Rightarrow> spec \<Rightarrow> (spec \<times> frame list) res" where
  "spec_flush route a =
     (case s_wait a of
        [] \<Rightarrow> Inr (a, [])
      | pk # rest \<Rightarrow>
          (case route (ip_daddr_of (payload pk)) of
             None \<Rightarrow> Inl NullDeref
           | Some r \<Rightarrow>
               (case lookup_mac a (next_hop r) of
                  None \<Rightarrow> Inr (a, [])
                | Some e \<Rightarrow>
                    bindE (send_packet (out_if r) (set_dhost e pk)) (\<lambda>f.
                    if rest = [] then Inr (a\<lparr>s_wait := []\<rparr>, [f]) else Inl UseAfterFree))))"

definition spec_arp_reply :: "routes \<Rightarrow> spec \<Rightarrow> (spec \<times> frame list) res" where
  "spec_arp_reply route a =
     (let b = payload (s_buf a)
      in spec_flush route (a\<lparr>s_arp := s_arp a @ [\<lparr>ip = arp_spa_of b, mac = arp_sha_of b\<rparr>]\<rparr>))"

definition broadcast :: "u8 list" where
  "broadcast = replicate 6 255"

definition spec_wait :: "net_env \<Rightarrow> rtable_entry \<Rightarrow> spec \<Rightarrow> (spec \<times> frame list) res" where
  "spec_wait env r a =
     bindE (send_arp (next_hop r) (if_addr env (out_if r))
              (build_ethhdr (if_hwaddr env (out_if r)) broadcast (htons ETHERTYPE_ARP))
              (out_if r) (htons ARPOP_REQUEST)) (\<lambda>f.
     Inr (a\<lparr>s_wait := s_wait a @ [s_buf a]\<rparr>, [f]))"

definition spec_ip :: "net_env \<Rightarrow> routes \<Rightarrow> spec \<Rightarrow> (spec \<times> frame list) res" where
  "spec_ip env route a =
     (let m = s_buf a; b = payload m
      in if ip_ttl_of b \<le> 1
         then bindE (send_error ICMP_TIME_EXCEEDED m) (\<lambda>f. Inr (a, [f]))
         else if \<not> sums_to_zero (bytes_at ETH_HLEN IP_HLEN b) then Inr (a, [])
         else let m1 = m\<lparr>payload := age b\<rparr>
              in case route (ip_daddr_of b) of
                   None \<Rightarrow> bindE (send_error ICMP_DEST_UNREACH m1) (\<lambda>f. Inr (a\<lparr>s_buf := m1\<rparr>, [f]))
                 | Some r \<Rightarrow>
                     if valid_interface (out_if r)
                     then let m2 = m1\<lparr>payload := put_at 6 (if_hwaddr env (out_if r)) (payload m1)\<rparr>;
                              a2 = a\<lparr>s_buf := m2\<rparr>
                          in (case lookup_mac a (next_hop r) of
                                None \<Rightarrow> spec_wait env r a2
                              | Some e \<Rightarrow>
                                  let m3 = set_dhost e m2
                                  in bindE (send_packet (out_if r) m3) (\<lambda>f.
                                     Inr (a2\<lparr>s_buf := m3\<rparr>, [f])))
                     else Inl OutOfBounds)"

text \<open>What a received frame is to the router.\<close>

definition is_echo :: "net_env \<Rightarrow> packet \<Rightarrow> bool" where
  "is_echo env m \<longleftrightarrow>
     (let b = payload m
      in parse_icmp b \<noteq> None \<and> icmp_type_of b = ICMP_ECHO \<and>
         ip_daddr_of b = if_addr env (interface m))"

definition is_request :: "net_env \<Rightarrow> packet \<Rightarrow> bool" where
  "is_request env m \<longleftrightarrow>
     (let b = payload m
      in parse_arp b \<noteq> None \<and> arp_op_of b = htons ARPOP_REQUEST \<and>
         arp_tpa_of b = if_addr env (interface m))"

definition is_reply :: "packet \<Rightarrow> bool" where
  "is_reply m \<longleftrightarrow>
     (let b = payload m in parse_arp b \<noteq> None \<and> arp_op_of b = htons ARPOP_REPLY)"

definition spec_body :: "net_env \<Rightarrow> routes \<Rightarrow> spec \<Rightarrow> (spec \<times> frame list) res" where
  "spec_body env route a =
     (let m = s_buf a
      in if is_echo env m then bindE (reply_echo m) (\<lambda>f. Inr (a, [f]))
         else if is_request env m then bindE (reply_arp env m) (\<lambda>f. Inr (a, [f]))
         else if is_reply m then spec_arp_reply route a
         else spec_ip env route a)"

definition spec_step ::
  "net_env \<Rightarrow> routes \<Rightarrow> (int \<Rightarrow> u8 list option) \<Rightarrow> spec \<Rightarrow> (spec \<times> frame list) res" where
  "spec_step env route ready a =
     (case get_packet ready (s_buf a) of
        None \<Rightarrow> Inr (a, [])
      | Some m \<Rightarrow> spec_body env route (a\<lparr>s_buf := m\<rparr>))"

section \<open>The abstraction relation\<close>

text \<open>
  The waiting packets are exactly the live objects of the packet heap: nothing leaks and
  nothing in the queue is dangling.
\<close>

definition heap_holds :: "packet heap \<Rightarrow> addr list \<Rightarrow> packet list \<Rightarrow> bool" where
  "heap_holds h ps ms \<longleftrightarrow>
     distinct ps \<and> map (h_read h) ps = map Inr ms \<and>
     (\<forall>p. p \<notin> set ps \<longrightarrow> h_read h p = Inl UseAfterFree)"

definition router_rel :: "rtable \<Rightarrow> router \<Rightarrow> spec \<Rightarrow> bool" where
  "router_rel tab s a \<longleftrightarrow>
     r_table s = tab \<and> arp_repr (r_arp s) (s_arp a) \<and> r_buf s = s_buf a \<and>
     (\<exists>ps. queue_repr (r_queue s) ps \<and> heap_holds (r_heap s) ps (s_wait a))"

definition res_rel ::
  "rtable \<Rightarrow> (router \<times> frame list) res \<Rightarrow> (spec \<times> frame list) res \<Rightarrow> bool" where
  "res_rel tab r sp \<longleftrightarrow>
     (case sp of
        Inl e \<Rightarrow> r = Inl e
      | Inr (a, out) \<Rightarrow> \<exists>s. r = Inr (s, out) \<and> router_rel tab s a)"

definition routes_of :: "rtable \<Rightarrow> routes" where
  "routes_of tab d = (case get_best_route tab d of Inl e \<Rightarrow> None | Inr r \<Rightarrow> r)"

lemma res_relI: "router_rel tab s a \<Longrightarrow> res_rel tab (Inr (s, out)) (Inr (a, out))"
  by (simp add: res_rel_def)

lemma res_rel_bind:
  "(\<And>x. r = Inr x \<Longrightarrow> res_rel tab (f x) (g x)) \<Longrightarrow> res_rel tab (bindE r f) (bindE r g)"
  by (cases r) (simp_all add: res_rel_def)

lemma best_route_routes: "loaded tab es \<Longrightarrow> get_best_route tab d = Inr (routes_of tab d)"
  using get_best_route_result[of tab es d] by (auto simp: routes_of_def)

lemma router_rel_mac: "router_rel tab s a \<Longrightarrow> get_mac (r_arp s) i = Inr (lookup_mac a i)"
  by (simp add: router_rel_def get_mac_find lookup_mac_def)

lemma router_rel_buf: "router_rel tab s a \<Longrightarrow> router_rel tab (s\<lparr>r_buf := m\<rparr>) (a\<lparr>s_buf := m\<rparr>)"
  by (simp add: router_rel_def)

subsection \<open>The packet heap\<close>

lemma heap_holds_Nil: "heap_holds [] [] []"
  by (simp add: heap_holds_def h_read_def)

lemma heap_holds_alloc:
  assumes "heap_holds h ps ms" and "h_alloc m h = (p, h')"
  shows "heap_holds h' (ps @ [p]) (ms @ [m])"
proof -
  have p: "p \<notin> set ps"
  proof
    assume "p \<in> set ps"
    then have "h_read h p \<in> set (map (h_read h) ps)" by simp
    also have "map (h_read h) ps = map Inr ms" using assms(1) by (simp add: heap_holds_def)
    finally show False using h_alloc_fresh[OF assms(2)] by auto
  qed
  then have "map (h_read h') ps = map (h_read h) ps" by (auto simp: h_alloc_read[OF assms(2)])
  with p assms(1) show ?thesis by (auto simp: heap_holds_def h_alloc_read[OF assms(2)])
qed

lemma heap_holds_write_free:
  assumes "heap_holds h (p # ps) (m # ms)" and "h_write p m' h = Inr h1" and "h_free p h1 = Inr h2"
  shows "heap_holds h2 ps ms" and "h_read h1 p = Inr m'" and "h_read h2 p = Inl UseAfterFree"
proof -
  note rd = h_write_read[OF assms(2)] h_free_read[OF assms(3)]
  have "p \<notin> set ps" using assms(1) by (simp add: heap_holds_def)
  then have "map (h_read h2) ps = map (h_read h) ps" by (auto simp: rd)
  with assms(1) show "heap_holds h2 ps ms" by (auto simp: heap_holds_def rd)
qed (simp_all add: h_write_read[OF assms(2)] h_free_read[OF assms(3)])

section \<open>Refinement\<close>

lemma flush_loop_None: "flush_loop p r None s out = Inr (s, out)"
  by (simp add: flush_loop.simps)

lemma flush_loop_rel:
  assumes rel: "router_rel tab s a" and q: "queue_repr (r_queue s) (p # ps)"
    and hh: "heap_holds (r_heap s) (p # ps) (pk # rest)" and w: "s_wait a = pk # rest"
  shows "res_rel tab (flush_loop p r (Some e) s [])
    (bindE (send_packet (out_if r) (set_dhost e pk)) (\<lambda>f.
       if rest = [] then Inr (a\<lparr>s_wait := []\<rparr>, [f]) else Inl UseAfterFree))"
proof -
  let ?pk = "pk\<lparr>payload := put_at 0 (mac e) (payload pk)\<rparr>"
  obtain q' where dq: "queue_deq (r_queue s) = Inr (p, q')" "queue_repr q' ps"
    using pq.deq_repr[OF q] by blast
  have rd: "h_read (r_heap s) p = Inr pk" using hh by (simp add: heap_holds_def)
  then obtain h1 where h1: "h_write p ?pk (r_heap s) = Inr h1" by (auto simp: h_write_Inr)
  then have rd1: "h_read h1 p = Inr ?pk" by (simp add: h_write_read)
  then obtain h2 where h2: "h_free p h1 = Inr h2" by (auto simp: h_free_Inr)
  note hw = heap_holds_write_free[OF hh h1 h2]
  have em: "queue_empty (fst q') \<longleftrightarrow> ps = []" by (rule pq.empty_repr[OF dq(2)])
  have len: "ps = [] \<longleftrightarrow> rest = []" using hh by (auto simp: heap_holds_def dest: map_eq_imp_length_eq)
  show ?thesis
  proof (cases "send_packet (out_if r) ?pk")
    case (Inl err)
    then show ?thesis
      using dq rd h1 rd1 by (subst flush_loop.simps) (simp add: set_dhost_def res_rel_def)
  next
    case (Inr f)
    show ?thesis
    proof (cases "ps = []")
      case True
      then have "flush_loop p r (Some e) s [] = Inr (s\<lparr>r_queue := q', r_heap := h2\<rparr>, [f])"
        using dq rd h1 rd1 h2 Inr em by (subst flush_loop.simps) (simp add: Let_def)
      moreover have "router_rel tab (s\<lparr>r_queue := q', r_heap := h2\<rparr>) (a\<lparr>s_wait := []\<rparr>)"
        using rel dq(2) hw(1) True len by (auto simp: router_rel_def)
      ultimately show ?thesis using Inr True len by (simp add: set_dhost_def res_rel_def)
    next
      case False
      then obtain p1 ps1 where "ps = p1 # ps1" by (cases ps) auto
      then have "queue_top q' = Inr p1" using dq(2) pq.top_repr[of q' p1 ps1] by simp
      then have "flush_loop p r (Some e) s [] = Inl UseAfterFree"
        using dq rd h1 rd1 h2 Inr em False hw(3) by (subst flush_loop.simps) (simp add: Let_def)
      then show ?thesis using Inr False len by (simp add: set_dhost_def res_rel_def)
    qed
  qed
qed

lemma arp_reply_rel:
  assumes ld: "loaded tab es" and rel: "router_rel tab s a"
  shows "res_rel tab (arp_reply s) (spec_arp_reply (routes_of tab) a)"
proof -
  let ?b = "payload (s_buf a)"
  let ?a1 = "a\<lparr>s_arp := s_arp a @ [\<lparr>ip = arp_spa_of ?b, mac = arp_sha_of ?b\<rparr>]\<rparr>"
  have buf: "r_buf s = s_buf a" and tab: "r_table s = tab" using rel by (simp_all add: router_rel_def)
  obtain t where t: "add_to_arptable (r_arp s) (arp_spa_of ?b) (arp_sha_of ?b) = Inr t"
    "arp_repr t (s_arp ?a1)"
    using rel add_to_arptable_repr[of "r_arp s" "s_arp a" "arp_spa_of ?b" "arp_sha_of ?b"]
    by (auto simp: router_rel_def)
  let ?s1 = "s\<lparr>r_arp := t\<rparr>"
  have rel1: "router_rel tab ?s1 ?a1" using rel t(2) by (simp add: router_rel_def)
  obtain ps where ps: "queue_repr (r_queue s) ps" "heap_holds (r_heap s) ps (s_wait a)"
    using rel by (auto simp: router_rel_def)
  show ?thesis
  proof (cases "s_wait a")
    case Nil
    then have "ps = []" using ps(2) by (simp add: heap_holds_def)
    then have "arp_reply s = Inr (?s1, [])"
      using ps(1) t buf pq.empty_repr[OF ps(1)] by (simp add: arp_reply_def Let_def)
    with rel1 Nil show ?thesis
      by (simp add: spec_arp_reply_def spec_flush_def res_relI Let_def)
  next
    case (Cons pk rest)
    then obtain p qs where p: "ps = p # qs" using ps(2) by (cases ps) (auto simp: heap_holds_def)
    have rd: "h_read (r_heap s) p = Inr pk" using ps(2) p Cons by (simp add: heap_holds_def)
    have tp: "queue_top (r_queue s) = Inr p" "\<not> queue_empty (fst (r_queue s))"
      using pq.top_repr[of "r_queue s" p qs] pq.empty_repr[OF ps(1)] ps(1) p by simp_all
    have eq: "arp_reply s = bindE (deref (routes_of tab (ip_daddr_of (payload pk)))) (\<lambda>r.
        flush_loop p r (lookup_mac ?a1 (next_hop r)) ?s1 [])"
      using t buf tp rd tab best_route_routes[OF ld] router_rel_mac[OF rel1]
      by (simp add: arp_reply_def Let_def)
    show ?thesis
    proof (cases "routes_of tab (ip_daddr_of (payload pk))")
      case None
      with eq Cons show ?thesis
        by (simp add: spec_arp_reply_def spec_flush_def res_rel_def Let_def)
    next
      case (Some r)
      have "res_rel tab (flush_loop p r (Some e) ?s1 [])
          (bindE (send_packet (out_if r) (set_dhost e pk)) (\<lambda>f.
             if rest = [] then Inr (?a1\<lparr>s_wait := []\<rparr>, [f]) else Inl UseAfterFree))" for e
        using ps p Cons by (intro flush_loop_rel[OF rel1]) simp_all
      with eq Some Cons rel1 show ?thesis
        by (cases "lookup_mac ?a1 (next_hop r)")
          (simp_all add: spec_arp_reply_def spec_flush_def flush_loop_None res_relI Let_def)
    qed
  qed
qed

lemma enqueue_rel:
  assumes rel: "router_rel tab s a" and v: "valid_interface (out_if r)"
  shows "res_rel tab (enqueue_and_request env r s) (spec_wait env r a)"
proof -
  obtain ps where ps: "queue_repr (r_queue s) ps" "heap_holds (r_heap s) ps (s_wait a)"
    using rel by (auto simp: router_rel_def)
  obtain p h where al: "h_alloc (r_buf s) (r_heap s) = (p, h)" by fastforce
  obtain q where q: "queue_enq p (r_queue s) = Inr q" "queue_repr q (ps @ [p])"
    using pq.enq_repr[OF ps(1)] by blast
  have "router_rel tab (s\<lparr>r_queue := q, r_heap := h\<rparr>) (a\<lparr>s_wait := s_wait a @ [s_buf a]\<rparr>)"
    using rel q(2) heap_holds_alloc[OF ps(2) al] by (auto simp: router_rel_def)
  moreover have "snd (hwaddr_aton ''ff:ff:ff:ff:ff:ff'') = broadcast"
    by (simp add: hwaddr_broadcast broadcast_def eval_nat_numeral)
  ultimately show ?thesis
    unfolding enqueue_and_request_def spec_wait_def al Let_def
    using q(1) v by (auto simp: get_interface_mac_def get_interface_ip_def inet_addr_ntoa
        intro!: res_rel_bind res_relI)
qed

lemma checksum_test:
  "ip_checksum 18 (bytes_at ETH_HLEN IP_HLEN b) = 0 \<longleftrightarrow> sums_to_zero (bytes_at ETH_HLEN IP_HLEN b)"
  by (rule ip_checksum_eq_0) (simp add: bytes_at_def)

lemma length_age [simp]: "26 \<le> length b \<Longrightarrow> length (age b) = length b"
  by (simp add: age_def Let_def)

lemma daddr_age: "34 \<le> length b \<Longrightarrow> ip_daddr_of (age b) = ip_daddr_of b"
  by (simp add: age_def ip_daddr_of_def rd32_put_other Let_def)

lemma ip_packet_rel:
  assumes ld: "loaded tab es" and rel: "router_rel tab s a"
    and len: "length (payload (s_buf a)) = MAX_LEN"
  shows "res_rel tab (ip_packet env s) (spec_ip env (routes_of tab) a)"
proof -
  have buf: "r_buf s = s_buf a" and tab: "r_table s = tab" using rel by (simp_all add: router_rel_def)
  let ?b = "payload (s_buf a)"
  let ?m1 = "(s_buf a)\<lparr>payload := age ?b\<rparr>"
  have d: "ip_daddr_of (age ?b) = ip_daddr_of ?b" using len by (intro daddr_age) (simp add: MAX_LEN_def)
  note b = router_rel_buf[OF rel]
  consider "ip_ttl_of ?b \<le> 1" | "\<not> ip_ttl_of ?b \<le> 1" "\<not> sums_to_zero (bytes_at ETH_HLEN IP_HLEN ?b)"
    | "\<not> ip_ttl_of ?b \<le> 1" "sums_to_zero (bytes_at ETH_HLEN IP_HLEN ?b)" by blast
  then show ?thesis
  proof cases
    case 1
    then show ?thesis using rel
      by (auto simp: ip_packet_def spec_ip_def buf Let_def intro!: res_rel_bind res_relI)
  next
    case 2
    then show ?thesis using rel
      by (simp add: ip_packet_def spec_ip_def buf Let_def checksum_test res_relI)
  next
    case 3
    note steps = ip_packet_def spec_ip_def buf tab best_route_routes[OF ld] router_rel_mac[OF rel]
      checksum_test d get_interface_mac_def Let_def
    show ?thesis
    proof (cases "routes_of tab (ip_daddr_of ?b)")
      case None
      then show ?thesis using 3 b by (auto simp: steps intro!: res_rel_bind res_relI)
    next
      case (Some r)
      show ?thesis
      proof (cases "valid_interface (out_if r)")
        case True
        then show ?thesis using 3 b Some
          by (cases "lookup_mac a (next_hop r)")
            (auto simp: steps set_dhost_def intro!: res_rel_bind res_relI enqueue_rel)
      next
        case False
        then show ?thesis using 3 Some by (simp add: steps res_rel_def)
      qed
    qed
  qed
qed

lemma get_packet_valid:
  assumes "get_packet ready m0 = Some m" and "length (payload m0) = MAX_LEN"
  shows "valid_interface (interface m)" and "length (payload m) = MAX_LEN" and "len m \<le> MAX_LEN"
proof -
  obtain i where i: "find (\<lambda>i. ready i \<noteq> None) [0..ROUTER_NUM_INTERFACES - 1] = Some i"
    "m = (socket_receive_message (the (ready i)) m0)\<lparr>interface := i\<rparr>"
    using assms(1) by (auto simp: get_packet_def split: option.splits)
  from i(1) have "i \<in> set [0..ROUTER_NUM_INTERFACES - 1]"
    by (auto simp: find_Some_iff)
  with i(2) assms(2) show "valid_interface (interface m)" "length (payload m) = MAX_LEN" "len m \<le> MAX_LEN"
    by (simp_all add: socket_receive_message_def valid_interface_def Let_def)
qed

lemma router_body_rel:
  assumes ld: "loaded tab es" and rel: "router_rel tab s a"
    and m: "valid_interface (interface (s_buf a))" "length (payload (s_buf a)) = MAX_LEN"
  shows "res_rel tab (router_body env s) (spec_body env (routes_of tab) a)"
proof -
  have buf: "r_buf s = s_buf a" using rel by (simp add: router_rel_def)
  have e: "echo_for_router env (s_buf a) = Inr (is_echo env (s_buf a))"
    "request_for_router env (s_buf a) = Inr (is_request env (s_buf a))"
    using m(1) by (auto simp: echo_for_router_def is_echo_def request_for_router_def is_request_def
        get_interface_ip_def inet_addr_ntoa Let_def)
  have "router_body env s =
      (if is_echo env (s_buf a) then bindE (reply_echo (s_buf a)) (\<lambda>f. Inr (s, [f]))
       else if is_request env (s_buf a) then bindE (reply_arp env (s_buf a)) (\<lambda>f. Inr (s, [f]))
       else if is_reply (s_buf a) then arp_reply s else ip_packet env s)"
    by (simp add: router_body_def buf e is_reply_def Let_def)
  then show ?thesis
    using rel arp_reply_rel[OF ld rel] ip_packet_rel[OF ld rel m(2)]
    by (auto simp: spec_body_def Let_def intro!: res_rel_bind res_relI)
qed

section \<open>The invariant\<close>

definition env_ok :: "net_env \<Rightarrow> bool" where
  "env_ok env \<longleftrightarrow> (\<forall>i. valid_interface i \<longrightarrow> length (if_hwaddr env i) = 6)"

definition waiting_ok :: "routes \<Rightarrow> packet \<Rightarrow> bool" where
  "waiting_ok route pk \<longleftrightarrow>
     length (payload pk) = MAX_LEN \<and> len pk \<le> MAX_LEN \<and>
     route (ip_daddr_of (payload pk)) \<noteq> None"

definition spec_ok :: "routes \<Rightarrow> spec \<Rightarrow> bool" where
  "spec_ok route a \<longleftrightarrow>
     length (payload (s_buf a)) = MAX_LEN \<and>
     (\<forall>e \<in> set (s_arp a). length (mac e) = 6) \<and>
     (\<forall>pk \<in> set (s_wait a). waiting_ok route pk)"

text \<open>The buffer as \<open>get_packet\<close> returns it.\<close>

definition received_ok :: "packet \<Rightarrow> bool" where
  "received_ok m \<longleftrightarrow> valid_interface (interface m) \<and> length (payload m) = MAX_LEN \<and> len m \<le> MAX_LEN"

lemma lookup_mac_length:
  "spec_ok route a \<Longrightarrow> lookup_mac a i = Some e \<Longrightarrow> length (mac e) = 6"
  by (auto simp: spec_ok_def lookup_mac_def find_Some_iff)

lemma length_arp_sha: "length b = MAX_LEN \<Longrightarrow> length (arp_sha_of b) = 6"
  by (simp add: arp_sha_of_def MAX_LEN_def)

lemma spec_flush_ok:
  assumes "spec_ok route a" and "spec_flush route a = Inr (a', out)"
  shows "spec_ok route a'"
  using assms by (auto simp: spec_flush_def spec_ok_def fault_simps split: list.splits option.splits if_splits)

lemma spec_arp_reply_ok:
  assumes "spec_ok route a" and "spec_arp_reply route a = Inr (a', out)"
  shows "spec_ok route a'"
proof -
  let ?b = "payload (s_buf a)"
  have "spec_ok route (a\<lparr>s_arp := s_arp a @ [\<lparr>ip = arp_spa_of ?b, mac = arp_sha_of ?b\<rparr>]\<rparr>)"
    using assms(1) length_arp_sha[of ?b] by (auto simp: spec_ok_def)
  then show ?thesis using assms(2) spec_flush_ok by (simp add: spec_arp_reply_def Let_def)
qed

lemma forwarded_fields:
  assumes "length b = MAX_LEN" and "length hw = 6"
  shows "ip_daddr_of (put_at 6 hw (age b)) = ip_daddr_of b"
    and "length (put_at 6 hw (age b)) = MAX_LEN"
  using assms daddr_age[of b]
  by (simp_all add: MAX_LEN_def ip_daddr_of_def rd32_put_other)

lemma spec_ip_ok:
  assumes ok: "spec_ok route a" "env_ok env" and m: "received_ok (s_buf a)"
    and r: "spec_ip env route a = Inr (a', out)"
  shows "spec_ok route a'"
proof -
  let ?b = "payload (s_buf a)"
  have l: "length ?b = MAX_LEN" "length (age ?b) = MAX_LEN" using ok by (simp_all add: spec_ok_def MAX_LEN_def)
  consider (keep) "a' = a" | (dead) "a' = a\<lparr>s_buf := (s_buf a)\<lparr>payload := age ?b\<rparr>\<rparr>"
    | (go) route1 where "route (ip_daddr_of ?b) = Some route1" "valid_interface (out_if route1)"
      "let m2 = (s_buf a)\<lparr>payload := put_at 6 (if_hwaddr env (out_if route1)) (age ?b)\<rparr>
       in (a' = a\<lparr>s_buf := m2, s_wait := s_wait a @ [m2]\<rparr>) \<or>
          (\<exists>e. lookup_mac a (next_hop route1) = Some e \<and> a' = a\<lparr>s_buf := set_dhost e m2\<rparr>)"
    using r by (auto simp: spec_ip_def spec_wait_def Let_def fault_simps split: if_splits option.splits)
  then show ?thesis
  proof cases
    case go
    have hw: "length (if_hwaddr env (out_if route1)) = 6" using go(2) ok(2) by (simp add: env_ok_def)
    note f = forwarded_fields[OF l(1) hw]
    from go(3) show ?thesis
      using ok(1) m go(1) f lookup_mac_length[OF ok(1)]
      by (auto simp: Let_def spec_ok_def waiting_ok_def received_ok_def set_dhost_def MAX_LEN_def)
  qed (use ok l in \<open>simp_all add: spec_ok_def\<close>)
qed

lemma spec_body_ok:
  assumes "spec_ok route a" and "env_ok env" and "received_ok (s_buf a)"
    and "spec_body env route a = Inr (a', out)"
  shows "spec_ok route a'"
  using assms spec_arp_reply_ok[OF assms(1)] spec_ip_ok[OF assms(1-3)]
  by (auto simp: spec_body_def Let_def fault_simps split: if_splits)

lemma spec_step_ok:
  assumes ok: "spec_ok route a" "env_ok env" and r: "spec_step env route ready a = Inr (a', out)"
  shows "spec_ok route a'"
proof (cases "get_packet ready (s_buf a)")
  case None
  then show ?thesis using ok r by (simp add: spec_step_def)
next
  case (Some m)
  have "length (payload (s_buf a)) = MAX_LEN" using ok by (simp add: spec_ok_def)
  note v = get_packet_valid[OF Some this]
  have "spec_ok route (a\<lparr>s_buf := m\<rparr>)" using ok v by (simp add: spec_ok_def)
  then show ?thesis
    using spec_body_ok[of route "a\<lparr>s_buf := m\<rparr>" env a' out] ok v Some r
    by (simp add: spec_step_def received_ok_def)
qed

lemma router_step_rel:
  assumes ld: "loaded tab es" and rel: "router_rel tab s a" and ok: "spec_ok route a"
  shows "res_rel tab (router_step env ready s) (spec_step env (routes_of tab) ready a)"
proof (cases "get_packet ready (s_buf a)")
  case None
  moreover have "r_buf s = s_buf a" using rel by (simp add: router_rel_def)
  ultimately show ?thesis using rel by (simp add: router_step_def spec_step_def res_relI)
next
  case (Some m)
  have buf: "r_buf s = s_buf a" using rel by (simp add: router_rel_def)
  have "length (payload (s_buf a)) = MAX_LEN" using ok by (simp add: spec_ok_def)
  note v = get_packet_valid[OF Some this]
  show ?thesis
    using router_body_rel[OF ld router_rel_buf[OF rel, of m]] v Some buf
    by (simp add: router_step_def spec_step_def)
qed

lemma res_rel_Inr:
  "res_rel tab (Inr (s, out)) sp \<longleftrightarrow> (\<exists>a. sp = Inr (a, out) \<and> router_rel tab s a)"
  by (auto simp: res_rel_def split: sum.splits prod.splits)

lemma res_rel_Inl: "res_rel tab (Inl e) sp \<longleftrightarrow> sp = Inl e"
  by (auto simp: res_rel_def split: sum.splits)

section \<open>Reachable states\<close>

text \<open>
  The states of the main loop: after start-up with a table file, and after each pass that
  did not fault.
\<close>

inductive reachable :: "net_env \<Rightarrow> string \<Rightarrow> router \<Rightarrow> bool" for env :: net_env and f :: string where
  start: "router_start f m = Inr s \<Longrightarrow> length (payload m) = MAX_LEN \<Longrightarrow> reachable env f s"
| step: "reachable env f s \<Longrightarrow> router_step env ready s = Inr (s', out) \<Longrightarrow> reachable env f s'"

definition spec_start :: "packet \<Rightarrow> spec" where
  "spec_start m = \<lparr>s_arp = [], s_wait = [], s_buf = m\<rparr>"

lemma router_start_rel:
  assumes "router_start f m = Inr s" and "length (payload m) = MAX_LEN"
  shows "\<exists>tab es. rtable_rows f = Inr es \<and> parse_rtable f = Inr tab \<and> loaded tab es \<and>
    router_rel tab s (spec_start m) \<and> spec_ok (routes_of tab) (spec_start m)"
proof -
  obtain tab where tab: "parse_rtable f = Inr tab"
    "s = \<lparr>r_table = tab, r_arp = init_arptable, r_queue = (queue_create, []), r_heap = [], r_buf = m\<rparr>"
    using assms(1) by (auto simp: router_start_def fault_simps)
  obtain es where es: "rtable_rows f = Inr es" "loaded tab es" using parse_rtable_rows[OF tab(1)] by blast
  have "router_rel tab s (spec_start m)"
    using tab(2) ar.init_repr pq.create_repr heap_holds_Nil
    by (auto simp: router_rel_def spec_start_def)
  moreover have "spec_ok (routes_of tab) (spec_start m)"
    using assms(2) by (simp add: spec_ok_def spec_start_def)
  ultimately show ?thesis using tab(1) es by blast
qed

definition spec_of :: "string \<Rightarrow> router \<Rightarrow> spec \<Rightarrow> bool" where
  "spec_of f s a \<longleftrightarrow>
     (\<exists>tab es. rtable_rows f = Inr es \<and> parse_rtable f = Inr tab \<and> loaded tab es \<and>
        router_rel tab s a \<and> spec_ok (routes_of tab) a)"

lemma reachable_spec: "reachable env f s \<Longrightarrow> env_ok env \<Longrightarrow> \<exists>a. spec_of f s a"
proof (induction rule: reachable.induct)
  case (start m s)
  then show ?case using router_start_rel unfolding spec_of_def by blast
next
  case (step s ready s' out)
  then obtain a tab es where a: "rtable_rows f = Inr es" "parse_rtable f = Inr tab" "loaded tab es"
    "router_rel tab s a" "spec_ok (routes_of tab) a"
    unfolding spec_of_def by blast
  from router_step_rel[OF a(3-5)] step(2) obtain a' where
    a': "spec_step env (routes_of tab) ready a = Inr (a', out)" "router_rel tab s' a'"
    by (metis res_rel_Inr)
  from spec_step_ok[OF a(5) step(4) a'(1)] a' a show ?case
    unfolding spec_of_def by blast
qed

fun spec_run ::
  "net_env \<Rightarrow> routes \<Rightarrow> (int \<Rightarrow> u8 list option) list \<Rightarrow> spec \<Rightarrow> (spec \<times> frame list) res" where
  "spec_run env route [] a = Inr (a, [])"
| "spec_run env route (ev # evs) a =
     bindE (spec_step env route ev a) (\<lambda>(a1, out1).
     bindE (spec_run env route evs a1) (\<lambda>(a2, out2). Inr (a2, out1 @ out2)))"

lemma router_run_rel:
  assumes "loaded tab es" and "env_ok env"
  shows "router_rel tab s a \<Longrightarrow> spec_ok (routes_of tab) a \<Longrightarrow>
    res_rel tab (router_run env evs s) (spec_run env (routes_of tab) evs a)"
proof (induction evs arbitrary: s a)
  case (Cons ev evs)
  show ?case
  proof (cases "spec_step env (routes_of tab) ev a")
    case (Inl e)
    with router_step_rel[OF assms(1) Cons.prems, of env ev] show ?thesis by (simp add: res_rel_def)
  next
    case (Inr r)
    then obtain a1 out1 where a1: "spec_step env (routes_of tab) ev a = Inr (a1, out1)" by (cases r) auto
    from router_step_rel[OF assms(1) Cons.prems, of env ev] obtain s1 where
      s1: "router_step env ev s = Inr (s1, out1)" "router_rel tab s1 a1"
      by (auto simp: a1 res_rel_def)
    have "res_rel tab (router_run env evs s1) (spec_run env (routes_of tab) evs a1)"
      by (rule Cons.IH[OF s1(2) spec_step_ok[OF Cons.prems(2) assms(2) a1]])
    with a1 s1 show ?thesis
      by (cases "spec_run env (routes_of tab) evs a1") (auto simp: res_rel_def)
  qed
qed (simp add: res_relI)

lemma reachable_run:
  "reachable env f s \<Longrightarrow> router_run env evs s = Inr (s', out) \<Longrightarrow> reachable env f s'"
  by (induction evs arbitrary: s out) (auto simp: fault_simps intro: reachable.step)

text \<open>The abstract router faults in one situation only.\<close>

definition resolves :: "routes \<Rightarrow> spec \<Rightarrow> packet \<Rightarrow> bool" where
  "resolves route a pk \<longleftrightarrow>
     (\<exists>r e. route (ip_daddr_of (payload pk)) = Some r \<and> lookup_mac a (next_hop r) = Some e)"

definition interfaces_ok :: "routes \<Rightarrow> bool" where
  "interfaces_ok route \<longleftrightarrow> (\<forall>d r. route d = Some r \<longrightarrow> valid_interface (out_if r))"

lemma send_icmp_packet_ok:
  "valid_interface i \<Longrightarrow> length (ether_dhost e) = 6 \<Longrightarrow> length (ether_shost e) = 6 \<Longrightarrow>
   icmp_check c = 0 \<Longrightarrow> \<exists>f. send_icmp_packet e h c i = Inr f"
  using send_icmp_packet_sent by blast

lemma mac_fields_length:
  "length b = MAX_LEN \<Longrightarrow> length (eth_dhost_of b) = 6"
  "length b = MAX_LEN \<Longrightarrow> length (eth_shost_of b) = 6"
  by (simp_all add: eth_dhost_of_def eth_shost_of_def MAX_LEN_def)

lemma answers_ok:
  assumes "received_ok m"
  shows "\<exists>f. reply_echo m = Inr f" and "\<exists>f. send_error t m = Inr f"
  unfolding reply_echo_def send_error_def send_icmp_def send_icmp_error_def Let_def build_ethhdr_def
  by (rule send_icmp_packet_ok;
      use assms mac_fields_length[of "payload m"] in \<open>simp add: received_ok_def\<close>)+

lemma reply_arp_ok:
  assumes "received_ok m" and "env_ok env"
  shows "\<exists>f. reply_arp env m = Inr f"
  using assms length_arp_sha[of "payload m"]
  by (simp add: received_ok_def reply_arp_def get_interface_mac_def env_ok_def build_ethhdr_def
      send_arp_sent Let_def)

lemma spec_ip_no_fault:
  assumes ok: "spec_ok route a" "env_ok env" "interfaces_ok route" and m: "received_ok (s_buf a)"
  shows "\<exists>a' out. spec_ip env route a = Inr (a', out)"
proof -
  let ?b = "payload (s_buf a)"
  have m1: "received_ok ((s_buf a)\<lparr>payload := age ?b\<rparr>)"
    using m by (simp add: received_ok_def MAX_LEN_def)
  have req: "\<exists>f. send_arp d x (build_ethhdr (if_hwaddr env i) broadcast t) i op = Inr f"
    if "valid_interface i" for d x t i op
    using that ok(2) by (simp add: send_arp_sent build_ethhdr_def env_ok_def broadcast_def)
  have v: "valid_interface (out_if r)" if "route d = Some r" for d r
    using that ok(3) by (simp add: interfaces_ok_def)
  show ?thesis
    using answers_ok(2)[OF m, of ICMP_TIME_EXCEEDED] answers_ok(2)[OF m1, of ICMP_DEST_UNREACH]
      v req
    by (auto simp: spec_ip_def spec_wait_def send_packet_def Let_def fault_simps
        split: option.splits)
qed

lemma spec_body_fault:
  assumes ok: "spec_ok route a" "env_ok env" "interfaces_ok route" and m: "received_ok (s_buf a)"
  shows "spec_body env route a = Inl err \<longleftrightarrow>
    err = UseAfterFree \<and> \<not> is_echo env (s_buf a) \<and> \<not> is_request env (s_buf a) \<and>
    is_reply (s_buf a) \<and>
    (\<exists>pk pk2 rest. s_wait a = pk # pk2 # rest \<and>
       resolves route (a\<lparr>s_arp := s_arp a @ [\<lparr>ip = arp_spa_of (payload (s_buf a)),
         mac = arp_sha_of (payload (s_buf a))\<rparr>]\<rparr>) pk)"
proof -
  have v: "valid_interface (out_if r)" if "route d = Some r" for d r
    using that ok(3) by (simp add: interfaces_ok_def)
  have w: "\<exists>r. route (ip_daddr_of (payload pk)) = Some r" if "pk \<in> set (s_wait a)" for pk
    using that ok(1) by (auto simp: spec_ok_def waiting_ok_def)
  have fl: "spec_flush route a1 = Inl err \<longleftrightarrow>
      err = UseAfterFree \<and> (\<exists>pk pk2 rest. s_wait a = pk # pk2 # rest \<and> resolves route a1 pk)"
    if "s_wait a1 = s_wait a" for a1
  proof (cases "s_wait a")
    case (Cons pk rest)
    with w obtain r where "route (ip_daddr_of (payload pk)) = Some r" by auto
    with Cons that v show ?thesis
      by (cases rest)
        (auto simp: spec_flush_def resolves_def send_packet_def split: option.splits)
  qed (use that in \<open>simp add: spec_flush_def\<close>)
  show ?thesis
    using answers_ok(1)[OF m] reply_arp_ok[OF m ok(2)] spec_ip_no_fault[OF ok m]
    by (auto simp: spec_body_def spec_arp_reply_def fl Let_def)
qed

lemma is_reply_only: "is_reply m \<Longrightarrow> \<not> is_echo env m \<and> \<not> is_request env m"
proof -
  have "htons ARPOP_REQUEST \<noteq> htons ARPOP_REPLY" by (simp add: ntohs_eq_iff)
  then show "is_reply m \<Longrightarrow> ?thesis"
    by (auto simp: is_reply_def is_echo_def is_request_def parse_arp_def parse_icmp_def Let_def
        split: if_splits)
qed

lemma rows_interfaces_ok:
  assumes "loaded tab es" and "\<forall>e \<in> set es. valid_interface (out_if e)"
  shows "interfaces_ok (routes_of tab)"
proof -
  have "e \<in> set es" if "routes_of tab d = Some e" for d e
    using get_best_route_result[OF assms(1), of d] that by (auto simp: routes_of_def)
  with assms(2) show ?thesis by (auto simp: interfaces_ok_def)
qed

text \<open>The two waiting packets of the abstract queue in the code's state.\<close>

lemma waiting_concrete:
  assumes "router_rel tab s a"
  shows "s_wait a = pk # pk2 # rest \<Longrightarrow>
    \<exists>p p2 ps. queue_repr (r_queue s) (p # p2 # ps) \<and> h_read (r_heap s) p = Inr pk"
    and "queue_repr (r_queue s) (p # p2 # ps) \<Longrightarrow> h_read (r_heap s) p = Inr pk \<Longrightarrow>
    \<exists>pk2 rest. s_wait a = pk # pk2 # rest"
proof -
  from assms obtain qs where qs: "queue_repr (r_queue s) qs" "map (h_read (r_heap s)) qs = map Inr (s_wait a)"
    by (auto simp: router_rel_def heap_holds_def)
  show "\<exists>p p2 ps. queue_repr (r_queue s) (p # p2 # ps) \<and> h_read (r_heap s) p = Inr pk"
    if "s_wait a = pk # pk2 # rest"
    using qs that by (auto simp: map_eq_Cons_conv)
  show "\<exists>pk2 rest. s_wait a = pk # pk2 # rest"
    if "queue_repr (r_queue s) (p # p2 # ps)" "h_read (r_heap s) p = Inr pk"
    using qs queue_repr_unique[OF qs(1) that(1)] that(2)
    by (auto simp: Cons_eq_map_conv)
qed

lemma waiting_concrete_iff:
  assumes "router_rel tab s a"
  shows "(\<exists>pk pk2 rest. s_wait a = pk # pk2 # rest \<and> P pk) \<longleftrightarrow>
    (\<exists>p p2 ps pk. queue_repr (r_queue s) (p # p2 # ps) \<and> h_read (r_heap s) p = Inr pk \<and> P pk)"
  using waiting_concrete[OF assms] by blast

end
