(* ===== verification/Router_Props.thy ===== *)
theory Router_Props
  imports Router_Spec
begin

text \<open>
  What the router of \<open>router.c\<close> does with each kind of frame in every state it can reach, and
  the only way it can fault.
\<close>

section \<open>Safety\<close>

text \<open>
  C1: the router refines the abstract router: run on any sequence of arriving frames it sends
  the same frames, faults at the same point with the same fault, and ends in a state the
  abstraction relation links to the abstract one.
\<close>

theorem router_refines_spec:
  assumes "router_start f m = Inr s" and "length (payload m) = MAX_LEN" and "env_ok env"
  shows "\<exists>tab. parse_rtable f = Inr tab \<and>
    res_rel tab (router_run env evs s) (spec_run env (routes_of tab) evs (spec_start m))"
  using router_start_rel[OF assms(1,2)] router_run_rel[OF _ assms(3)] by blast

text \<open>
  C12: in every reachable state the queue is well formed, the packets waiting in it are exactly
  the live objects of the packet heap (nothing leaked, nothing dangling), each of them is a
  full packet whose destination has a route, and the receive buffer keeps its size.
\<close>

theorem router_invariant:
  assumes "reachable env f s" and "env_ok env"
  shows "\<exists>ps pks. queue_repr (r_queue s) ps \<and> distinct ps \<and>
    map (h_read (r_heap s)) ps = map Inr pks \<and>
    (\<forall>p. p \<notin> set ps \<longrightarrow> h_read (r_heap s) p = Inl UseAfterFree) \<and>
    (\<forall>pk \<in> set pks. length (payload pk) = MAX_LEN \<and> len pk \<le> MAX_LEN \<and>
       (\<exists>r. get_best_route (r_table s) (ip_daddr_of (payload pk)) = Inr (Some r))) \<and>
    length (payload (r_buf s)) = MAX_LEN"
proof -
  obtain a tab es where a: "loaded tab es" "router_rel tab s a" "spec_ok (routes_of tab) a"
    using reachable_spec[OF assms] unfolding spec_of_def by blast
  then obtain ps where ps: "queue_repr (r_queue s) ps" "heap_holds (r_heap s) ps (s_wait a)"
    and tab: "r_table s = tab" "r_buf s = s_buf a"
    by (auto simp: router_rel_def)
  have "length (payload pk) = MAX_LEN \<and> len pk \<le> MAX_LEN \<and>
      (\<exists>r. get_best_route (r_table s) (ip_daddr_of (payload pk)) = Inr (Some r))"
    if "pk \<in> set (s_wait a)" for pk
    using a(3) that best_route_routes[OF a(1)] tab by (auto simp: spec_ok_def waiting_ok_def)
  with ps a(3) tab show ?thesis
    by (intro exI[of _ ps] exI[of _ "s_wait a"]) (simp add: heap_holds_def spec_ok_def)
qed

text \<open>
  C8: if all interfaces named by the table file exist, there is exactly one situation in which
  a reachable router faults: an ARP reply arrives while two or more packets wait and the next
  hop of the first one is now known. The loop then sends the first packet, frees it and goes
  on reading its header.
\<close>

theorem router_faults:
  assumes reach: "reachable env f s" and env: "env_ok env"
    and rows: "rtable_rows f = Inr es" "\<forall>e \<in> set es. valid_interface (out_if e)"
  shows "router_step env ready s = Inl err \<longleftrightarrow>
    err = UseAfterFree \<and>
    (\<exists>m t p p2 ps pk r e. get_packet ready (r_buf s) = Some m \<and> is_reply m \<and>
       queue_repr (r_queue s) (p # p2 # ps) \<and> h_read (r_heap s) p = Inr pk \<and>
       add_to_arptable (r_arp s) (arp_spa_of (payload m)) (arp_sha_of (payload m)) = Inr t \<and>
       get_best_route (r_table s) (ip_daddr_of (payload pk)) = Inr (Some r) \<and>
       get_mac t (next_hop r) = Inr (Some e))" (is "_ \<longleftrightarrow> _ \<and> ?stuck")
proof -
  obtain tab a where a: "loaded tab es" "router_rel tab s a" "spec_ok (routes_of tab) a"
    using reachable_spec[OF reach env] rows(1) by (auto simp: spec_of_def)
  note ifs = rows_interfaces_ok[OF a(1) rows(2)]
  have buf: "r_buf s = s_buf a" and tab: "r_table s = tab" using a(2) by (simp_all add: router_rel_def)
  have step: "router_step env ready s = Inl err \<longleftrightarrow> spec_step env (routes_of tab) ready a = Inl err"
    using router_step_rel[OF a, of env ready]
    by (cases "spec_step env (routes_of tab) ready a") (auto simp: res_rel_def)
  show ?thesis
  proof (cases "get_packet ready (s_buf a)")
    case None
    then show ?thesis by (simp add: step spec_step_def buf)
  next
    case (Some m)
    let ?a = "a\<lparr>s_buf := m\<rparr>" and ?new = "\<lparr>ip = arp_spa_of (payload m), mac = arp_sha_of (payload m)\<rparr>"
    have m: "received_ok m"
      using get_packet_valid[OF Some] a(3) by (simp add: spec_ok_def received_ok_def)
    then have ok: "spec_ok (routes_of tab) ?a" using a(3) by (simp add: spec_ok_def received_ok_def)
    obtain t where t: "add_to_arptable (r_arp s) (arp_spa_of (payload m)) (arp_sha_of (payload m)) = Inr t"
      "arp_repr t (s_arp a @ [?new])"
      using a(2) add_to_arptable_repr[of "r_arp s" "s_arp a" "arp_spa_of (payload m)" "arp_sha_of (payload m)"]
      unfolding router_rel_def by blast
    have res: "resolves (routes_of tab) (?a\<lparr>s_arp := s_arp a @ [?new]\<rparr>) pk \<longleftrightarrow>
        (\<exists>r e. get_best_route tab (ip_daddr_of (payload pk)) = Inr (Some r) \<and>
           get_mac t (next_hop r) = Inr (Some e))" for pk
      by (simp add: resolves_def best_route_routes[OF a(1)] get_mac_find[OF t(2)] lookup_mac_def)
    have "spec_step env (routes_of tab) ready a = Inl err \<longleftrightarrow>
        err = UseAfterFree \<and> is_reply m \<and>
        (\<exists>pk pk2 rest. s_wait a = pk # pk2 # rest \<and>
           resolves (routes_of tab) (?a\<lparr>s_arp := s_arp a @ [?new]\<rparr>) pk)"
      using spec_body_fault[OF ok env ifs, of err] m is_reply_only[of m env]
      by (auto simp: spec_step_def Some)
    also have "\<dots> \<longleftrightarrow> err = UseAfterFree \<and> ?stuck"
      unfolding res buf Some tab waiting_concrete_iff[OF a(2)] by (simp add: t(1)) blast?
    finally show ?thesis unfolding step .
  qed
qed

section \<open>Answers\<close>

text \<open>
  The ICMP frame that answers a received frame, byte by byte and without the functions that build it: the
  MAC addresses of the frame swapped, the type of IP, a header of IPv4 (five words, 28 bytes, identification 1, time to live 64,
  ICMP) from the destination of the frame to its source with its checksum, an ICMP header with the given type,
  checksum and echo fields.
\<close>

definition answer_header :: "u8 list \<Rightarrow> u8 list \<Rightarrow> u8 list" where
  "answer_header b ck = [0x45, 0, 0, 28, 0, 1, 0, 0, 64, 1] @ ck @ bytes_at 30 4 b @ bytes_at 26 4 b"

definition icmp_answer :: "u8 list \<Rightarrow> u8 \<Rightarrow> u16 \<Rightarrow> u16 \<Rightarrow> u16 \<Rightarrow> u8 list" where
  "icmp_answer b type ck ident seq =
     bytes_at 6 6 b @ bytes_at 0 6 b @ [0x08, 0x00] @
     answer_header b (bytes16 (ip_checksum 0 (answer_header b [0, 0]))) @
     [type, 0] @ bytes16 ck @ bytes16 ident @ bytes16 seq"

lemma network_constants:
  "bytes16 (htons ETHERTYPE_IP) = [0x08, 0x00]" "bytes16 (htons 28) = [0, 28]" "bytes16 (htons 1) = [0, 1]" "bytes16 0 = [0, 0]"
  by (simp_all add: bytes16_def ntohs_def le16_def)

lemma header_bytes:
  assumes "34 \<le> length b"
  shows "ip_bytes (icmp_iphdr (ip_saddr_of b) (ip_daddr_of b)) =
    answer_header b (bytes16 (ip_checksum 0 (answer_header b [0, 0])))"
proof -
  have a: "bytes32 (ip_daddr_of b) = bytes_at 30 4 b" "bytes32 (ip_saddr_of b) = bytes_at 26 4 b"
    using rd32_bytes[of 30 b] rd32_bytes[of 26 b] assms by (simp_all add: ip_daddr_of_def ip_saddr_of_def)
  show ?thesis
    by (simp add: icmp_iphdr_def ip_bytes_def answer_header_def Let_def a network_constants)
qed

text \<open>The fields of the answer.\<close>

lemma answer_fields:
  assumes "34 \<le> length b"
  shows "eth_dhost_of (icmp_answer b type ck ident seq) = eth_shost_of b"
    and "eth_shost_of (icmp_answer b type ck ident seq) = eth_dhost_of b"
    and "ip_saddr_of (icmp_answer b type ck ident seq) = ip_daddr_of b"
    and "ip_daddr_of (icmp_answer b type ck ident seq) = ip_saddr_of b"
    and "sums_to_zero (bytes_at ETH_HLEN IP_HLEN (icmp_answer b type ck ident seq))"
proof -
  have six: "\<exists>x0 x1 x2 x3 x4 x5. xs = [x0, x1, x2, x3, x4, x5]" if "length xs = 6" for xs :: "u8 list"
    using that by (auto simp: length_Suc_conv eval_nat_numeral)
  obtain a0 a1 a2 a3 a4 a5 where m: "bytes_at 6 6 b = [a0, a1, a2, a3, a4, a5]"
    using six[of "bytes_at 6 6 b"] assms by (auto simp: bytes_at_def)
  obtain b0 b1 b2 b3 b4 b5 where n: "bytes_at 0 6 b = [b0, b1, b2, b3, b4, b5]"
    using six[of "bytes_at 0 6 b"] assms by (auto simp: bytes_at_def)
  obtain d0 d1 d2 d3 where d: "bytes_at 30 4 b = [d0, d1, d2, d3]" "rd32 b 30 = le32 d0 d1 d2 d3"
    using assms by (simp add: bytes_at_Suc eval_nat_numeral rd32_def)
  obtain s0 s1 s2 s3 where s: "bytes_at 26 4 b = [s0, s1, s2, s3]" "rd32 b 26 = le32 s0 s1 s2 s3"
    using assms by (simp add: bytes_at_Suc eval_nat_numeral rd32_def)
  obtain c0 c1 where c: "bytes16 (ip_checksum 0 (answer_header b [0, 0])) = [c0, c1]"
    by (simp add: bytes16_def)
  let ?a = "icmp_answer b type ck ident seq"
  have a: "?a = [a0, a1, a2, a3, a4, a5, b0, b1, b2, b3, b4, b5, 0x08, 0x00, 0x45, 0, 0, 28, 0, 1, 0, 0, 64, 1, c0, c1,
      d0, d1, d2, d3, s0, s1, s2, s3] @ [type, 0] @ bytes16 ck @ bytes16 ident @ bytes16 seq"
    unfolding icmp_answer_def c by (simp add: answer_header_def m n d s)
  show "eth_dhost_of ?a = eth_shost_of b" "eth_shost_of ?a = eth_dhost_of b"
    by (simp_all add: a eth_dhost_of_def eth_shost_of_def m n) (simp_all add: bytes_at_def)
  show "ip_saddr_of ?a = ip_daddr_of b" "ip_daddr_of ?a = ip_saddr_of b"
    by (simp_all add: a ip_saddr_of_def ip_daddr_of_def d s) (simp_all add: rd32_def)
  have "bytes_at ETH_HLEN IP_HLEN ?a = answer_header b [c0, c1]"
    unfolding a answer_header_def d s by (simp add: bytes_at_def)
  also have "\<dots> = ip_bytes (icmp_iphdr (ip_saddr_of b) (ip_daddr_of b))"
    using header_bytes[OF assms] by (simp add: c)
  finally show "sums_to_zero (bytes_at ETH_HLEN IP_HLEN ?a)" by (simp add: icmp_iphdr_verifies)
qed

lemma answer_sent:
  assumes "valid_interface i" and "length (payload m) = MAX_LEN" and "b = payload m"
  shows "\<exists>ck. send_icmp_packet (build_ethhdr (eth_dhost_of b) (eth_shost_of b) (htons ETHERTYPE_IP))
      (icmp_iphdr (ip_saddr_of b) (ip_daddr_of b))
      \<lparr>icmp_type = type, icmp_code = 0, icmp_check = 0, echo_id = ident, echo_sequence = seq\<rparr> i
    = Inr (i, icmp_answer b type ck ident seq) \<and>
    sums_to_zero ([type, 0] @ bytes16 ck @ bytes16 ident @ bytes16 seq)"
  using send_icmp_packet_sent[of i "\<lparr>icmp_type = type, icmp_code = 0, icmp_check = 0,
      echo_id = ident, echo_sequence = seq\<rparr>"
      "build_ethhdr (eth_dhost_of b) (eth_shost_of b) (htons ETHERTYPE_IP)"
      "icmp_iphdr (ip_saddr_of b) (ip_daddr_of b)"] assms mac_fields_length[of b]
  by (simp add: build_ethhdr_def ether_bytes_def icmp_bytes_def icmp_answer_def header_bytes MAX_LEN_def network_constants
      eth_dhost_of_def eth_shost_of_def)

lemma error_sent:
  assumes "received_ok m"
  shows "\<exists>ck. send_error type m = Inr (interface m, icmp_answer (payload m) type ck 0 0) \<and>
    sums_to_zero ([type, 0] @ bytes16 ck @ [0, 0, 0, 0])"
  using answer_sent[of "interface m" m "payload m" type 0 0] assms
  by (simp add: received_ok_def send_error_def send_icmp_error_def Let_def bytes16_def)

lemma echo_sent:
  assumes "received_ok m"
  shows "\<exists>ck. reply_echo m = Inr (interface m, icmp_answer (payload m) ICMP_ECHOREPLY ck
      (icmp_id_of (payload m)) (icmp_sequence_of (payload m))) \<and>
    sums_to_zero ([ICMP_ECHOREPLY, 0] @ bytes16 ck @ bytes16 (icmp_id_of (payload m)) @
      bytes16 (icmp_sequence_of (payload m)))"
  using answer_sent[of "interface m" m "payload m" ICMP_ECHOREPLY] assms
  by (simp add: received_ok_def reply_echo_def send_icmp_def Let_def)

text \<open>One step of a reachable router that has a frame to read.\<close>

lemma step_received:
  assumes "reachable env f s" and "env_ok env" and "get_packet ready (r_buf s) = Some m"
  shows "\<exists>tab es a. loaded tab es \<and> r_table s = tab \<and> router_rel tab (s\<lparr>r_buf := m\<rparr>) a \<and>
    spec_ok (routes_of tab) a \<and> s_buf a = m \<and> received_ok m \<and>
    router_step env ready s = router_body env (s\<lparr>r_buf := m\<rparr>) \<and>
    echo_for_router env m = Inr (is_echo env m) \<and>
    request_for_router env m = Inr (is_request env m)"
proof -
  obtain a tab es where a: "loaded tab es" "router_rel tab s a" "spec_ok (routes_of tab) a"
    using reachable_spec[OF assms(1,2)] unfolding spec_of_def by blast
  have "length (payload (r_buf s)) = MAX_LEN" using a(2,3) by (simp add: router_rel_def spec_ok_def)
  note v = get_packet_valid[OF assms(3) this]
  have "echo_for_router env m = Inr (is_echo env m)"
    "request_for_router env m = Inr (is_request env m)"
    using v(1) by (auto simp: echo_for_router_def is_echo_def request_for_router_def is_request_def
        get_interface_ip_def inet_addr_ntoa Let_def)
  moreover have "router_rel tab (s\<lparr>r_buf := m\<rparr>) (a\<lparr>s_buf := m\<rparr>)" by (rule router_rel_buf[OF a(2)])
  moreover have "spec_ok (routes_of tab) (a\<lparr>s_buf := m\<rparr>)" "received_ok m"
    using a(3) v by (simp_all add: spec_ok_def received_ok_def)
  ultimately show ?thesis using a assms(3)
    by (intro exI[of _ tab] exI[of _ es] exI[of _ "a\<lparr>s_buf := m\<rparr>"])
      (simp add: router_rel_def router_step_def)
qed

text \<open>
  C35: an ICMP echo request for the address of the interface it arrived on is answered on that
  interface with exactly the bytes of \<open>icmp_answer\<close>: destination and source of the frame and of the IP packet are
  exchanged, identifier and sequence number are kept, the type is echo reply, and both checksums of the
  answer verify. Nothing else changes.
\<close>

theorem echo_answered:
  assumes "reachable env f s" and "env_ok env" and "get_packet ready (r_buf s) = Some m"
    and "is_echo env m"
  shows "\<exists>ck answer. router_step env ready s = Inr (s\<lparr>r_buf := m\<rparr>, [(interface m, answer)]) \<and>
    answer = icmp_answer (payload m) ICMP_ECHOREPLY ck (icmp_id_of (payload m)) (icmp_sequence_of (payload m)) \<and>
    eth_dhost_of answer = eth_shost_of (payload m) \<and> eth_shost_of answer = eth_dhost_of (payload m) \<and>
    ip_saddr_of answer = ip_daddr_of (payload m) \<and> ip_daddr_of answer = ip_saddr_of (payload m) \<and>
    sums_to_zero (bytes_at ETH_HLEN IP_HLEN answer) \<and>
    sums_to_zero ([ICMP_ECHOREPLY, 0] @ bytes16 ck @ bytes16 (icmp_id_of (payload m)) @
      bytes16 (icmp_sequence_of (payload m)))"
proof -
  have r: "received_ok m" and e: "router_step env ready s = router_body env (s\<lparr>r_buf := m\<rparr>)"
    "echo_for_router env m = Inr True"
    using step_received[OF assms(1-3)] assms(4) by auto
  from echo_sent[OF r] obtain ck where ck: "reply_echo m = Inr (interface m,
      icmp_answer (payload m) ICMP_ECHOREPLY ck (icmp_id_of (payload m)) (icmp_sequence_of (payload m)))"
    "sums_to_zero ([ICMP_ECHOREPLY, 0] @ bytes16 ck @ bytes16 (icmp_id_of (payload m)) @
      bytes16 (icmp_sequence_of (payload m)))" by blast
  have "34 \<le> length (payload m)" using r by (simp add: received_ok_def MAX_LEN_def)
  note fields = answer_fields[OF this]
  show ?thesis
    by (rule exI[of _ ck], rule exI, rule conjI[OF _ conjI[OF refl]]) (use ck(2) in \<open>simp_all add: e router_body_def ck(1) fields Let_def\<close>)
qed

text \<open>
  An ARP request for the address of the interface it arrived on is answered with that
  interface's MAC address, to the asker, in a well formed ARP reply; nothing else changes.
\<close>

theorem arp_request_answered:
  assumes "reachable env f s" and "env_ok env" and "get_packet ready (r_buf s) = Some m"
    and "is_request env m"
  shows "router_step env ready s = Inr (s\<lparr>r_buf := m\<rparr>, [(interface m,
    ether_bytes \<lparr>ether_dhost = arp_sha_of (payload m), ether_shost = if_hwaddr env (interface m),
      ether_type = htons ETHERTYPE_ARP\<rparr> @
    arp_bytes \<lparr>htype = htons ARPHRD_ETHER, ptype = htons 2048, hlen = 6, plen = 4,
      arp_op = htons ARPOP_REPLY, sha = if_hwaddr env (interface m),
      spa = if_addr env (interface m), tha = arp_sha_of (payload m),
      tpa = arp_spa_of (payload m)\<rparr>)])"
proof -
  obtain tab a where s: "received_ok m" "router_step env ready s = router_body env (s\<lparr>r_buf := m\<rparr>)"
    "echo_for_router env m = Inr (is_echo env m)" "request_for_router env m = Inr True"
    using step_received[OF assms(1-3)] assms(4) by auto
  have "\<not> is_echo env m"
    using assms(4) by (auto simp: is_request_def is_echo_def parse_arp_def parse_icmp_def Let_def split: if_splits)
  moreover have "arp_tpa_of (payload m) = if_addr env (interface m)"
    using assms(4) by (simp add: is_request_def Let_def)
  ultimately show ?thesis
    using s assms(2) length_arp_sha[of "payload m"]
    by (simp add: router_body_def reply_arp_def get_interface_mac_def received_ok_def env_ok_def
        send_arp_sent build_ethhdr_def Let_def)
qed

section \<open>Packets in transit\<close>

definition is_transit :: "net_env \<Rightarrow> packet \<Rightarrow> bool" where
  "is_transit env m \<longleftrightarrow> \<not> is_echo env m \<and> \<not> is_request env m \<and> \<not> is_reply m"

lemma step_transit:
  assumes "reachable env f s" and "env_ok env" and "get_packet ready (r_buf s) = Some m"
    and "is_transit env m"
  shows "router_step env ready s = ip_packet env (s\<lparr>r_buf := m\<rparr>)"
  using step_received[OF assms(1-3)] assms(4)
  by (auto simp: is_transit_def router_body_def is_reply_def Let_def)

text \<open>
  Whatever is neither an echo request for the router nor an ARP frame it acts on is first
  tested for its time to live: at 0 or 1 the sender is told (ICMP time exceeded, checksums
  correct) and the packet goes no further, without its checksum having been looked at.
\<close>

lemma ttl_exceeded:
  assumes "reachable env f s" and "env_ok env" and "get_packet ready (r_buf s) = Some m"
    and "is_transit env m" and "ip_ttl_of (payload m) \<le> 1"
  shows "\<exists>ck. router_step env ready s = Inr (s\<lparr>r_buf := m\<rparr>,
      [(interface m, icmp_answer (payload m) ICMP_TIME_EXCEEDED ck 0 0)]) \<and>
    sums_to_zero ([ICMP_TIME_EXCEEDED, 0] @ bytes16 ck @ [0, 0, 0, 0])"
proof -
  have "received_ok m" using step_received[OF assms(1-3)] by blast
  from error_sent[OF this, of ICMP_TIME_EXCEEDED] show ?thesis
    using assms(5) step_transit[OF assms(1-4)] by (auto simp: ip_packet_def Let_def)
qed

text \<open>
  C37: an ARP request for somebody else's address is not dropped: the router handles it as it handles an IP packet,
  whose time to live is the first byte of the asker's MAC address. So an asker whose
  MAC address starts with 0 or 1 is sent an ICMP error.
\<close>

theorem foreign_arp_request_taken_for_ip:
  assumes "reachable env f s" and "env_ok env" and "get_packet ready (r_buf s) = Some m"
    and "parse_arp (payload m) \<noteq> None" and "arp_op_of (payload m) = htons ARPOP_REQUEST"
    and "arp_tpa_of (payload m) \<noteq> if_addr env (interface m)"
  shows "router_step env ready s = ip_packet env (s\<lparr>r_buf := m\<rparr>) \<and>
    ip_ttl_of (payload m) = hd (arp_sha_of (payload m)) \<and>
    (hd (arp_sha_of (payload m)) \<le> 1 \<longrightarrow>
      (\<exists>ck. router_step env ready s = Inr (s\<lparr>r_buf := m\<rparr>,
        [(interface m, icmp_answer (payload m) ICMP_TIME_EXCEEDED ck 0 0)])))"
proof -
  have "received_ok m" using step_received[OF assms(1-3)] by blast
  then have t: "ip_ttl_of (payload m) = hd (arp_sha_of (payload m))"
    by (simp add: received_ok_def MAX_LEN_def ip_ttl_of_def arp_sha_of_def bytes_at_def hd_drop_conv_nth)
  have tr: "is_transit env m"
    using assms(4-6) by (auto simp: is_transit_def is_echo_def is_request_def is_reply_def ntohs_eq_iff
        parse_arp_def parse_icmp_def Let_def split: if_splits)
  have "\<exists>ck. router_step env ready s = Inr (s\<lparr>r_buf := m\<rparr>,
      [(interface m, icmp_answer (payload m) ICMP_TIME_EXCEEDED ck 0 0)])"
    if "hd (arp_sha_of (payload m)) \<le> 1"
    using ttl_exceeded[OF assms(1-3) tr] that t by auto
  then show ?thesis using t step_transit[OF assms(1-3) tr] by simp
qed

text \<open>
  A packet whose IP header does not add up is dropped without a trace.
\<close>

lemma bad_checksum_dropped:
  assumes "reachable env f s" and "env_ok env" and "get_packet ready (r_buf s) = Some m"
    and "is_transit env m" and "1 < ip_ttl_of (payload m)"
    and "\<not> sums_to_zero (bytes_at ETH_HLEN IP_HLEN (payload m))"
  shows "router_step env ready s = Inr (s\<lparr>r_buf := m\<rparr>, [])"
proof -
  have "\<not> ip_ttl_of (payload m) \<le> 1" using assms(5) by simp
  with assms(6) step_transit[OF assms(1-4)] show ?thesis
    by (simp add: ip_packet_def checksum_test Let_def)
qed

section \<open>The aged header\<close>

lemma split_frame:
  assumes "26 \<le> length b"
  shows "b = take 22 b @ [ip_ttl_of b, ip_protocol_of b] @ bytes16 (ip_check_of b) @ drop 26 b"
proof -
  have "b = take 22 b @ bytes_at 22 4 b @ drop (22 + 4) b" by (rule split_bytes_at)
  moreover have "bytes_at 22 4 b = [b ! 22, b ! 23] @ bytes_at 24 2 b"
    using assms by (simp add: bytes_at_Suc eval_nat_numeral)
  moreover have "bytes_at 24 2 b = bytes16 (ip_check_of b)"
    using assms by (simp add: rd16_bytes ip_check_of_def)
  ultimately show ?thesis by (simp add: ip_ttl_of_def ip_protocol_of_def)
qed

lemma age_bytes:
  assumes "26 \<le> length b"
  shows "age b = take 22 b @ [ip_ttl_of b - 1, ip_protocol_of b] @ bytes16 (ip_check_of b + 1) @ drop 26 b"
proof -
  let ?b1 = "put_at 22 [ip_ttl_of b - 1] b"
  have c: "ip_check_of ?b1 = ip_check_of b" using assms by (simp add: ip_check_of_def rd16_put_other)
  have "take 24 ?b1 = take 22 b @ [ip_ttl_of b - 1, ip_protocol_of b]"
    using assms by (simp add: put_at_def ip_protocol_of_def take_Suc_conv_app_nth hd_drop_conv_nth
        take_Suc numeral_2_eq_2)
  moreover have "drop 26 ?b1 = drop 26 b" using assms by (simp add: put_at_def)
  ultimately show ?thesis
    by (simp add: age_def c calculate_checksum_plus_1 Let_def put_at_def[of 24])
qed

lemma bytes_at_mid:
  "length xs = i \<Longrightarrow> j \<le> i \<Longrightarrow> length ys = 4 \<Longrightarrow> i - j + 4 \<le> n \<Longrightarrow>
   bytes_at j n (xs @ ys @ zs) = bytes_at j (i - j) xs @ ys @ take (n - (i - j + 4)) zs"
  by (simp add: bytes_at_def take_append)

lemma header_sum:
  assumes "34 \<le> length b"
  shows "be16_sum (bytes_at ETH_HLEN IP_HLEN (take 22 b @ [t, p] @ bytes16 c @ drop 26 b))
    = be16_sum (bytes_at 14 8 (take 22 b)) + (256 * unat t + unat p) + unat (ntohs c)
      + be16_sum (take 8 (drop 26 b))"
proof -
  have "bytes_at ETH_HLEN IP_HLEN (take 22 b @ ([t, p] @ bytes16 c) @ drop 26 b)
      = bytes_at 14 8 (take 22 b) @ ([t, p] @ bytes16 c) @ take 8 (drop 26 b)"
    using assms by (subst bytes_at_mid[of _ 22]) simp_all
  moreover have "be16_sum (bytes_at 14 8 (take 22 b) @ [t, p] @ bytes16 c @ take 8 (drop 26 b))
      = be16_sum (bytes_at 14 8 (take 22 b)) + (be16_sum [t, p] + (unat (ntohs c) + be16_sum (take 8 (drop 26 b))))"
    using assms by (subst be16_sum_append, simp, subst be16_sum_append, simp, subst be16_sum_append)
      (simp_all add: be16_sum_bytes16)
  ultimately show ?thesis by simp
qed

lemma cong_cancel: "cong (a + k) (b + k) \<Longrightarrow> cong a b"
proof -
  assume "cong (a + k) (b + k)"
  from cong_add[OF this cong_refl[of "65534 * k"]]
  have "cong (a + 65535 * k) (b + 65535 * k)" by (simp add: algebra_simps)
  then show ?thesis using cong_drop cong_sym cong_trans by blast
qed

lemma not_cong_256: "\<not> cong 256 0"
  by (simp add: cong_def)

text \<open>
  C15: after \<open>ttl--\<close> the incrementally updated checksum makes a header that verified verify
  again exactly when the old checksum field was not \<open>0xffff\<close>.
\<close>

theorem aged_header_verifies:
  assumes "34 \<le> length b" and "0 < ip_ttl_of b" and "sums_to_zero (bytes_at ETH_HLEN IP_HLEN b)"
  shows "sums_to_zero (bytes_at ETH_HLEN IP_HLEN (age b)) \<longleftrightarrow> ip_check_of b \<noteq> 0xffff"
proof -
  let ?c = "ip_check_of b" and ?t = "ip_ttl_of b"
  let ?old = "be16_sum (bytes_at ETH_HLEN IP_HLEN b)"
  let ?new = "be16_sum (bytes_at ETH_HLEN IP_HLEN (age b))"
  have l: "26 \<le> length b" using assms(1) by simp
  have "unat ?t \<noteq> 0" using assms(2) by (simp add: unat_eq_0 word_neq_0_conv)
  moreover have "unat (?t - 1) = unat ?t - 1" using assms(2) by (intro unat_minus_one) auto
  ultimately have t: "256 * unat ?t = 256 * unat (?t - 1) + 256" by linarith
  have old: "?old = be16_sum (bytes_at ETH_HLEN IP_HLEN
      (take 22 b @ [ip_ttl_of b, ip_protocol_of b] @ bytes16 (ip_check_of b) @ drop 26 b))"
    using arg_cong[OF split_frame[OF l], of "\<lambda>x. be16_sum (bytes_at ETH_HLEN IP_HLEN x)"] .
  have sum: "?new + (unat (ntohs ?c) + 256) = ?old + unat (ntohs (?c + 1))"
    unfolding age_bytes[OF l] old header_sum[OF assms(1)] using t by linarith
  have old0: "cong ?old 0" using assms(3) by (simp add: sums_to_zero_def cong_def)
  have new: "sums_to_zero (bytes_at ETH_HLEN IP_HLEN (age b)) \<longleftrightarrow> cong ?new 0"
    by (simp add: sums_to_zero_def cong_def)
  show ?thesis
  proof (cases "?c = 0xffff")
    case True
    have "unat (ntohs ?c) = 65535" "unat (ntohs (?c + 1)) = 0"
      unfolding True unat_ntohs by simp_all
    then have eq: "?new + 256 + 65535 * 1 = ?old" using sum by linarith
    have "\<not> cong ?new 0"
    proof
      assume "cong ?new 0"
      then have "cong (?new + 256) (0 + 256)" by (rule cong_add[OF _ cong_refl])
      then have 1: "cong (0 + 256) (?new + 256)" by (rule cong_sym)
      have 2: "cong (?new + 256) ?old"
        using cong_sym[OF cong_drop[of "?new + 256" 1]] unfolding eq .
      show False using cong_trans[OF cong_trans[OF 1 2] old0] not_cong_256 by simp
    qed
    then show ?thesis using True new by simp
  next
    case False
    have "cong (?old + unat (ntohs (?c + 1))) (0 + (unat (ntohs ?c) + 256))"
      by (rule cong_add[OF old0 ntohs_plus_1[OF False]])
    then have "cong (?new + (unat (ntohs ?c) + 256)) (0 + (unat (ntohs ?c) + 256))"
      unfolding sum .
    then have "cong ?new 0" by (rule cong_cancel)
    then show ?thesis using False new by simp
  qed
qed

section \<open>Forwarding\<close>

text \<open>The bytes of a forwarded frame in terms of those received.\<close>

definition forwarded :: "u8 list \<Rightarrow> u8 list \<Rightarrow> u8 list \<Rightarrow> u8 list" where
  "forwarded dmac smac b =
     dmac @ smac @ bytes_at 12 10 b @ [ip_ttl_of b - 1, ip_protocol_of b] @
     bytes16 (ip_check_of b + 1) @ drop 26 b"

lemma forwarded_payload:
  assumes "length b = MAX_LEN" and "length dmac = 6" and "length smac = 6"
  shows "put_at 0 dmac (put_at 6 smac (age b)) = forwarded dmac smac b"
proof -
  have l: "26 \<le> length b" using assms(1) by (simp add: MAX_LEN_def)
  have "put_at 6 smac (age b) = take 6 b @ smac @ bytes_at 12 10 b @
      [ip_ttl_of b - 1, ip_protocol_of b] @ bytes16 (ip_check_of b + 1) @ drop 26 b"
    using l assms(3) by (simp add: put_at_def age_bytes bytes_at_def take_drop min_def)
  then show ?thesis using l assms(2) by (simp add: put_at_def forwarded_def)
qed

lemma transit_spec:
  assumes reach: "reachable env f s" and env: "env_ok env"
    and get: "get_packet ready (r_buf s) = Some m" and tr: "is_transit env m"
    and ttl: "1 < ip_ttl_of (payload m)" and ok: "sums_to_zero (bytes_at ETH_HLEN IP_HLEN (payload m))"
  shows "\<exists>tab es a. loaded tab es \<and> r_table s = tab \<and> router_rel tab (s\<lparr>r_buf := m\<rparr>) a \<and>
    spec_ok (routes_of tab) a \<and> s_buf a = m \<and> received_ok m \<and>
    ip_packet env (s\<lparr>r_buf := m\<rparr>) = router_step env ready s \<and>
    \<not> ip_ttl_of (payload m) \<le> 1 \<and> ip_checksum 18 (bytes_at ETH_HLEN IP_HLEN (payload m)) = 0 \<and>
    ip_daddr_of (age (payload m)) = ip_daddr_of (payload m)"
proof -
  obtain tab es a where a: "loaded tab es" "r_table s = tab" "router_rel tab (s\<lparr>r_buf := m\<rparr>) a"
    "spec_ok (routes_of tab) a" "s_buf a = m" "received_ok m"
    using step_received[OF reach env get] by blast
  have "ip_daddr_of (age (payload m)) = ip_daddr_of (payload m)"
    using a(6) by (intro daddr_age) (simp add: received_ok_def MAX_LEN_def)
  moreover have "\<not> ip_ttl_of (payload m) \<le> 1" using ttl by simp
  ultimately show ?thesis
    using a step_transit[OF reach env get tr] ok checksum_test by metis
qed

text \<open>
  C2: a packet in transit whose header verifies, with a route and a known next hop, is sent
  out of the route's interface with that interface's MAC address as source, the next hop's as
  destination, one less time to live and the updated checksum; every other byte, and the
  length, is as it was received. Queue and tables stay as they were.
\<close>

theorem packet_forwarded:
  assumes "reachable env f s" and "env_ok env" and "get_packet ready (r_buf s) = Some m"
    and "is_transit env m" and "1 < ip_ttl_of (payload m)"
    and "sums_to_zero (bytes_at ETH_HLEN IP_HLEN (payload m))"
    and "get_best_route (r_table s) (ip_daddr_of (payload m)) = Inr (Some r)"
    and "valid_interface (out_if r)" and "get_mac (r_arp s) (next_hop r) = Inr (Some e)"
    and "new = forwarded (mac e) (if_hwaddr env (out_if r)) (payload m)"
  shows "router_step env ready s =
    Inr (s\<lparr>r_buf := m\<lparr>payload := new\<rparr>\<rparr>, [(out_if r, take (len m) new)])"
proof -
  obtain tab es a where a: "router_rel tab (s\<lparr>r_buf := m\<rparr>) a" "spec_ok (routes_of tab) a"
    "received_ok m" "router_step env ready s = ip_packet env (s\<lparr>r_buf := m\<rparr>)"
    "\<not> ip_ttl_of (payload m) \<le> 1" "ip_checksum 18 (bytes_at ETH_HLEN IP_HLEN (payload m)) = 0"
    "ip_daddr_of (age (payload m)) = ip_daddr_of (payload m)"
    using transit_spec[OF assms(1-6)] by metis
  have "lookup_mac a (next_hop r) = Some e"
    using router_rel_mac[OF a(1), of "next_hop r"] assms(9) by simp
  then have l: "length (mac e) = 6" by (rule lookup_mac_length[OF a(2)])
  have f: "put_at 0 (mac e) (put_at 6 (if_hwaddr env (out_if r)) (age (payload m))) = new"
    using a(3) l assms(2,8,10) by (simp add: received_ok_def env_ok_def forwarded_payload)
  show ?thesis
    using a(4-7) assms(7-9) f
    by (simp add: ip_packet_def get_interface_mac_def send_packet_def Let_def)
qed

text \<open>
  A packet in transit without a route is answered with destination unreachable.
\<close>

lemma no_route_unreachable:
  assumes "reachable env f s" and "env_ok env" and "get_packet ready (r_buf s) = Some m"
    and "is_transit env m" and "1 < ip_ttl_of (payload m)"
    and "sums_to_zero (bytes_at ETH_HLEN IP_HLEN (payload m))"
    and "get_best_route (r_table s) (ip_daddr_of (payload m)) = Inr None"
  shows "\<exists>ck. router_step env ready s = Inr (s\<lparr>r_buf := m\<lparr>payload := age (payload m)\<rparr>\<rparr>,
      [(interface m, icmp_answer (age (payload m)) ICMP_DEST_UNREACH ck 0 0)]) \<and>
    sums_to_zero ([ICMP_DEST_UNREACH, 0] @ bytes16 ck @ [0, 0, 0, 0])"
proof -
  let ?m1 = "m\<lparr>payload := age (payload m)\<rparr>"
  have a: "received_ok m" "router_step env ready s = ip_packet env (s\<lparr>r_buf := m\<rparr>)"
    "\<not> ip_ttl_of (payload m) \<le> 1" "ip_checksum 18 (bytes_at ETH_HLEN IP_HLEN (payload m)) = 0"
    "ip_daddr_of (age (payload m)) = ip_daddr_of (payload m)"
    using transit_spec[OF assms(1-6)] by metis+
  have "received_ok ?m1" using a(1) by (simp add: received_ok_def MAX_LEN_def)
  from error_sent[OF this, of ICMP_DEST_UNREACH] show ?thesis
    using a(2-5) assms(7) by (auto simp: ip_packet_def Let_def)
qed

text \<open>The request broadcast for the next hop of a route.\<close>

definition arp_query :: "net_env \<Rightarrow> rtable_entry \<Rightarrow> u8 list" where
  "arp_query env r =
     (let hw = if_hwaddr env (out_if r)
      in ether_bytes \<lparr>ether_dhost = broadcast, ether_shost = hw, ether_type = htons ETHERTYPE_ARP\<rparr> @
         arp_bytes \<lparr>htype = htons ARPHRD_ETHER, ptype = htons 2048, hlen = 6, plen = 4,
           arp_op = htons ARPOP_REQUEST, sha = hw, spa = if_addr env (out_if r),
           tha = broadcast, tpa = next_hop r\<rparr>)"

lemma spec_ip_waits:
  assumes "s_buf a = m" and "\<not> ip_ttl_of (payload m) \<le> 1"
    and "sums_to_zero (bytes_at ETH_HLEN IP_HLEN (payload m))"
    and "route (ip_daddr_of (payload m)) = Some r" and "lookup_mac a (next_hop r) = None"
    and "valid_interface (out_if r)" and "env_ok env"
    and "m2 = m\<lparr>payload := put_at 6 (if_hwaddr env (out_if r)) (age (payload m))\<rparr>"
  shows "spec_ip env route a =
    Inr (a\<lparr>s_buf := m2, s_wait := s_wait a @ [m2]\<rparr>, [(out_if r, arp_query env r)])"
proof -
  have "length (if_hwaddr env (out_if r)) = 6" using assms(6,7) by (simp add: env_ok_def)
  with assms show ?thesis
    by (simp add: spec_ip_def spec_wait_def send_arp_sent build_ethhdr_def broadcast_def
        arp_query_def Let_def)
qed

lemma spec_step_reply:
  assumes "is_reply m" and "s_buf a = m" and "s_wait a = [pk]"
    and "route (ip_daddr_of (payload pk)) = Some r" and "valid_interface (out_if r)"
    and "lookup_mac a (next_hop r) = None" and "arp_spa_of (payload m) = next_hop r"
  shows "spec_body env route a = Inr (a\<lparr>s_wait := [],
      s_arp := s_arp a @ [\<lparr>ip = next_hop r, mac = arp_sha_of (payload m)\<rparr>]\<rparr>,
    [(out_if r, take (len pk) (put_at 0 (arp_sha_of (payload m)) (payload pk)))])"
  using assms is_reply_only[of m env]
  by (simp add: spec_body_def spec_arp_reply_def spec_flush_def lookup_mac_def find_append
      set_dhost_def send_packet_def Let_def)

text \<open>
  C5: a packet in transit whose next hop's MAC address is unknown is delivered once the next
  hop answers, when no other packet waits before it and the answer is the next frame that arrives (behind another
  packet it shares the fate of that one: \<open>router_refines_spec\<close> and \<open>router_faults\<close>). The router first broadcasts an ARP request for the next hop on the route's
  interface; when the reply arrives next, it sends the packet that waited, with exactly the
  bytes that immediate forwarding would have sent, and neither the queue nor the packet heap
  keeps anything of it.
\<close>

theorem waiting_packet_delivered:
  assumes reach: "reachable env f s" and env: "env_ok env"
    and get: "get_packet ready (r_buf s) = Some m" and tr: "is_transit env m"
    and ttl: "1 < ip_ttl_of (payload m)" and ok: "sums_to_zero (bytes_at ETH_HLEN IP_HLEN (payload m))"
    and r: "get_best_route (r_table s) (ip_daddr_of (payload m)) = Inr (Some r)"
    and v: "valid_interface (out_if r)" and miss: "get_mac (r_arp s) (next_hop r) = Inr None"
    and empty: "queue_empty (fst (r_queue s))"
    and hw: "hw = if_hwaddr env (out_if r)"
    and get2: "get_packet ready2 (m\<lparr>payload := put_at 6 hw (age (payload m))\<rparr>) = Some m2"
    and reply: "is_reply m2" "arp_spa_of (payload m2) = next_hop r"
  shows "\<exists>s'. router_run env [ready, ready2] s = Inr (s',
      [(out_if r, arp_query env r), (out_if r, take (len m) (forwarded (arp_sha_of (payload m2)) hw (payload m)))]) \<and>
    queue_empty (fst (r_queue s')) \<and> (\<forall>p. h_read (r_heap s') p = Inl UseAfterFree)"
proof -
  obtain tab es a where a: "loaded tab es" "r_table s = tab" "router_rel tab (s\<lparr>r_buf := m\<rparr>) a"
    "spec_ok (routes_of tab) a" "s_buf a = m" "received_ok m"
    "router_step env ready s = ip_packet env (s\<lparr>r_buf := m\<rparr>)" "\<not> ip_ttl_of (payload m) \<le> 1"
    using transit_spec[OF reach env get tr ttl ok] by metis
  let ?m2 = "m\<lparr>payload := put_at 6 hw (age (payload m))\<rparr>"
  let ?a2 = "a\<lparr>s_buf := ?m2, s_wait := [?m2]\<rparr>"
  have rt: "routes_of tab (ip_daddr_of (payload m)) = Some r"
    using best_route_routes[OF a(1)] r a(2) by simp
  have mac: "lookup_mac a (next_hop r) = None"
    using router_rel_mac[OF a(3), of "next_hop r"] miss by simp
  have w: "s_wait a = []"
    using a(3) empty by (auto simp: router_rel_def heap_holds_def queue_empty_repr)
  have l: "length (payload m) = MAX_LEN" "length hw = 6"
    using a(6) env v hw by (simp_all add: received_ok_def env_ok_def)
  have "spec_ip env (routes_of tab) a = Inr (?a2, [(out_if r, arp_query env r)])"
    using spec_ip_waits[where route = "routes_of tab", OF a(5,8) ok rt mac v env] w hw by simp
  moreover have "res_rel tab (router_step env ready s) (spec_ip env (routes_of tab) a)"
    unfolding a(7) using ip_packet_rel[OF a(1,3)] l(1) a(5) by simp
  ultimately obtain s1 where s1: "router_step env ready s = Inr (s1, [(out_if r, arp_query env r)])" "router_rel tab s1 ?a2"
    by (auto simp: res_rel_def)
  have ok2: "spec_ok (routes_of tab) ?a2"
    using a(4,6) forwarded_fields[OF l] rt by (simp add: spec_ok_def waiting_ok_def received_ok_def)
  have "res_rel tab (router_step env ready2 s1) (spec_step env (routes_of tab) ready2 ?a2)"
    by (rule router_step_rel[OF a(1) s1(2) ok2])
  moreover have "spec_step env (routes_of tab) ready2 ?a2 = Inr (?a2\<lparr>s_buf := m2, s_wait := [],
        s_arp := s_arp a @ [\<lparr>ip = next_hop r, mac = arp_sha_of (payload m2)\<rparr>]\<rparr>,
      [(out_if r, take (len m) (put_at 0 (arp_sha_of (payload m2)) (payload ?m2)))])"
    using spec_step_reply[OF reply(1), of "?a2\<lparr>s_buf := m2\<rparr>" ?m2 "routes_of tab" r env]
      get2 rt v mac reply(2) forwarded_fields(1)[OF l]
    by (simp add: spec_step_def lookup_mac_def)
  ultimately obtain s2 where s2: "router_step env ready2 s1 = Inr (s2,
      [(out_if r, take (len m) (put_at 0 (arp_sha_of (payload m2)) (payload ?m2)))])"
    "router_rel tab s2 (?a2\<lparr>s_buf := m2, s_wait := [],
        s_arp := s_arp a @ [\<lparr>ip = next_hop r, mac = arp_sha_of (payload m2)\<rparr>]\<rparr>)"
    by (auto simp: res_rel_def)
  have "length (payload m2) = MAX_LEN"
    using get_packet_valid(2)[OF get2] forwarded_fields(2)[OF l] by simp
  then have "put_at 0 (arp_sha_of (payload m2)) (payload ?m2) = forwarded (arp_sha_of (payload m2)) hw (payload m)"
    using forwarded_payload[OF l(1) _ l(2)] length_arp_sha by simp
  moreover have "queue_empty (fst (r_queue s2))" "\<forall>p. h_read (r_heap s2) p = Inl UseAfterFree"
    using s2(2) queue_empty_repr[of "r_queue s2" "[]"] by (auto simp: router_rel_def heap_holds_def)
  ultimately show ?thesis using s1 s2 by simp
qed


section \<open>A router at work\<close>

definition example_env :: net_env where
  "example_env = \<lparr>if_addr = (\<lambda>i. le32 192 168 (word_of_int i) 1),
     if_hwaddr = (\<lambda>i. [2, 0, 0, 0, 0, word_of_int i])\<rparr>"

definition example_file :: string where
  "example_file = concat (map row_text example_rows)"

definition example_buf :: packet where
  "example_buf = \<lparr>len = 0, payload = replicate MAX_LEN 0, interface = 0\<rparr>"

text \<open>An Ethernet frame with an IP header: time to live, protocol, checksum, addresses, data.\<close>

definition ip_frame :: "u8 \<Rightarrow> u8 \<Rightarrow> u8 \<times> u8 \<Rightarrow> u8 list \<Rightarrow> u8 list \<Rightarrow> u8 list" where
  "ip_frame t p c addrs data =
     [2, 0, 0, 0, 0, 0, 4, 0, 0, 0, 0, 9, 8, 0, 69, 0, 0, 20, 0, 1, 0, 0, t, p, fst c, snd c] @
     addrs @ data"

text \<open>An ARP frame: operation, sender MAC address, sender and target addresses.\<close>

definition arp_frame :: "u8 \<Rightarrow> u8 list \<Rightarrow> u8 list \<Rightarrow> u8 list \<Rightarrow> u8 list" where
  "arp_frame op hw src dst =
     [2, 0, 0, 0, 0, 0, 4, 0, 0, 0, 0, 9, 8, 6, 0, 1, 8, 0, 6, 4, 0, op] @ hw @ src @
     [0, 0, 0, 0, 0, 0] @ dst"

definition on :: "int \<Rightarrow> u8 list \<Rightarrow> int \<Rightarrow> u8 list option" where
  "on i d = (\<lambda>j. if j = i then Some d else None)"

lemma env_ok_example: "env_ok example_env"
  by (simp add: env_ok_def example_env_def)

lemma get_packet_on:
  assumes "valid_interface i" and "length d \<le> MAX_LEN"
  shows "get_packet (on i d) m =
    Some \<lparr>len = length d, payload = put_at 0 d (payload m), interface = i\<rparr>"
proof -
  have i: "i = 0 \<or> i = 1 \<or> i = 2" using assms(1) by (auto simp: valid_interface_def ROUTER_NUM_INTERFACES_def)
  have "[0..2] = [0, 1, 2 :: int]" by (simp add: upto_rec1)
  then have "find (\<lambda>j. on i d j \<noteq> None) [0..ROUTER_NUM_INTERFACES - 1] = Some i"
    using i by (auto simp: ROUTER_NUM_INTERFACES_def on_def)
  then show ?thesis using assms(2)
    by (simp add: get_packet_def socket_receive_message_def on_def Let_def)
qed

lemma example_start:
  "\<exists>s. router_start example_file example_buf = Inr s \<and> reachable example_env example_file s \<and>
     r_buf s = example_buf \<and> queue_empty (fst (r_queue s)) \<and> get_mac (r_arp s) i = Inr None \<and>
     (\<forall>dest. \<exists>r. get_best_route (r_table s) dest = Inr r \<and> longest_match example_rows dest r)"
proof -
  obtain tab where tab: "parse_rtable example_file = Inr tab" "loaded tab example_rows"
    using parse_rtable_loaded[OF example_rows_text] unfolding example_file_def by blast
  define s where "s = \<lparr>r_table = tab, r_arp = init_arptable, r_queue = (queue_create, []),
    r_heap = [], r_buf = example_buf\<rparr>"
  have st: "router_start example_file example_buf = Inr s" by (simp add: router_start_def tab(1) s_def)
  then have "reachable example_env example_file s"
    by (rule reachable.start) (simp add: example_buf_def)
  moreover have "comparable example_rows" "\<forall>e \<in> set example_rows. contiguous (mask e)"
    using example_network network_rows_comparable by blast+
  then have "\<exists>r. get_best_route tab dest = Inr r \<and> longest_match example_rows dest r" for dest
    using get_best_route_result[OF tab(2)] by blast
  moreover have "get_mac init_arptable i = Inr None" using get_mac_find[OF ar.init_repr] by simp
  ultimately show ?thesis using st
    by (intro exI[of _ s]) (simp add: s_def queue_empty_def queue_create_def)
qed

lemma example_route:
  "longest_match example_rows (le32 10 1 2 3) r \<Longrightarrow> r = Some (example_rows ! 1)"
  "longest_match example_rows (le32 11 1 2 3) r \<Longrightarrow> r = None"
proof -
  have v: "le32 10 0 0 0 = 10" "le32 10 1 0 0 = 266" "le32 10 1 2 3 = 50462986" "le32 11 1 2 3 = 50462987"
    by (simp_all add: le32_def)
  have p: "prefix_len (example_rows ! 0) = 8" "prefix_len (example_rows ! 1) = 16"
    by (simp_all add: example_rows_def get_prefix_length_mask)
  have m: "matches e (le32 10 1 2 3)" "\<not> matches e (le32 11 1 2 3)" if "e \<in> set example_rows" for e
    using that by (auto simp: example_rows_def matches_def subnet_masks v)
  have s: "set example_rows = {example_rows ! 0, example_rows ! 1}" by (simp add: example_rows_def)
  show "r = Some (example_rows ! 1)" if "longest_match example_rows (le32 10 1 2 3) r"
    using that m(1) p by (auto simp: longest_match_def s split: option.splits)
  show "r = None" if "longest_match example_rows (le32 11 1 2 3) r"
    using that m(2) by (auto simp: longest_match_def split: option.splits)
qed


definition received :: "int \<Rightarrow> u8 list \<Rightarrow> packet \<Rightarrow> packet" where
  "received i d m = \<lparr>len = length d, payload = put_at 0 d (payload m), interface = i\<rparr>"

lemma get_packet_received:
  "valid_interface i \<Longrightarrow> length d \<le> MAX_LEN \<Longrightarrow> get_packet (on i d) m = Some (received i d m)"
  by (simp add: get_packet_on received_def)

lemma payload_received: "payload (received i d m) = d @ drop (length d) (payload m)"
  by (simp add: received_def put_at_def)

lemma valid_012: "valid_interface 0" "valid_interface 1" "valid_interface 2"
  by (simp_all add: valid_interface_def ROUTER_NUM_INTERFACES_def)

definition echo_data :: "u8 list" where
  "echo_data = ip_frame 64 1 (0, 0) [192, 168, 0, 9, 192, 168, 0, 1] [8, 0, 0, 0, 1, 2, 3, 4]"

definition transit_data :: "u8 \<Rightarrow> u8 \<Rightarrow> u8 list" where
  "transit_data t net = ip_frame t 17 (248 - t - net, 35) [192, 168, 0, 9, net, 1, 2, 3] [7]"

definition reply_data :: "u8 list" where
  "reply_data = arp_frame 2 [6, 0, 0, 0, 0, 7] [192, 168, 1, 2] [192, 168, 2, 1]"

definition request_data :: "u8 list \<Rightarrow> u8 list" where
  "request_data dst = arp_frame 1 [0, 0, 0, 0, 0, 9] [192, 168, 0, 9] dst"

lemmas data_defs = echo_data_def transit_data_def reply_data_def request_data_def
  ip_frame_def arp_frame_def

lemma rd16_nth: "rd16 b i = le16 (b ! i) (b ! (i + 1))"
  by (simp add: rd16_def)

lemma type_values: "le16 0 8 = ETHERTYPE_IP" "le16 6 8 = ETHERTYPE_ARP"
  "htons ARPOP_REPLY = le16 0 2" "htons ARPOP_REQUEST = le16 0 1" "le16 0 1 \<noteq> le16 0 2"
proof -
  have "1 = le16 1 0" "2 = le16 2 0" by (simp_all add: le16_def)
  then show "htons ARPOP_REPLY = le16 0 2" "htons ARPOP_REQUEST = le16 0 1" by (metis ntohs_le16)+
qed (simp_all add: le16_def)

lemma interface_received: "interface (received i d m) = i" "len (received i d m) = length d"
  by (simp_all add: received_def)

lemma echo_data_is_echo: "is_echo example_env (received 0 echo_data m)"
  by (simp add: is_echo_def parse_icmp_def payload_received data_defs field_defs rd16_def rd32_def
      type_values interface_received example_env_def Let_def)

lemma request_data_is_request: "is_request example_env (received 0 (request_data [192, 168, 0, 1]) m)"
  by (simp add: is_request_def parse_arp_def payload_received data_defs field_defs rd16_def rd32_def
      type_values interface_received example_env_def Let_def)

lemma reply_data_is_reply: "is_reply (received 2 reply_data m)"
  "arp_spa_of (payload (received 2 reply_data m)) = le32 192 168 1 2"
  by (simp_all add: is_reply_def parse_arp_def payload_received data_defs field_defs rd16_def rd32_def
      type_values Let_def)

lemma transit_data_is_transit:
  "is_transit example_env (received 0 (transit_data t net) m)"
  "ip_ttl_of (payload (received 0 (transit_data t net) m)) = t"
  "ip_daddr_of (payload (received 0 (transit_data t net) m)) = le32 net 1 2 3"
  by (simp_all add: is_transit_def is_echo_def is_request_def is_reply_def parse_arp_def parse_icmp_def
      payload_received data_defs field_defs rd16_def rd32_def type_values Let_def)

lemma transit_data_verifies:
  "sums_to_zero (bytes_at ETH_HLEN IP_HLEN (payload (received 0 (transit_data 64 10) m)))"
  "sums_to_zero (bytes_at ETH_HLEN IP_HLEN (payload (received 0 (transit_data 64 11) m)))"
  by (simp_all add: payload_received bytes_at_def data_defs sums_to_zero_def)


section \<open>Instances\<close>

lemma short_data: "length echo_data \<le> MAX_LEN" "length (transit_data t n) \<le> MAX_LEN"
  "length reply_data \<le> MAX_LEN" "length (request_data [a, b, c, d]) \<le> MAX_LEN"
  by (simp_all add: data_defs MAX_LEN_def)

lemmas get_data = get_packet_received[OF valid_012(1) short_data(1)]
  get_packet_received[OF valid_012(1) short_data(2)]
  get_packet_received[OF valid_012(3) short_data(3)]
  get_packet_received[OF valid_012(1) short_data(4)]

lemma router_refines_spec_witness:
  "\<exists>s tab. router_start example_file example_buf = Inr s \<and>
     res_rel tab (router_run example_env [on 0 echo_data, on 2 reply_data] s)
       (spec_run example_env (routes_of tab) [on 0 echo_data, on 2 reply_data] (spec_start example_buf))"
proof -
  obtain s where s: "router_start example_file example_buf = Inr s" using example_start by blast
  have "length (payload example_buf) = MAX_LEN" by (simp add: example_buf_def)
  from router_refines_spec[OF s this env_ok_example, of "[on 0 echo_data, on 2 reply_data]"] s
  show ?thesis by blast
qed

lemma router_invariant_witness:
  "\<exists>s ps. reachable example_env example_file s \<and> queue_repr (r_queue s) ps \<and> distinct ps"
  using example_start router_invariant[OF _ env_ok_example] by metis

lemma router_faults_witness:
  "\<exists>s. reachable example_env example_file s \<and>
     (\<forall>ready. router_step example_env ready s \<noteq> Inl NullDeref)"
proof -
  obtain s where s: "reachable example_env example_file s" using example_start by blast
  have r: "rtable_rows example_file = Inr example_rows"
    unfolding example_file_def by (rule example_rows_text)
  have v: "\<forall>e \<in> set example_rows. valid_interface (out_if e)"
    by (simp add: example_rows_def valid_012)
  have "router_step example_env ready s \<noteq> Inl NullDeref" for ready
    using router_faults[OF s env_ok_example r v, of ready NullDeref] by simp
  with s show ?thesis by blast
qed

lemma echo_answered_witness:
  "\<exists>s s' ck. reachable example_env example_file s \<and>
     router_step example_env (on 0 echo_data) s =
       Inr (s', [(0, icmp_answer (payload (r_buf s')) ICMP_ECHOREPLY ck
         (icmp_id_of (payload (r_buf s'))) (icmp_sequence_of (payload (r_buf s'))))])"
proof -
  obtain s where s: "reachable example_env example_file s" using example_start by blast
  from echo_answered[OF s env_ok_example get_data(1) echo_data_is_echo] show ?thesis
    using s by (fastforce simp: interface_received)
qed

lemma arp_request_answered_witness:
  "\<exists>s s' fr. reachable example_env example_file s \<and>
     router_step example_env (on 0 (request_data [192, 168, 0, 1])) s = Inr (s', [(0, fr)])"
proof -
  obtain s where s: "reachable example_env example_file s" using example_start by blast
  from arp_request_answered[OF s env_ok_example get_data(4) request_data_is_request] show ?thesis
    using s by (auto simp: interface_received)
qed

lemma foreign_arp_request_taken_for_ip_witness:
  "\<exists>s s' ck. reachable example_env example_file s \<and>
     router_step example_env (on 0 (request_data [192, 168, 0, 77])) s =
       Inr (s', [(0, icmp_answer (payload (r_buf s')) ICMP_TIME_EXCEEDED ck 0 0)])"
proof -
  obtain s where s: "reachable example_env example_file s" using example_start by blast
  let ?m = "received 0 (request_data [192, 168, 0, 77]) (r_buf s)"
  have "le32 192 168 0 77 \<noteq> le32 192 168 0 1" by (simp add: le32_def)
  then have "parse_arp (payload ?m) \<noteq> None" "arp_op_of (payload ?m) = htons ARPOP_REQUEST"
    "arp_tpa_of (payload ?m) \<noteq> if_addr example_env (interface ?m)" and mac: "hd (arp_sha_of (payload ?m)) \<le> 1"
    by (simp_all add: parse_arp_def payload_received data_defs field_defs rd16_def rd32_def
        type_values interface_received example_env_def bytes_at_def)
  from mp[OF conjunct2[OF conjunct2[OF foreign_arp_request_taken_for_ip[OF s env_ok_example get_data(4) this(1-3)]]] mac]
  show ?thesis using s by (fastforce simp: interface_received)
qed

lemma aged_header_verifies_witness:
  "sums_to_zero (bytes_at ETH_HLEN IP_HLEN (age (transit_data 64 10)))"
  using aged_header_verifies[of "transit_data 64 10"] 
  by (simp add: data_defs sums_to_zero_def bytes_at_def field_defs rd16_def le16_def)

lemma example_interface: "out_if (example_rows ! Suc 0) = 2" "next_hop (example_rows ! Suc 0) = le32 192 168 1 2"
  by (simp_all add: example_rows_def)

text \<open>
  C25: what the router refuses in transit. A packet whose time to live is 0 or 1 is answered with
  ICMP time exceeded, without its checksum having been looked at; one whose header does not add up is
  dropped without a trace; one without a route is aged and answered with destination unreachable.
\<close>

theorem transit_refused:
  assumes "reachable env f s" and "env_ok env" and "get_packet ready (r_buf s) = Some m" and "is_transit env m"
  shows "(ip_ttl_of (payload m) \<le> 1 \<longrightarrow>
      (\<exists>ck. router_step env ready s = Inr (s\<lparr>r_buf := m\<rparr>,
          [(interface m, icmp_answer (payload m) ICMP_TIME_EXCEEDED ck 0 0)]) \<and>
        sums_to_zero ([ICMP_TIME_EXCEEDED, 0] @ bytes16 ck @ [0, 0, 0, 0]))) \<and>
    (1 < ip_ttl_of (payload m) \<and> \<not> sums_to_zero (bytes_at ETH_HLEN IP_HLEN (payload m)) \<longrightarrow>
      router_step env ready s = Inr (s\<lparr>r_buf := m\<rparr>, [])) \<and>
    (1 < ip_ttl_of (payload m) \<and> sums_to_zero (bytes_at ETH_HLEN IP_HLEN (payload m)) \<and>
      get_best_route (r_table s) (ip_daddr_of (payload m)) = Inr None \<longrightarrow>
      (\<exists>ck. router_step env ready s = Inr (s\<lparr>r_buf := m\<lparr>payload := age (payload m)\<rparr>\<rparr>,
          [(interface m, icmp_answer (age (payload m)) ICMP_DEST_UNREACH ck 0 0)]) \<and>
        sums_to_zero ([ICMP_DEST_UNREACH, 0] @ bytes16 ck @ [0, 0, 0, 0])))"
  using ttl_exceeded[OF assms] bad_checksum_dropped[OF assms] no_route_unreachable[OF assms] by blast

lemma transit_refused_witness:
  "(\<exists>s s' ck. reachable example_env example_file s \<and> router_step example_env (on 0 (transit_data 1 10)) s =
      Inr (s', [(0, icmp_answer (payload (r_buf s')) ICMP_TIME_EXCEEDED ck 0 0)])) \<and>
   (\<exists>s s'. reachable example_env example_file s \<and> router_step example_env (on 0 (transit_data 64 254)) s = Inr (s', [])) \<and>
   (\<exists>s s' fr. reachable example_env example_file s \<and> router_step example_env (on 0 (transit_data 64 11)) s = Inr (s', [(0, fr)]))"
proof (intro conjI)
  obtain s where s: "reachable example_env example_file s"
    "\<And>dest. \<exists>r. get_best_route (r_table s) dest = Inr r \<and> longest_match example_rows dest r"
    using example_start by blast
  note refused = transit_refused[OF s(1) env_ok_example get_data(2) transit_data_is_transit(1)]
  show "\<exists>s s' ck. reachable example_env example_file s \<and> router_step example_env (on 0 (transit_data 1 10)) s =
      Inr (s', [(0, icmp_answer (payload (r_buf s')) ICMP_TIME_EXCEEDED ck 0 0)])"
    using conjunct1[OF refused[of 1 10]] s(1) by (fastforce simp: interface_received transit_data_is_transit(2))
  have "\<not> sums_to_zero (bytes_at ETH_HLEN IP_HLEN (payload (received 0 (transit_data 64 254) (r_buf s))))"
    by (simp add: payload_received bytes_at_def data_defs sums_to_zero_def)
  then show "\<exists>s s'. reachable example_env example_file s \<and> router_step example_env (on 0 (transit_data 64 254)) s = Inr (s', [])"
    using conjunct1[OF conjunct2[OF refused[of 64 254]]] s(1) by (auto simp: transit_data_is_transit(2))
  have "get_best_route (r_table s) (le32 11 1 2 3) = Inr None"
    using s(2)[of "le32 11 1 2 3"] example_route(2) by auto
  then show "\<exists>s s' fr. reachable example_env example_file s \<and> router_step example_env (on 0 (transit_data 64 11)) s = Inr (s', [(0, fr)])"
    using conjunct2[OF conjunct2[OF refused[of 64 11]]] transit_data_verifies(2) s(1)
    by (simp add: transit_data_is_transit(2,3) interface_received) blast
qed

lemma waiting_packet_delivered_witness:
  "\<exists>s s' fr. reachable example_env example_file s \<and>
     router_run example_env [on 0 (transit_data 64 10), on 2 reply_data] s =
       Inr (s', [(2, arp_query example_env (example_rows ! 1)), (2, fr)])"
proof -
  obtain s where s: "reachable example_env example_file s" "queue_empty (fst (r_queue s))"
    "get_mac (r_arp s) (le32 192 168 1 2) = Inr None"
    "\<And>dest. \<exists>r. get_best_route (r_table s) dest = Inr r \<and> longest_match example_rows dest r"
    using example_start[of "le32 192 168 1 2"] by blast
  have "get_best_route (r_table s) (le32 10 1 2 3) = Inr (Some (example_rows ! 1))"
    using s(4)[of "le32 10 1 2 3"] example_route(1) by auto
  from waiting_packet_delivered[OF s(1) env_ok_example get_data(2) transit_data_is_transit(1) _
      transit_data_verifies(1), of "example_rows ! 1", OF _ _ _ _ s(2) refl get_data(3) reply_data_is_reply(1)] this
  show ?thesis using s(1,3)
    by (simp add: transit_data_is_transit(2,3) interface_received example_interface valid_012
        reply_data_is_reply(2) del: router_run.simps) blast
qed


lemma reply_recorded:
  assumes "reachable env f s" and "env_ok env" and "get_packet ready (r_buf s) = Some m"
    and "is_reply m" and "queue_empty (fst (r_queue s))"
    and "get_mac (r_arp s) (arp_spa_of (payload m)) = Inr None"
  shows "\<exists>s'. router_step env ready s = Inr (s', []) \<and> reachable env f s' \<and>
    r_table s' = r_table s \<and> r_buf s' = m \<and>
    get_mac (r_arp s') (arp_spa_of (payload m)) =
      Inr (Some \<lparr>ip = arp_spa_of (payload m), mac = arp_sha_of (payload m)\<rparr>)"
proof -
  let ?new = "\<lparr>ip = arp_spa_of (payload m), mac = arp_sha_of (payload m)\<rparr>"
  obtain tab es a where a: "router_rel tab (s\<lparr>r_buf := m\<rparr>) a" "s_buf a = m" "received_ok m"
    "router_step env ready s = router_body env (s\<lparr>r_buf := m\<rparr>)" "loaded tab es" "r_table s = tab"
    using step_received[OF assms(1-3)] by blast
  have w: "s_wait a = []"
    using a(1) assms(5) by (auto simp: router_rel_def heap_holds_def queue_empty_repr)
  have none: "lookup_mac a (ip ?new) = None"
    using router_rel_mac[OF a(1), of "ip ?new"] assms(6) by simp
  have "spec_body env (routes_of tab) a = Inr (a\<lparr>s_arp := s_arp a @ [?new]\<rparr>, [])"
    using assms(4) is_reply_only[OF assms(4)] a(2) w
    by (simp add: spec_body_def spec_arp_reply_def spec_flush_def Let_def)
  moreover have "res_rel tab (router_step env ready s) (spec_body env (routes_of tab) a)"
    using router_body_rel[OF a(5,1)] a(2,3,4) by (simp add: received_ok_def)
  ultimately obtain s' where s': "router_step env ready s = Inr (s', [])"
    "router_rel tab s' (a\<lparr>s_arp := s_arp a @ [?new]\<rparr>)"
    by (auto simp: res_rel_def)
  moreover have "get_mac (r_arp s') (ip ?new) = Inr (Some ?new)"
    using router_rel_mac[OF s'(2), of "ip ?new"] none by (simp add: lookup_mac_def find_append)
  ultimately show ?thesis using a reachable.step[OF assms(1) s'(1)]
    by (auto simp: router_rel_def)
qed

lemma packet_forwarded_witness:
  "\<exists>s s' fr. reachable example_env example_file s \<and>
     router_step example_env (on 0 (transit_data 64 10)) s = Inr (s', [(2, fr)])"
proof -
  obtain s0 where s0: "reachable example_env example_file s0" "queue_empty (fst (r_queue s0))"
    "get_mac (r_arp s0) (le32 192 168 1 2) = Inr None"
    "\<And>dest. \<exists>r. get_best_route (r_table s0) dest = Inr r \<and> longest_match example_rows dest r"
    using example_start[of "le32 192 168 1 2"] by blast
  obtain s e where s: "reachable example_env example_file s" "r_table s = r_table s0"
    "get_mac (r_arp s) (le32 192 168 1 2) = Inr (Some e)"
    using reply_recorded[OF s0(1) env_ok_example get_data(3) reply_data_is_reply(1) s0(2)] s0(3)
    by (auto simp: reply_data_is_reply(2))
  have "get_best_route (r_table s) (le32 10 1 2 3) = Inr (Some (example_rows ! 1))"
    using s0(4)[of "le32 10 1 2 3"] example_route(1) s(2) by auto
  from packet_forwarded[OF s(1) env_ok_example get_data(2) transit_data_is_transit(1) _
      transit_data_verifies(1), of "example_rows ! 1" e] this
  show ?thesis using s(1,3)
    by (auto simp: transit_data_is_transit(2,3) interface_received example_interface valid_012)
qed

text \<open>
  The fault is real: from start-up with a two-row table, two packets to the same network
  followed by the ARP reply of their next hop make the router use freed memory.
\<close>

theorem router_uses_freed_packet:
  "\<exists>s. router_start example_file example_buf = Inr s \<and>
     router_run example_env [on 0 (transit_data 64 10), on 0 (transit_data 64 10), on 2 reply_data] s
       = Inl UseAfterFree"
proof -
  obtain s where s: "router_start example_file example_buf = Inr s"
    "\<And>dest. \<exists>r. get_best_route (r_table s) dest = Inr r \<and> longest_match example_rows dest r"
    using example_start by blast
  have "length (payload example_buf) = MAX_LEN" by (simp add: example_buf_def)
  from router_start_rel[OF s(1) this] obtain tab es where
    tab: "loaded tab es" "router_rel tab s (spec_start example_buf)"
      "spec_ok (routes_of tab) (spec_start example_buf)" by blast
  let ?r = "example_rows ! 1" and ?ev = "on 0 (transit_data 64 10)"
  have rt: "routes_of tab (le32 10 1 2 3) = Some ?r"
    using s(2)[of "le32 10 1 2 3"] example_route(1) tab(2) best_route_routes[OF tab(1)]
    by (auto simp: router_rel_def)
  have waits: "\<exists>m2. ip_daddr_of (payload m2) = le32 10 1 2 3 \<and>
      spec_step example_env (routes_of tab) ?ev a =
        Inr (a\<lparr>s_buf := m2, s_wait := s_wait a @ [m2]\<rparr>, [(2, arp_query example_env ?r)])"
    if a: "s_arp a = []" "length (payload (s_buf a)) = MAX_LEN" for a
  proof -
    let ?m = "received 0 (transit_data 64 10) (s_buf a)"
    have "length (payload ?m) = MAX_LEN" using a(2) short_data(2)[of 64 10] by (simp add: payload_received)
    then have d: "ip_daddr_of (put_at 6 (if_hwaddr example_env 2) (age (payload ?m))) = le32 10 1 2 3"
      using forwarded_fields(1)[of "payload ?m" "if_hwaddr example_env 2"]
      by (simp add: example_env_def transit_data_is_transit(3))
    have "spec_step example_env (routes_of tab) ?ev a = spec_ip example_env (routes_of tab) (a\<lparr>s_buf := ?m\<rparr>)"
      using transit_data_is_transit(1)[of 64 10 "s_buf a"]
      by (simp add: spec_step_def get_data(2) spec_body_def is_transit_def Let_def)
    also have "\<dots> = Inr (a\<lparr>s_buf := ?m\<lparr>payload := put_at 6 (if_hwaddr example_env 2) (age (payload ?m))\<rparr>,
        s_wait := s_wait a @ [?m\<lparr>payload := put_at 6 (if_hwaddr example_env 2) (age (payload ?m))\<rparr>]\<rparr>,
        [(2, arp_query example_env ?r)])"
      using spec_ip_waits[of "a\<lparr>s_buf := ?m\<rparr>" ?m "routes_of tab" ?r example_env] rt a(1)
        transit_data_verifies(1) env_ok_example
      by (simp add: transit_data_is_transit(2,3) example_interface valid_012 lookup_mac_def not_le)
    finally show ?thesis using d by (intro exI) (rule conjI, simp_all)
  qed
  let ?a0 = "spec_start example_buf"
  obtain m1 where m1: "ip_daddr_of (payload m1) = le32 10 1 2 3"
    "spec_step example_env (routes_of tab) ?ev ?a0 =
      Inr (?a0\<lparr>s_buf := m1, s_wait := [m1]\<rparr>, [(2, arp_query example_env ?r)])"
    using waits[of ?a0] by (auto simp: spec_start_def example_buf_def)
  let ?a1 = "?a0\<lparr>s_buf := m1, s_wait := [m1]\<rparr>"
  have "length (payload m1) = MAX_LEN"
    using spec_step_ok[OF tab(3) env_ok_example m1(2)] by (simp add: spec_ok_def)
  then obtain m2 where m2: "spec_step example_env (routes_of tab) ?ev ?a1 =
      Inr (?a1\<lparr>s_buf := m2, s_wait := [m1, m2]\<rparr>, [(2, arp_query example_env ?r)])"
    using waits[of ?a1] by (auto simp: spec_start_def)
  have "spec_step example_env (routes_of tab) (on 2 reply_data) (?a1\<lparr>s_buf := m2, s_wait := [m1, m2]\<rparr>)
      = Inl UseAfterFree"
    using is_reply_only[OF reply_data_is_reply(1)] rt m1(1)
    by (simp add: spec_step_def get_data(3) spec_body_def spec_arp_reply_def spec_flush_def
        reply_data_is_reply example_interface lookup_mac_def spec_start_def send_packet_def
        valid_012 Let_def)
  then have "spec_run example_env (routes_of tab) [?ev, ?ev, on 2 reply_data] ?a0 = Inl UseAfterFree"
    using m1(2) m2 by simp
  moreover have "res_rel tab (router_run example_env [?ev, ?ev, on 2 reply_data] s)
      (spec_run example_env (routes_of tab) [?ev, ?ev, on 2 reply_data] ?a0)"
    by (rule router_run_rel[OF tab(1) env_ok_example tab(2,3)])
  ultimately have "router_run example_env [?ev, ?ev, on 2 reply_data] s = Inl UseAfterFree"
    by (simp add: res_rel_def del: spec_run.simps router_run.simps)
  with s(1) show ?thesis by blast
qed

end
