(* ===== verification/Http_Buffer.thy ===== *)
theory Http_Buffer
  imports C_Text Growable "HOL-Library.Sublist"
begin

text \<open>
  The byte buffer of \<open>PCom3/buffer.c\<close>: a heap block that grows by \<open>realloc\<close>, filled by
  \<open>memcpy\<close> and searched for a string, with the contract its users rely on as the locale
  \<open>accumulator\<close>.
\<close>

section \<open>buffer.c\<close>

record buffer =
  data :: "char slots option"
  bsize :: nat

definition buffer_init :: buffer where
  "buffer_init = \<lparr>data = None, bsize = 0\<rparr>"

definition buffer_destroy :: "buffer \<Rightarrow> buffer" where
  "buffer_destroy b = b\<lparr>data := None, bsize := 0\<rparr>"

definition buffer_is_empty :: "buffer \<Rightarrow> bool" where
  "buffer_is_empty b \<longleftrightarrow> data b = None"

text \<open>\<open>memcpy\<close> into a block, from an array that holds \<open>d\<close>.\<close>

definition mem_copy :: "nat \<Rightarrow> string \<Rightarrow> char slots \<Rightarrow> char slots res" where
  "mem_copy off d es =
     (if off + length d \<le> length es then Inr (put_at off (map Some d) es) else Inl OutOfBounds)"

text \<open>
  \<open>realloc\<close> to no bytes frees the block and gives a null pointer, as in glibc; \<open>calloc\<close> of no bytes does not. Copying no
  bytes to a null pointer is harmless.
\<close>

definition buffer_add :: "buffer \<Rightarrow> string \<Rightarrow> buffer res" where
  "buffer_add b d =
     (let n = bsize b + length d;
          block = (case data b of
                     Some es \<Rightarrow> if n = 0 then None else Some (realloc_array n es)
                   | None \<Rightarrow> Some (replicate (length d) (Some (CHR 0x00))))
      in case block of
           None \<Rightarrow> if d = [] then Inr (b\<lparr>data := None, bsize := n\<rparr>) else Inl NullDeref
         | Some es \<Rightarrow> bindE (mem_copy (bsize b) d es) (\<lambda>es'. Inr (b\<lparr>data := Some es', bsize := n\<rparr>)))"

text \<open>
  The inner loop over \<open>j\<close>: how many characters agree, compared through \<open>g\<close> (nothing or
  \<open>tolower\<close>). The buffer's pointer is dereferenced only when there is something to compare.
\<close>

fun agree_loop :: "(char \<Rightarrow> char) \<Rightarrow> char slots option \<Rightarrow> nat \<Rightarrow> string \<Rightarrow> nat \<Rightarrow> nat res" where
  "agree_loop g es i [] j = Inr j"
| "agree_loop g es i (c # cs) j =
     bindE (deref es) (\<lambda>xs.
     bindE (array_load (i + j) xs) (\<lambda>x.
     if g x \<noteq> g c then Inr j else agree_loop g es i cs (j + 1)))"

text \<open>The outer loop, \<open>k\<close> positions left; the position is returned as an \<open>int\<close>.\<close>

definition as_int :: "nat \<Rightarrow> int" where
  "as_int n = signed_take_bit 31 (int n)"

fun find_loop :: "(char \<Rightarrow> char) \<Rightarrow> buffer \<Rightarrow> string \<Rightarrow> nat \<Rightarrow> nat \<Rightarrow> int res" where
  "find_loop g b d i 0 = Inr (- 1)"
| "find_loop g b d i (Suc k) =
     bindE (agree_loop g (data b) i d 0) (\<lambda>j.
     if j = length d then Inr (as_int i) else find_loop g b d (i + 1) k)"

definition buffer_find :: "buffer \<Rightarrow> string \<Rightarrow> int res" where
  "buffer_find b d =
     (if length d > bsize b then Inr (- 1)
      else find_loop (\<lambda>c. c) b d 0 (bsize b - length d + 1))"

definition tolower :: "char \<Rightarrow> char" where
  "tolower c =
     (if CHR ''A'' \<le> c \<and> c \<le> CHR ''Z'' then char_of ((of_char c :: nat) + 32) else c)"

definition buffer_find_insensitive :: "buffer \<Rightarrow> string \<Rightarrow> int res" where
  "buffer_find_insensitive b d =
     (if length d > bsize b then Inr (- 1)
      else find_loop tolower b d 0 (bsize b - length d + 1))"

section \<open>What the buffer represents\<close>

definition buffer_repr :: "buffer \<Rightarrow> string \<Rightarrow> bool" where
  "buffer_repr b xs \<longleftrightarrow>
     bsize b = length xs \<and>
     (case data b of None \<Rightarrow> xs = [] | Some es \<Rightarrow> es = map Some xs)"

text \<open>The first position at which one string occurs in another, up to \<open>g\<close>.\<close>

definition occurs_at :: "(char \<Rightarrow> char) \<Rightarrow> string \<Rightarrow> string \<Rightarrow> nat \<Rightarrow> bool" where
  "occurs_at g d xs i \<longleftrightarrow> i + length d \<le> length xs \<and> map g (take (length d) (drop i xs)) = map g d"

definition first_occurrence :: "(char \<Rightarrow> char) \<Rightarrow> string \<Rightarrow> string \<Rightarrow> nat option" where
  "first_occurrence g d xs = find (occurs_at g d xs) [0..<length xs + 1]"

lemma find_upt: "find P [0..<n] = Some i \<longleftrightarrow> i < n \<and> P i \<and> (\<forall>j < i. \<not> P j)"
proof -
  have "find P [0..<n] = Some i \<longleftrightarrow>
      (\<exists>k < n. P ([0..<n] ! k) \<and> i = [0..<n] ! k \<and> (\<forall>j < k. \<not> P ([0..<n] ! j)))"
    by (simp add: find_Some_iff)
  also have "\<dots> \<longleftrightarrow> (\<exists>k < n. P k \<and> i = k \<and> (\<forall>j < k. \<not> P j))"
    by (intro ex_cong1) auto
  finally show ?thesis by auto
qed

lemma first_occurrence_Some:
  "first_occurrence g d xs = Some i \<longleftrightarrow>
     occurs_at g d xs i \<and> (\<forall>j < i. \<not> occurs_at g d xs j)"
  unfolding first_occurrence_def find_upt by (auto simp: occurs_at_def)

lemma first_occurrence_None:
  "first_occurrence g d xs = None \<longleftrightarrow> (\<forall>i. \<not> occurs_at g d xs i)"
  by (auto simp: first_occurrence_def find_None_iff occurs_at_def)

definition find_result :: "nat option \<Rightarrow> int" where
  "find_result r = (case r of None \<Rightarrow> - 1 | Some i \<Rightarrow> as_int i)"

lemma as_int_small: "n < 2147483648 \<Longrightarrow> as_int n = int n"
  by (simp add: as_int_def signed_take_bit_int_eq_self)

lemma buffer_init_repr: "buffer_repr buffer_init []"
  by (simp add: buffer_repr_def buffer_init_def)

lemma buffer_add_repr:
  assumes "buffer_repr b xs"
  shows "\<exists>b'. buffer_add b d = Inr b' \<and> buffer_repr b' (xs @ d)"
proof (cases "data b")
  case None
  then have "xs = []" "bsize b = 0" using assms by (simp_all add: buffer_repr_def)
  with None show ?thesis
    by (simp add: buffer_add_def mem_copy_def put_at_def buffer_repr_def Let_def)
next
  case (Some es)
  then have "es = map Some xs" "bsize b = length xs" using assms by (simp_all add: buffer_repr_def)
  with Some show ?thesis
    by (simp add: buffer_add_def mem_copy_def put_at_def buffer_repr_def realloc_array_def Let_def)
qed


lemma agree_loop_result:
  assumes "i + j + length d \<le> length xs"
  shows "\<exists>n. agree_loop g (Some (map Some xs)) i d j = Inr (j + n) \<and> n \<le> length d \<and>
    (n = length d \<longleftrightarrow> map g (take (length d) (drop (i + j) xs)) = map g d)"
  using assms
proof (induction d arbitrary: j)
  case (Cons c cs)
  have lt: "i + j < length xs" using Cons.prems by simp
  then have ld: "array_load (i + j) (map Some xs) = Inr (xs ! (i + j))" by (simp add: array_load_def)
  have dr: "take (length (c # cs)) (drop (i + j) xs) =
      xs ! (i + j) # take (length cs) (drop (i + Suc j) xs)"
    using lt by (simp add: Cons_nth_drop_Suc[symmetric])
  show ?case
  proof (cases "g (xs ! (i + j)) = g c")
    case True
    obtain n where "agree_loop g (Some (map Some xs)) i cs (j + 1) = Inr (j + 1 + n)" "n \<le> length cs"
      "n = length cs \<longleftrightarrow> map g (take (length cs) (drop (i + (j + 1)) xs)) = map g cs"
      using Cons.IH[of "j + 1"] Cons.prems by auto
    with True ld dr show ?thesis by (intro exI[of _ "Suc n"]) auto
  next
    case False
    with ld dr show ?thesis by (intro exI[of _ 0]) auto
  qed
qed auto

lemma agree_loop_repr:
  assumes "buffer_repr b xs" and "i + length d \<le> length xs"
  shows "\<exists>n. agree_loop g (data b) i d 0 = Inr n \<and> (n = length d \<longleftrightarrow> occurs_at g d xs i)"
proof (cases "data b")
  case None
  then have "d = []" using assms by (simp add: buffer_repr_def)
  with assms show ?thesis by (simp add: occurs_at_def)
next
  case (Some es)
  then have "data b = Some (map Some xs)" using assms by (simp add: buffer_repr_def)
  with agree_loop_result[of i 0 d xs g] assms(2) show ?thesis by (auto simp: occurs_at_def)
qed

lemma find_loop_repr:
  assumes "buffer_repr b xs"
  shows "i + k + length d \<le> length xs + 1 \<Longrightarrow>
    find_loop g b d i k = Inr (find_result (find (occurs_at g d xs) [i..<i + k]))"
proof (induction k arbitrary: i)
  case (Suc k)
  obtain n where n: "agree_loop g (data b) i d 0 = Inr n" "n = length d \<longleftrightarrow> occurs_at g d xs i"
    using agree_loop_repr[OF assms, of i d g] Suc.prems by auto
  have "[i..<i + Suc k] = i # [i + 1..<i + 1 + k]" by (simp add: upt_rec)
  with n Suc.IH[of "i + 1"] Suc.prems show ?case by (simp add: find_result_def)
qed (simp add: find_result_def)

lemma find_beyond:
  assumes "length d \<le> length xs"
  shows "find (occurs_at g d xs) [0..<length xs - length d + 1] = first_occurrence g d xs"
proof (cases "first_occurrence g d xs")
  case None
  then have "\<forall>i. \<not> occurs_at g d xs i" unfolding first_occurrence_None .
  then have "find (occurs_at g d xs) [0..<length xs - length d + 1] = None"
    unfolding find_None_iff by blast
  with None show ?thesis by (simp only:)
next
  case (Some i)
  then have "occurs_at g d xs i" "\<forall>j < i. \<not> occurs_at g d xs j"
    unfolding first_occurrence_Some by blast+
  moreover from this(1) have "i < length xs - length d + 1" unfolding occurs_at_def by linarith
  ultimately have "find (occurs_at g d xs) [0..<length xs - length d + 1] = Some i"
    unfolding find_upt by blast
  with Some show ?thesis by (simp only:)
qed

lemma first_occurrence_long: "length xs < length d \<Longrightarrow> first_occurrence g d xs = None"
  by (simp add: first_occurrence_None occurs_at_def)

lemma buffer_find_repr:
  assumes "buffer_repr b xs"
  shows "buffer_find b d = Inr (find_result (first_occurrence (\<lambda>c. c) d xs))"
    and "buffer_find_insensitive b d = Inr (find_result (first_occurrence tolower d xs))"
  using find_loop_repr[OF assms, of 0 "length xs - length d + 1" d] assms
    first_occurrence_long[of xs d] find_beyond[of d xs]
  by (auto simp: buffer_find_def buffer_find_insensitive_def buffer_repr_def find_result_def)

section \<open>The contract\<close>

text \<open>
  What a reader of a stream needs of its buffer: bytes are only ever added at the end, and a
  search gives the first occurrence in what has been added.
\<close>

locale accumulator =
  fixes init :: 's
    and add :: "'s \<Rightarrow> string \<Rightarrow> 's res"
    and search :: "(char \<Rightarrow> char) \<Rightarrow> 's \<Rightarrow> string \<Rightarrow> int res"
    and repr :: "'s \<Rightarrow> string \<Rightarrow> bool"
  assumes init_repr: "repr init []"
    and add_repr: "repr s xs \<Longrightarrow> \<exists>s'. add s d = Inr s' \<and> repr s' (xs @ d)"
    and search_repr: "repr s xs \<Longrightarrow> g \<in> {(\<lambda>c. c), tolower} \<Longrightarrow>
      search g s d = Inr (find_result (first_occurrence g d xs))"
begin

fun add_all :: "'s \<Rightarrow> string list \<Rightarrow> 's res" where
  "add_all s [] = Inr s"
| "add_all s (d # ds) = bindE (add s d) (\<lambda>s'. add_all s' ds)"

lemma add_all_repr: "repr s xs \<Longrightarrow> \<exists>s'. add_all s ds = Inr s' \<and> repr s' (xs @ concat ds)"
proof (induction ds arbitrary: s xs)
  case (Cons d ds)
  obtain s1 where "add s d = Inr s1" "repr s1 (xs @ d)" using add_repr[OF Cons.prems] by blast
  with Cons.IH[of s1 "xs @ d"] show ?case by simp
qed auto

text \<open>How the bytes were split does not matter to a search.\<close>

lemma search_chunks:
  assumes "g \<in> {(\<lambda>c. c), tolower}"
  shows "\<exists>s. add_all init ds = Inr s \<and>
    search g s d = Inr (find_result (first_occurrence g d (concat ds)))"
  using add_all_repr[OF init_repr, of ds] search_repr[OF _ assms] by auto

end

definition buffer_search :: "(char \<Rightarrow> char) \<Rightarrow> buffer \<Rightarrow> string \<Rightarrow> int res" where
  "buffer_search g = (if g = (\<lambda>c. c) then buffer_find else buffer_find_insensitive)"

lemma tolower_not_id: "tolower \<noteq> (\<lambda>c. c)"
proof
  assume "tolower = (\<lambda>c. c)"
  then have "tolower CHR ''A'' = CHR ''A''" by (rule fun_cong)
  then have "(of_char (tolower CHR ''A'') :: nat) = of_char CHR ''A''" by (rule arg_cong)
  then show False by (simp add: tolower_def less_eq_char_def)
qed

interpretation bf: accumulator buffer_init buffer_add buffer_search buffer_repr
proof
  show "buffer_repr buffer_init []" by (rule buffer_init_repr)
  show "\<exists>s'. buffer_add s d = Inr s' \<and> buffer_repr s' (xs @ d)" if "buffer_repr s xs" for s xs d
    by (rule buffer_add_repr[OF that])
  show "buffer_search g s d = Inr (find_result (first_occurrence g d xs))"
    if "buffer_repr s xs" "g \<in> {(\<lambda>c. c), tolower}" for s xs g d
    using buffer_find_repr[OF that(1)] that(2) tolower_not_id by (auto simp: buffer_search_def)
qed

text \<open>An occurrence stays the first one when more bytes arrive.\<close>

lemma occurs_at_append: "i + length d \<le> length xs \<Longrightarrow> occurs_at g d (xs @ ys) i \<longleftrightarrow> occurs_at g d xs i"
  by (simp add: occurs_at_def)

lemma first_occurrence_append:
  "first_occurrence g d xs = Some i \<Longrightarrow> first_occurrence g d (xs @ ys) = Some i"
  unfolding first_occurrence_Some by (auto simp: occurs_at_append occurs_at_def)

lemma first_occurrence_prefix:
  assumes "first_occurrence g d (xs @ ys) = Some i" and "i + length d \<le> length xs"
  shows "first_occurrence g d xs = Some i"
  using assms unfolding first_occurrence_Some by (auto simp: occurs_at_append)

text \<open>
  C38: bytes added to a new buffer in any number of pieces are searched as if they had come at
  once: both searches answer with the first position at which the text occurs (up to the case
  of letters for the second), or -1, and never read outside the block.
\<close>

theorem buffer_finds_first:
  "\<exists>b. bf.add_all buffer_init ds = Inr b \<and>
     buffer_find b d = Inr (find_result (first_occurrence (\<lambda>c. c) d (concat ds))) \<and>
     buffer_find_insensitive b d = Inr (find_result (first_occurrence tolower d (concat ds)))"
  using bf.add_all_repr[OF bf.init_repr, of ds] buffer_find_repr by auto

end
