(* ===== verification/Http_Helpers.thy ===== *)
theory Http_Helpers
  imports Http_Buffer
begin

text \<open>
  The connection helpers of \<open>PCom3/helpers.c\<close>: building a message line by line in a buffer of
  fixed size, writing it to the socket, reading a response until it is complete, and finding
  the JSON text in it.
\<close>

section \<open>Constants and C strings\<close>

definition BUFLEN :: nat where "BUFLEN = 4096"
definition LINELEN :: nat where "LINELEN = 1000"

definition CRLF :: string where "CRLF = [CHR 0x0D, CHR 0x0A]"
definition HEADER_TERMINATOR :: string where "HEADER_TERMINATOR = CRLF @ CRLF"
definition CONTENT_LENGTH :: string where "CONTENT_LENGTH = ''Content-Length: ''"

text \<open>\<open>strcat\<close> into an array of \<open>n\<close> characters, one of them for the terminating NUL.\<close>

definition c_strcat :: "nat \<Rightarrow> string \<Rightarrow> string \<Rightarrow> string res" where
  "c_strcat n s t = (if length s + length t < n then Inr (s @ t) else Inl OutOfBounds)"

definition compute_message :: "string \<Rightarrow> string \<Rightarrow> string res" where
  "compute_message message line =
     bindE (c_strcat BUFLEN message line) (\<lambda>m. c_strcat BUFLEN m CRLF)"

fun strstr :: "string \<Rightarrow> string \<Rightarrow> string option" where
  "strstr hay needle =
     (if prefix needle hay then Some hay
      else (case hay of [] \<Rightarrow> None | c # cs \<Rightarrow> strstr cs needle))"

declare strstr.simps [simp del]

definition basic_extract_json_response :: "string \<Rightarrow> string option" where
  "basic_extract_json_response str = strstr str [CHR ''{'', CHR 0x22]"

definition basic_extract_json_array_response :: "string \<Rightarrow> string option" where
  "basic_extract_json_array_response str =
     (if strstr str [CHR ''['', CHR ''{'', CHR 0x22] \<noteq> None
      then strstr str [CHR ''['', CHR ''{'', CHR 0x22] else strstr str ''[]'')"

section \<open>Sending\<close>

text \<open>
  The kernel decides how much each \<open>write\<close> takes: \<open>w k\<close> for the \<open>k\<close>-th call, negative when it
  fails, which ends the program (\<open>None\<close>). The result is what has been written.
\<close>

function send_loop :: "(nat \<Rightarrow> int) \<Rightarrow> nat \<Rightarrow> string \<Rightarrow> nat \<Rightarrow> string option" where
  "send_loop w k message sent =
     (let bytes = min (w k) (int (length message) - int sent)
      in if bytes < 0 then None
         else if bytes = 0 then Some (take sent message)
         else if int sent + bytes < int (length message)
              then send_loop w (k + 1) message (sent + nat bytes)
              else Some (take (sent + nat bytes) message))"
  by pat_completeness auto
termination
  by (relation "measure (\<lambda>(w, k, message, sent). length message - sent)") auto

declare send_loop.simps [simp del]

definition send_to_server :: "(nat \<Rightarrow> int) \<Rightarrow> string \<Rightarrow> string option" where
  "send_to_server w message = send_loop w 0 message 0"

section \<open>Receiving\<close>

text \<open>
  The socket is the list of pieces in which the bytes arrive; \<open>read\<close> takes from one piece, and
  the end of the list, or an empty piece, is the end of the connection. A failing \<open>read\<close> ends
  the program and is not modelled.
\<close>

type_synonym socket = "string list"

fun sock_read :: "nat \<Rightarrow> socket \<Rightarrow> string \<times> socket" where
  "sock_read n [] = ([], [])"
| "sock_read n (c # cs) =
     (if c = [] then ([], [])
      else if length c \<le> n then (c, cs) else (take n c, drop n c # cs))"

text \<open>
  \<open>strtol (p, NULL, 10)\<close> on memory that need not contain a NUL: reading goes on until a
  character stops it, past the end of the block if need be. \<open>to_int32\<close> cuts the value to the range of \<open>long\<close> first
  and then to an \<open>int\<close>.
\<close>

fun mem_skip_space :: "char slots \<Rightarrow> char slots res" where
  "mem_skip_space [] = Inl OutOfBounds"
| "mem_skip_space (None # r) = Inl UninitRead"
| "mem_skip_space (Some c # r) = (if isspace c then mem_skip_space r else Inr (Some c # r))"

fun mem_digits :: "nat \<Rightarrow> char slots \<Rightarrow> nat res" where
  "mem_digits acc [] = Inl OutOfBounds"
| "mem_digits acc (None # r) = Inl UninitRead"
| "mem_digits acc (Some c # r) =
     (if isdigit c then mem_digits (acc * 10 + the (digit_val c)) r else Inr acc)"

definition mem_strtol :: "char slots \<Rightarrow> int res" where
  "mem_strtol p =
     bindE (mem_skip_space p) (\<lambda>q.
     if hd q = Some (CHR ''-'') then bindE (mem_digits 0 (tl q)) (\<lambda>v. Inr (to_int32 (- int v)))
     else if hd q = Some (CHR ''+'') then bindE (mem_digits 0 (tl q)) (\<lambda>v. Inr (to_int32 (int v)))
     else bindE (mem_digits 0 q) (\<lambda>v. Inr (to_int32 (int v))))"

lemma sock_read_less:
  "sock_read n ss = (bytes, ss') \<Longrightarrow> bytes \<noteq> [] \<Longrightarrow> length (concat ss') < length (concat ss)"
  by (cases "(n, ss)" rule: sock_read.cases) (auto split: if_splits)

text \<open>
  The first loop: until the end of the header has been seen together with a content length.
  The result is the buffer, \<open>header_end\<close>, \<open>content_length\<close> and the rest of the socket.
\<close>

function header_loop :: "socket \<Rightarrow> buffer \<Rightarrow> int \<Rightarrow> (buffer \<times> int \<times> int \<times> socket) res" where
  "header_loop ss b header_end =
     (let (bytes, ss') = sock_read BUFLEN ss
      in if bytes = [] then Inr (b, header_end, 0, ss')
         else bindE (buffer_add b bytes) (\<lambda>b1.
              bindE (buffer_find b1 HEADER_TERMINATOR) (\<lambda>he.
              if 0 \<le> he
              then bindE (buffer_find_insensitive b1 CONTENT_LENGTH) (\<lambda>start.
                   if start < 0 then header_loop ss' b1 (he + int (length HEADER_TERMINATOR))
                   else bindE (deref (data b1)) (\<lambda>es.
                        bindE (mem_strtol (drop (nat start + length CONTENT_LENGTH) es)) (\<lambda>n.
                        Inr (b1, he + int (length HEADER_TERMINATOR), n, ss'))))
              else header_loop ss' b1 he)))"
  by pat_completeness auto
termination
  by (relation "measure (\<lambda>(ss, b, he). length (concat ss))") (auto dest!: sock_read_less[OF sym])

declare header_loop.simps [simp del]

function body_loop :: "u64 \<Rightarrow> buffer \<Rightarrow> socket \<Rightarrow> (buffer \<times> socket) res" where
  "body_loop tot b ss =
     (if bsize b < unat tot
      then let (bytes, ss') = sock_read BUFLEN ss
           in if bytes = [] then Inr (b, ss')
              else bindE (buffer_add b bytes) (\<lambda>b1. body_loop tot b1 ss')
      else Inr (b, ss))"
  by pat_completeness auto
termination
  by (relation "measure (\<lambda>(tot, b, ss). length (concat ss))") (auto dest!: sock_read_less[OF sym])

declare body_loop.simps [simp del]

definition receive_from_server :: "socket \<Rightarrow> (buffer \<times> socket) res" where
  "receive_from_server ss =
     bindE (header_loop ss buffer_init 0) (\<lambda>(b, header_end, content_length, ss1).
     let tot = word_of_int content_length + word_of_int header_end
     in bindE (body_loop tot b ss1) (\<lambda>(b2, ss2).
        bindE (buffer_add b2 [CHR 0x00]) (\<lambda>b3. Inr (b3, ss2))))"

text \<open>The pointer it returns, read as a C string.\<close>

definition c_string :: "buffer \<Rightarrow> string" where
  "c_string b = takeWhile (\<lambda>c. c \<noteq> CHR 0x00) (case data b of None \<Rightarrow> [] | Some es \<Rightarrow> map the es)"


section \<open>Reading a complete response\<close>

lemma sock_read_concat:
  assumes "sock_read n ss = (bytes, ss')" and "0 < n" and "[] \<notin> set ss"
  shows "concat ss = bytes @ concat ss'" and "[] \<notin> set ss'" and "bytes = [] \<longleftrightarrow> ss = []"
    and "ss = [] \<Longrightarrow> ss' = []"
  using assms by (cases "(n, ss)" rule: sock_read.cases; auto split: if_splits)+

lemma BUFLEN_pos: "0 < BUFLEN"
  by (simp add: BUFLEN_def)

text \<open>The number after \<open>Content-Length\<close>.\<close>

lemma mem_digits_scan:
  "rest \<noteq> [] \<Longrightarrow> scan_digits 10 acc xs = (v, rest) \<Longrightarrow> mem_digits acc (map Some xs) = Inr v"
  by (induction "10 :: nat" acc xs rule: scan_digits.induct) (auto split: if_splits)

lemma mem_strtol_nat_text:
  assumes "\<not> isdigit c" and "n < 2147483648"
  shows "mem_strtol (map Some (nat_text n @ c # r)) = Inr (int n)"
proof -
  obtain x xs where x: "nat_text n = x # xs" by (cases "nat_text n") auto
  have "x \<in> set (nat_text n)" using x by simp
  then obtain d where d: "d < 10" "x = digit_char d" using nat_text_digits by blast
  with digit_char_all[of d] have pl: "\<not> isspace x" "x \<noteq> CHR ''-''" "x \<noteq> CHR ''+''" by simp_all
  have sk: "mem_skip_space (map Some (nat_text n @ c # r)) = Inr (map Some (nat_text n @ c # r))"
    using x pl by simp
  have "mem_digits 0 (map Some (nat_text n @ c # r)) = Inr n"
    by (rule mem_digits_scan[of "c # r"]) (simp_all add: scan_nat_text_rest assms(1))
  moreover have "hd (map Some (nat_text n @ c # r)) = Some x" using x by simp
  ultimately show ?thesis
    using sk pl assms(2) unfolding mem_strtol_def
    by (simp only: bindE_Inr) (simp add: to_int32_def signed_take_bit_int_eq_self)
qed

text \<open>
  A response with a header \<open>hdr\<close>, in which \<open>pre\<close> comes before the content length field, and
  a body of the length the field gives.
\<close>

definition well_formed :: "string \<Rightarrow> string \<Rightarrow> string \<Rightarrow> string \<Rightarrow> bool" where
  "well_formed pre hdr body msg \<longleftrightarrow>
     msg = hdr @ HEADER_TERMINATOR @ body \<and>
     (\<exists>field rest. hdr = pre @ field @ nat_text (length body) @ rest \<and>
        map tolower field = map tolower CONTENT_LENGTH \<and> (rest = [] \<or> hd rest = CHR 0x0D)) \<and>
     first_occurrence (\<lambda>c. c) HEADER_TERMINATOR msg = Some (length hdr) \<and>
     first_occurrence tolower CONTENT_LENGTH msg = Some (length pre) \<and>
     length msg < 2147483648"

lemma well_formedD:
  assumes "well_formed pre hdr body msg"
  shows "msg = hdr @ HEADER_TERMINATOR @ body"
    and "first_occurrence (\<lambda>c. c) HEADER_TERMINATOR msg = Some (length hdr)"
    and "first_occurrence tolower CONTENT_LENGTH msg = Some (length pre)"
    and "length msg < 2147483648"
  using assms unfolding well_formed_def by blast+

lemma not_digit_CR: "\<not> isdigit (CHR 0x0D)"
  by (simp add: is_digit_of_def digit_val_def less_eq_char_def)

lemma length_literals: "length HEADER_TERMINATOR = 4" "length CONTENT_LENGTH = 16"
  by (simp_all add: HEADER_TERMINATOR_def CRLF_def CONTENT_LENGTH_def)

text \<open>Once the header is in the buffer, the number behind the field is read from it.\<close>

lemma content_length_read:
  assumes wf: "well_formed pre hdr body msg" and split: "msg = xs @ ys"
    and len: "length hdr + 4 \<le> length xs"
  shows "mem_strtol (drop (length pre + 16) (map Some xs)) = Inr (int (length body))"
    and "length pre + 16 \<le> length xs"
proof -
  obtain field rest where f: "hdr = pre @ field @ nat_text (length body) @ rest"
    "map tolower field = map tolower CONTENT_LENGTH" "rest = [] \<or> hd rest = CHR 0x0D"
    using wf by (auto simp: well_formed_def)
  have lf: "length field = 16"
    using arg_cong[OF f(2), of length] by (simp add: length_literals)
  obtain zs where zs: "xs = hdr @ HEADER_TERMINATOR @ zs"
  proof -
    have "hdr @ HEADER_TERMINATOR = take (length hdr + 4) (xs @ ys)"
      using well_formedD(1)[OF wf] split by (simp add: length_literals)
    also have "\<dots> = take (length hdr + 4) xs" using len by simp
    finally have "xs = hdr @ HEADER_TERMINATOR @ drop (length hdr + 4) xs"
      by (metis append_assoc append_take_drop_id)
    then show ?thesis by (rule that)
  qed
  obtain c r where c: "rest @ HEADER_TERMINATOR @ zs = c # r" "c = CHR 0x0D"
    using f(3) by (cases rest) (auto simp: HEADER_TERMINATOR_def CRLF_def)
  have "drop (length pre + 16) xs = nat_text (length body) @ c # r"
    using c(1) by (simp add: zs f(1) lf)
  moreover have "length body < 2147483648" using well_formedD(1,4)[OF wf] by simp
  ultimately show "mem_strtol (drop (length pre + 16) (map Some xs)) = Inr (int (length body))"
    using mem_strtol_nat_text[of c "length body" r] c(2) not_digit_CR by (simp add: drop_map)
  show "length pre + 16 \<le> length xs" by (simp add: zs f(1) lf)
qed

lemma header_loop_reads:
  assumes wf: "well_formed pre hdr body msg"
  shows "buffer_repr b xs \<Longrightarrow> msg = xs @ concat ss \<Longrightarrow> [] \<notin> set ss \<Longrightarrow>
    first_occurrence (\<lambda>c. c) HEADER_TERMINATOR xs = None \<Longrightarrow>
    \<exists>b' xs' ss'. header_loop ss b he = Inr (b', int (length hdr) + 4, int (length body), ss') \<and>
      buffer_repr b' xs' \<and> msg = xs' @ concat ss' \<and> [] \<notin> set ss'"
proof (induction ss b he arbitrary: xs rule: header_loop.induct)
  case (1 ss b he)
  obtain bytes ss' where rd: "sock_read BUFLEN ss = (bytes, ss')" by fastforce
  note rc = sock_read_concat[OF rd BUFLEN_pos 1(5)]
  have "first_occurrence (\<lambda>c. c) HEADER_TERMINATOR msg \<noteq> None" using well_formedD(2)[OF wf] by simp
  then have ne: "bytes \<noteq> []" using 1(4,6) rc(3) by auto
  obtain b1 where b1: "buffer_add b bytes = Inr b1" "buffer_repr b1 (xs @ bytes)"
    using bf.add_repr[OF 1(3)] by blast
  let ?xs = "xs @ bytes"
  have msg: "msg = ?xs @ concat ss'" using 1(4) rc(1) by simp
  note fd = buffer_find_repr[OF b1(2)]
  show ?case
  proof (cases "first_occurrence (\<lambda>c. c) HEADER_TERMINATOR ?xs")
    case None
    then have he: "buffer_find b1 HEADER_TERMINATOR = Inr (- 1)" using fd(1) by (simp add: find_result_def)
    have "header_loop ss b he = header_loop ss' b1 (- 1)"
      using rd ne b1(1) he by (subst header_loop.simps) simp
    then show ?thesis
      using "1.IH"(2)[OF rd[symmetric] refl ne b1(1) he _ b1(2) msg rc(2) None] by simp
  next
    case (Some i)
    then have "first_occurrence (\<lambda>c. c) HEADER_TERMINATOR msg = Some i"
      unfolding msg by (rule first_occurrence_append)
    then have i: "i = length hdr" using well_formedD(2)[OF wf] by simp
    then have len: "length hdr + 4 \<le> length ?xs"
      using Some unfolding first_occurrence_Some occurs_at_def by (simp add: length_literals)
    have "length ?xs \<le> length msg" using msg by simp
    then have "length ?xs < 2147483648" using well_formedD(4)[OF wf] by simp
    with len i have he: "buffer_find b1 HEADER_TERMINATOR = Inr (int (length hdr))"
      using fd(1)[of HEADER_TERMINATOR] Some by (simp add: find_result_def as_int_small)
    note cl = content_length_read[OF wf msg len]
    have "first_occurrence tolower CONTENT_LENGTH (?xs @ concat ss') = Some (length pre)"
      using well_formedD(3)[OF wf] msg by simp
    then have "first_occurrence tolower CONTENT_LENGTH ?xs = Some (length pre)"
      by (rule first_occurrence_prefix) (use cl(2) in \<open>simp add: length_literals\<close>)
    then have start: "buffer_find_insensitive b1 CONTENT_LENGTH = Inr (int (length pre))"
      using fd(2)[of CONTENT_LENGTH] cl(2) \<open>length ?xs < 2147483648\<close>
      by (simp add: find_result_def as_int_small)
    have "?xs \<noteq> []" using ne by simp
    then have "data b1 = Some (map Some ?xs)"
      using b1(2) by (auto simp: buffer_repr_def split: option.splits)
    then have "header_loop ss b he = Inr (b1, int (length hdr) + 4, int (length body), ss')"
      using rd ne b1(1) he start cl(1)
      by (subst header_loop.simps) (simp add: length_literals)
    then show ?thesis using b1(2) msg rc(2) by blast
  qed
qed

lemma body_loop_reads:
  "buffer_repr b xs \<Longrightarrow> msg = xs @ concat ss \<Longrightarrow> [] \<notin> set ss \<Longrightarrow> unat tot = length msg \<Longrightarrow>
   \<exists>b'. body_loop tot b ss = Inr (b', []) \<and> buffer_repr b' msg"
proof (induction tot b ss arbitrary: xs rule: body_loop.induct)
  case (1 tot b ss)
  have sz: "bsize b = length xs" using 1(2) by (simp add: buffer_repr_def)
  show ?case
  proof (cases "bsize b < unat tot")
    case True
    obtain bytes ss' where rd: "sock_read BUFLEN ss = (bytes, ss')" by fastforce
    note rc = sock_read_concat[OF rd BUFLEN_pos 1(4)]
    have "ss \<noteq> []" using True 1(3,5) sz by auto
    then have ne: "bytes \<noteq> []" using rc(3) by simp
    obtain b1 where b1: "buffer_add b bytes = Inr b1" "buffer_repr b1 (xs @ bytes)"
      using bf.add_repr[OF 1(2)] by blast
    have "msg = (xs @ bytes) @ concat ss'" using 1(3) rc(1) by simp
    from "1.IH"[OF True rd[symmetric] refl ne b1(1) b1(2) this rc(2) 1(5)]
    show ?thesis using True rd ne b1(1) by (subst body_loop.simps) simp
  next
    case False
    then have "ss = []" using 1(3,4,5) sz by (cases ss) auto
    then show ?thesis using False 1(2,3) by (subst body_loop.simps) simp
  qed
qed

lemma receive_well_formed:
  assumes "well_formed pre hdr body msg" and "concat ss = msg" and "[] \<notin> set ss"
  shows "\<exists>b. receive_from_server ss = Inr (b, []) \<and> buffer_repr b (msg @ [CHR 0x00])"
proof -
  have "first_occurrence (\<lambda>c. c) HEADER_TERMINATOR [] = None"
    by (simp add: first_occurrence_None occurs_at_def length_literals)
  from header_loop_reads[OF assms(1) bf.init_repr _ assms(3) this, of 0] assms(2)
  obtain b xs ss' where b: "header_loop ss buffer_init 0 =
      Inr (b, int (length hdr) + 4, int (length body), ss')"
    "buffer_repr b xs" "msg = xs @ concat ss'" "[] \<notin> set ss'" by auto
  let ?tot = "word_of_int (int (length body)) + word_of_int (int (length hdr) + 4) :: u64"
  have "length msg = length body + (length hdr + 4)" "length msg < 2147483648"
    using well_formedD(1,4)[OF assms(1)] by (simp_all add: length_literals)
  moreover have "?tot = word_of_nat (length body + (length hdr + 4))" by simp
  ultimately have "unat ?tot = length msg" unfolding \<open>?tot = _\<close> unat_of_nat by simp
  from body_loop_reads[OF b(2-4) this] obtain b2 where
    "body_loop ?tot b ss' = Inr (b2, [])" "buffer_repr b2 msg" by blast
  moreover from bf.add_repr[OF this(2), of "[CHR 0x00]"] obtain b3 where
    "buffer_add b2 [CHR 0x00] = Inr b3" "buffer_repr b3 (msg @ [CHR 0x00])" by blast
  ultimately show ?thesis using b(1) by (simp add: receive_from_server_def Let_def)
qed

text \<open>
  C9: however the network splits a well formed response into pieces, \<open>receive_from_server\<close>
  reads exactly the response and returns it whole, with a NUL behind it.
\<close>

theorem response_received:
  assumes "well_formed pre hdr body msg" and "concat ss = msg" and "[] \<notin> set ss"
  shows "\<exists>b. receive_from_server ss = Inr (b, []) \<and> buffer_repr b (msg @ [CHR 0x00])"
  using assms by (rule receive_well_formed)


lemma response_received_witness:
  "\<exists>b. receive_from_server [''content-le'', ''ngth: 2'' @ [CHR 0x0D], [CHR 0x0A, CHR 0x0D, CHR 0x0A] @ ''o'', ''k''] =
      Inr (b, []) \<and>
    buffer_repr b ((''content-length: 2'' @ HEADER_TERMINATOR @ ''ok'') @ [CHR 0x00])"
proof (rule response_received)
  let ?msg = "''content-length: 2'' @ HEADER_TERMINATOR @ ''ok''"
  have "\<forall>j \<in> set [0..<17]. \<not> occurs_at (\<lambda>c. c) HEADER_TERMINATOR ?msg j"
    by (simp add: occurs_at_def HEADER_TERMINATOR_def CRLF_def upt_rec)
  then have 1: "\<forall>j < 17. \<not> occurs_at (\<lambda>c. c) HEADER_TERMINATOR ?msg j" by simp
  have 2: "occurs_at (\<lambda>c. c) HEADER_TERMINATOR ?msg 17"
    by (simp add: occurs_at_def HEADER_TERMINATOR_def CRLF_def)
  have "char_of (99 :: nat) = CHR ''c''" "char_of (108 :: nat) = CHR ''l''"
    by (simp_all add: char_of_eq_iff)
  then have 3: "map tolower ''content-length: '' = map tolower CONTENT_LENGTH"
    by (simp add: CONTENT_LENGTH_def tolower_def less_eq_char_def)
  then have 4: "occurs_at tolower CONTENT_LENGTH ?msg 0"
    by (simp add: occurs_at_def CONTENT_LENGTH_def)
  have 5: "''content-length: 2'' = [] @ ''content-length: '' @ nat_text (length ''ok'') @ []"
    by (simp add: nat_text.simps[of "Suc (Suc 0)"] digit_char_def)
  have l: "length ''content-length: 2'' = 17" by simp
  have "first_occurrence (\<lambda>c. c) HEADER_TERMINATOR ?msg = Some (length ''content-length: 2'')"
    unfolding first_occurrence_Some l using 1 2 by blast
  moreover have "first_occurrence tolower CONTENT_LENGTH ?msg = Some (length [])"
    unfolding first_occurrence_Some using 4 by simp
  moreover have "length ?msg < 2147483648" by (simp add: length_literals)
  ultimately show "well_formed [] ''content-length: 2'' ''ok'' ?msg"
    unfolding well_formed_def using 3 5 by blast
qed (simp_all add: HEADER_TERMINATOR_def CRLF_def)

lemma send_loop_all:
  "(\<And>j. 0 < w j) \<Longrightarrow> sent \<le> length message \<Longrightarrow> send_loop w k message sent = Some message"
proof (induction w k message sent rule: send_loop.induct)
  case (1 w k message sent)
  let ?b = "min (w k) (int (length message) - int sent)"
  have w: "0 < w k" using 1(2) by blast
  consider "sent = length message" | "sent < length message" "int sent + ?b < int (length message)"
    | "sent < length message" "\<not> int sent + ?b < int (length message)"
    using 1(3) by linarith
  then show ?case
  proof cases
    case 1
    then show ?thesis using w by (simp add: send_loop.simps[of w k])
  next
    case 2
    then have "\<not> ?b < 0" "?b \<noteq> 0" "sent + nat ?b \<le> length message" using w by (auto simp: nat_le_iff)
    then show ?thesis
      using 2 "1.IH"[OF refl] 1(2) by (simp add: send_loop.simps[of w k] Let_def)
  next
    case 3
    then have "\<not> ?b < 0" "?b \<noteq> 0" "length message \<le> sent + nat ?b" using w by auto
    then show ?thesis using 3 by (simp add: send_loop.simps[of w k] Let_def)
  qed
qed

text \<open>
  As long as the kernel takes at least one byte a call, \<open>send_to_server\<close> writes the whole
  message, in order, no byte twice, however the
  kernel splits it.
\<close>

lemma message_sent:
  assumes "\<And>k. 0 < w k"
  shows "send_to_server w message = Some message"
  by (simp add: send_to_server_def send_loop_all[OF assms])

lemma message_sent_witness: "send_to_server (\<lambda>k. 1 + int k) ''GET / HTTP/1.1'' = Some ''GET / HTTP/1.1''"
  by (rule message_sent) simp

lemma header_loop_overread:
  assumes "length msg \<le> BUFLEN" and "first_occurrence (\<lambda>c. c) HEADER_TERMINATOR msg = Some i"
    and "first_occurrence tolower CONTENT_LENGTH msg = Some p"
    and "\<And>c. c \<in> set (drop (p + 16) msg) \<Longrightarrow> isdigit c" 
  shows "receive_from_server [msg] = Inl OutOfBounds"
proof -
  have ne: "msg \<noteq> []" using assms(2) by (auto simp: first_occurrence_Some occurs_at_def length_literals)
  obtain b where b: "buffer_add buffer_init msg = Inr b" "buffer_repr b msg"
    using bf.add_repr[OF bf.init_repr, of msg] by auto
  have "i + 4 \<le> length msg" "p + 16 \<le> length msg"
    using assms(2,3) by (auto simp: first_occurrence_Some occurs_at_def length_literals)
  moreover have "length msg < 2147483648" using assms(1) by (simp add: BUFLEN_def)
  ultimately have f: "buffer_find b HEADER_TERMINATOR = Inr (int i)"
    "buffer_find_insensitive b CONTENT_LENGTH = Inr (int p)"
    using buffer_find_repr[OF b(2)] assms(2,3) by (simp_all add: find_result_def as_int_small)
  have d: "data b = Some (map Some msg)" using b(2) ne by (auto simp: buffer_repr_def split: option.splits)
  have dig: "mem_digits acc (map Some xs) = Inl OutOfBounds" if "\<And>c. c \<in> set xs \<Longrightarrow> isdigit c" for acc xs
    using that by (induction xs arbitrary: acc) auto
  have "mem_strtol (map Some (drop (p + 16) msg)) = Inl OutOfBounds"
  proof (cases "drop (p + 16) msg")
    case (Cons c r)
    then have "isdigit c" using assms(4) by simp
    moreover have "\<not> isdigit CHR ''-''" "\<not> isdigit CHR ''+''" "\<And>c. isspace c \<Longrightarrow> \<not> isdigit c"
      by (auto simp: is_digit_of_def digit_val_def less_eq_char_def isspace_def)
    ultimately show ?thesis using dig[of r] assms(4) Cons
      by (auto simp: mem_strtol_def)
  qed (simp add: mem_strtol_def)
  then have "header_loop [msg] buffer_init 0 = Inl OutOfBounds"
    using assms(1) ne b(1) f d by (subst header_loop.simps) (simp add: length_literals drop_map)
  then show ?thesis by (simp add: receive_from_server_def)
qed

text \<open>
  A response that arrives with one \<open>read\<close> and ends right after the digits of the first
  content length, for instance because the text occurs in the body, is read past its end:
  nothing has put a NUL behind the digits yet when \<open>strtol\<close> scans them.
\<close>

lemma content_length_overread:
  assumes "length msg \<le> BUFLEN" and "first_occurrence (\<lambda>c. c) HEADER_TERMINATOR msg = Some i"
    and "first_occurrence tolower CONTENT_LENGTH msg = Some p"
    and "list_all isdigit (drop (p + 16) msg)"
  shows "receive_from_server [msg] = Inl OutOfBounds"
  using header_loop_overread[OF assms(1-3)] assms(4) by (simp add: list_all_iff)

lemma content_length_overread_witness:
  "receive_from_server [HEADER_TERMINATOR @ ''Content-Length: 5''] = Inl OutOfBounds"
proof (rule content_length_overread)
  let ?msg = "HEADER_TERMINATOR @ ''Content-Length: 5''"
  have cl: "''Content-Length: 5'' = CONTENT_LENGTH @ ''5''" by (simp add: CONTENT_LENGTH_def)
  have "occurs_at (\<lambda>c. c) HEADER_TERMINATOR ?msg 0" by (simp add: occurs_at_def)
  then show "first_occurrence (\<lambda>c. c) HEADER_TERMINATOR ?msg = Some 0"
    by (simp add: first_occurrence_Some)
  have "occurs_at tolower CONTENT_LENGTH ?msg 4"
    unfolding cl by (simp add: occurs_at_def length_literals)
  moreover have "\<not> occurs_at tolower CONTENT_LENGTH ?msg j" if "j < 4" for j
  proof
    assume "occurs_at tolower CONTENT_LENGTH ?msg j"
    then have "hd (map tolower (take 16 (drop j ?msg))) = hd (map tolower CONTENT_LENGTH)"
      by (simp add: occurs_at_def length_literals)
    moreover have "j \<in> set [0..<4]" using that by simp
    then have "hd (map tolower (take 16 (drop j ?msg))) \<in> {CHR 0x0D, CHR 0x0A}"
      by (auto simp: upt_rec HEADER_TERMINATOR_def CRLF_def tolower_def less_eq_char_def)
    moreover have "(of_char (hd (map tolower CONTENT_LENGTH)) :: nat) = 99"
      by (simp add: CONTENT_LENGTH_def tolower_def less_eq_char_def)
    ultimately show False by auto
  qed
  ultimately show "first_occurrence tolower CONTENT_LENGTH ?msg = Some 4"
    unfolding first_occurrence_Some by blast
  show "list_all isdigit (drop (4 + 16) ?msg)"
    by (simp add: HEADER_TERMINATOR_def CRLF_def is_digit_of_def digit_val_def less_eq_char_def)
  show "length ?msg \<le> BUFLEN" by (simp add: HEADER_TERMINATOR_def CRLF_def BUFLEN_def)
qed

text \<open>What \<open>strstr\<close> finds.\<close>

lemma strstr_Some: "strstr hay needle = Some r \<Longrightarrow> \<exists>pre. hay = pre @ r \<and> prefix needle r"
proof (induction hay needle rule: strstr.induct)
  case (1 hay needle)
  show ?case
  proof (cases "prefix needle hay")
    case True
    with 1(2) show ?thesis by (simp add: strstr.simps[of hay])
  next
    case False
    with 1(2) obtain c cs where "hay = c # cs" "strstr cs needle = Some r"
      by (cases hay) (auto simp: strstr.simps[of "[]"] strstr.simps[of "x # xs" for x xs])
    with 1(1)[OF False] show ?thesis by (metis append_Cons)
  qed
qed

lemma strstr_None: "strstr hay needle = None \<longleftrightarrow> \<not> sublist needle hay"
proof (induction hay needle rule: strstr.induct)
  case (1 hay needle)
  show ?case
  proof (cases "prefix needle hay")
    case True
    then show ?thesis by (simp add: strstr.simps[of hay] prefix_imp_sublist)
  next
    case False
    then show ?thesis using 1[OF False]
      by (cases hay) (auto simp: strstr.simps[of "[]"] strstr.simps[of "x # xs" for x xs] sublist_Cons_right)
  qed
qed


end
