(* ===== verification/Http_Requests.thy ===== *)
theory Http_Requests
  imports Http_Helpers
begin

text \<open>
  The requests of \<open>PCom3/requests.c\<close>: GET, DELETE and POST messages built with \<open>sprintf\<close> and
  \<open>strcat\<close> in arrays of fixed size, and the text they are proved to be, or else the overflow.
\<close>

section \<open>Formatting\<close>

text \<open>\<open>sprintf\<close> into an array of \<open>LINELEN\<close> characters; \<open>%s\<close> prints a null pointer as glibc does.\<close>

definition sprintf_line :: "string \<Rightarrow> string res" where
  "sprintf_line s = (if length s < LINELEN then Inr s else Inl OutOfBounds)"

definition percent_s :: "string option \<Rightarrow> string" where
  "percent_s p = (case p of None \<Rightarrow> ''(null)'' | Some s \<Rightarrow> s)"

definition put_line :: "string \<Rightarrow> string \<Rightarrow> string res" where
  "put_line message line = bindE (sprintf_line line) (compute_message message)"

text \<open>
  The loops \<open>sprintf (line + strlen (line), "%s; ", cookies[i])\<close> over an array of \<open>n\<close> strings.
\<close>

fun add_items :: "string \<Rightarrow> string option list \<Rightarrow> nat \<Rightarrow> string \<Rightarrow> string res" where
  "add_items sep items 0 line = Inr line"
| "add_items sep [] (Suc n) line = Inl OutOfBounds"
| "add_items sep (x # items) (Suc n) line =
     bindE (c_strcat LINELEN line (percent_s x @ sep)) (add_items sep items n)"

definition add_authorization :: "string \<Rightarrow> string option \<Rightarrow> string res" where
  "add_authorization message jwt =
     (case jwt of None \<Rightarrow> Inr message
      | Some t \<Rightarrow> put_line message (''Authorization: Bearer '' @ t))"

definition add_cookies :: "string \<Rightarrow> string option list option \<Rightarrow> nat \<Rightarrow> string res" where
  "add_cookies message cookies n =
     (case cookies of None \<Rightarrow> Inr message
      | Some cs \<Rightarrow> bindE (add_items ''; '' cs n ''Cookie: '') (compute_message message))"

section \<open>The three requests\<close>

definition compute_get_request ::
  "string \<Rightarrow> string \<Rightarrow> string option \<Rightarrow> string option list option \<Rightarrow> nat \<Rightarrow> string option \<Rightarrow> string res" where
  "compute_get_request host url query_params cookies n jwt =
     bindE (put_line [] (case query_params of
              Some q \<Rightarrow> ''GET '' @ url @ ''?'' @ q @ '' HTTP/1.1''
            | None \<Rightarrow> ''GET '' @ url @ '' HTTP/1.1'')) (\<lambda>m1.
     bindE (put_line m1 (''Host: '' @ host)) (\<lambda>m2.
     bindE (add_authorization m2 jwt) (\<lambda>m3.
     bindE (add_cookies m3 cookies n) (\<lambda>m4.
     compute_message m4 []))))"

definition compute_delete_request ::
  "string \<Rightarrow> string \<Rightarrow> string option list option \<Rightarrow> nat \<Rightarrow> string option \<Rightarrow> string res" where
  "compute_delete_request host url cookies n jwt =
     bindE (put_line [] (''DELETE '' @ url @ '' HTTP/1.1'')) (\<lambda>m1.
     bindE (put_line m1 (''Host: '' @ host)) (\<lambda>m2.
     bindE (add_authorization m2 jwt) (\<lambda>m3.
     bindE (add_cookies m3 cookies n) (\<lambda>m4.
     compute_message m4 []))))"

text \<open>The fields of the body joined with \<open>&\<close>; the last \<open>&\<close> is cut off again.\<close>

definition join_body :: "string option list option \<Rightarrow> nat \<Rightarrow> string res" where
  "join_body body_data n =
     (case body_data of None \<Rightarrow> Inr []
      | Some fs \<Rightarrow>
          bindE (add_items ''&'' fs n []) (\<lambda>b.
          if b = [] then Inl OutOfBounds else Inr (butlast b)))"

definition compute_post_request ::
  "string \<Rightarrow> string \<Rightarrow> string \<Rightarrow> string option list option \<Rightarrow> nat \<Rightarrow>
   string option list option \<Rightarrow> nat \<Rightarrow> string option \<Rightarrow> string res" where
  "compute_post_request host url content_type body_data k cookies n jwt =
     bindE (put_line [] (''POST '' @ url @ '' HTTP/1.1'')) (\<lambda>m1.
     bindE (put_line m1 (''Host: '' @ host)) (\<lambda>m2.
     bindE (add_authorization m2 jwt) (\<lambda>m3.
     bindE (put_line m3 (''Content-Type: '' @ content_type)) (\<lambda>m4.
     bindE (join_body body_data k) (\<lambda>body.
     bindE (put_line m4 (''Content-Length: '' @ nat_text (length body))) (\<lambda>m5.
     bindE (add_cookies m5 cookies n) (\<lambda>m6.
     bindE (compute_message m6 []) (\<lambda>m7.
     compute_message m7 body))))))))"

section \<open>The text of a request\<close>

definition message_text :: "string list \<Rightarrow> string" where
  "message_text ls = concat (map (\<lambda>l. l @ CRLF) ls)"

text \<open>A message so far, or the overflow, from the lines that make it up.\<close>

definition built :: "string list \<Rightarrow> string res" where
  "built ls =
     (if list_all (\<lambda>l. length l < LINELEN) ls \<and> length (message_text ls) < BUFLEN
      then Inr (message_text ls) else Inl OutOfBounds)"

lemma message_text_snoc: "message_text (ls @ [l]) = message_text ls @ l @ CRLF"
  by (simp add: message_text_def)

lemma built_Nil: "built [] = Inr []"
  by (simp add: built_def message_text_def BUFLEN_def)

lemma compute_message_text:
  "compute_message m l = (if length (m @ l @ CRLF) < BUFLEN then Inr (m @ l @ CRLF) else Inl OutOfBounds)"
  by (simp add: compute_message_def c_strcat_def CRLF_def)

lemma built_message:
  "length l < LINELEN \<Longrightarrow> bindE (built ls) (\<lambda>m. compute_message m l) = built (ls @ [l])"
  by (auto simp: built_def compute_message_text message_text_snoc)

lemma built_line: "bindE (built ls) (\<lambda>m. put_line m l) = built (ls @ [l])"
  by (auto simp: built_def put_line_def sprintf_line_def compute_message_text message_text_snoc)

lemma built_line_then: "bindE (built ls) (\<lambda>m. bindE (put_line m l) f) = bindE (built (ls @ [l])) f"
  by (simp add: built_line[symmetric] bindE_assoc)

text \<open>The cookie line.\<close>

definition items_text :: "string \<Rightarrow> string option list \<Rightarrow> string" where
  "items_text sep xs = concat (map (\<lambda>x. percent_s x @ sep) xs)"

lemma add_items_text:
  "length line < LINELEN \<Longrightarrow>
   add_items sep xs (length xs) line =
     (if length (line @ items_text sep xs) < LINELEN then Inr (line @ items_text sep xs) else Inl OutOfBounds)"
  by (induction xs arbitrary: line) (auto simp: items_text_def c_strcat_def)

definition auth_lines :: "string option \<Rightarrow> string list" where
  "auth_lines jwt = (case jwt of None \<Rightarrow> [] | Some t \<Rightarrow> [''Authorization: Bearer '' @ t])"

definition cookie_lines :: "string option list option \<Rightarrow> string list" where
  "cookie_lines cookies = (case cookies of None \<Rightarrow> [] | Some cs \<Rightarrow> [''Cookie: '' @ items_text ''; '' cs])"

lemma built_auth: "bindE (built ls) (\<lambda>m. bindE (add_authorization m jwt) f) = bindE (built (ls @ auth_lines jwt)) f"
  by (cases jwt) (simp_all add: add_authorization_def auth_lines_def built_line_then)

lemma built_cookies:
  assumes "n = (case cookies of None \<Rightarrow> n | Some cs \<Rightarrow> length cs)"
  shows "bindE (built ls) (\<lambda>m. bindE (add_cookies m cookies n) f) = bindE (built (ls @ cookie_lines cookies)) f"
proof (cases cookies)
  case (Some cs)
  then have n: "n = length cs" using assms by simp
  let ?l = "''Cookie: '' @ items_text ''; '' cs"
  have a: "add_items ''; '' cs n ''Cookie: '' = (if length ?l < LINELEN then Inr ?l else Inl OutOfBounds)"
    unfolding n by (rule add_items_text) (simp add: LINELEN_def)
  show ?thesis
  proof (cases "length ?l < LINELEN")
    case True
    then show ?thesis using a Some built_message[OF True, of ls, symmetric]
      by (simp add: add_cookies_def cookie_lines_def bindE_assoc)
  next
    case False
    then have "built (ls @ [?l]) = Inl OutOfBounds" by (simp add: built_def)
    with False a Some show ?thesis
      by (cases "built ls") (auto simp: add_cookies_def cookie_lines_def built_def split: if_splits)
  qed
qed (simp add: add_cookies_def cookie_lines_def)


lemma built_start: "bindE (put_line [] l) f = bindE (built [l]) f"
  using built_line_then[of "[]" l f] by (simp add: built_Nil)

lemma built_blank: "bindE (built ls) (\<lambda>m. compute_message m []) = built (ls @ [[]])"
  by (rule built_message) (simp add: LINELEN_def)

lemma built_blank_then:
  "bindE (built ls) (\<lambda>m. bindE (compute_message m []) f) = bindE (built (ls @ [[]])) f"
  by (simp add: built_blank[symmetric] bindE_assoc)

section \<open>Properties\<close>

text \<open>The three requests, line by line.\<close>

lemma get_request_lines:
  assumes "n = (case cookies of None \<Rightarrow> n | Some cs \<Rightarrow> length cs)"
  shows "compute_get_request host url query cookies n jwt =
    built ([''GET '' @ url @ (case query of None \<Rightarrow> [] | Some q \<Rightarrow> ''?'' @ q) @ '' HTTP/1.1'',
            ''Host: '' @ host] @ auth_lines jwt @ cookie_lines cookies @ [[]])"
  by (cases query)
    (simp_all add: compute_get_request_def built_start built_line_then built_auth
      built_cookies[OF assms] built_blank)

lemma delete_request_lines:
  assumes "n = (case cookies of None \<Rightarrow> n | Some cs \<Rightarrow> length cs)"
  shows "compute_delete_request host url cookies n jwt =
    built ([''DELETE '' @ url @ '' HTTP/1.1'', ''Host: '' @ host] @
      auth_lines jwt @ cookie_lines cookies @ [[]])"
  by (simp add: compute_delete_request_def built_start built_line_then built_auth
      built_cookies[OF assms] built_blank)

lemma post_request_lines:
  assumes "n = (case cookies of None \<Rightarrow> n | Some cs \<Rightarrow> length cs)"
  shows "compute_post_request host url content_type (Some [Some t]) 1 cookies n jwt =
    (if length t < 999
     then built ([''POST '' @ url @ '' HTTP/1.1'', ''Host: '' @ host] @ auth_lines jwt @
       [''Content-Type: '' @ content_type, ''Content-Length: '' @ nat_text (length t)] @
       cookie_lines cookies @ [[], t])
     else Inl OutOfBounds)"
proof -
  have body: "join_body (Some [Some t]) (Suc 0) = (if length t < 999 then Inr t else Inl OutOfBounds)"
    using add_items_text[of "[]" "''&''" "[Some t]"]
    by (simp add: join_body_def items_text_def percent_s_def LINELEN_def)
  show ?thesis
  proof (cases "length t < 999")
    case True
    then have "length t < LINELEN" by (simp add: LINELEN_def)
    from built_message[OF this] True show ?thesis
      by (simp add: compute_post_request_def body built_start built_line_then built_auth
          built_cookies[OF assms] built_blank_then)
  next
    case False
    have "bindE (built ls) (\<lambda>_. Inl OutOfBounds) = Inl OutOfBounds" for ls
      by (simp add: built_def)
    with False show ?thesis
      by (simp add: compute_post_request_def body built_start built_line_then built_auth)
  qed
qed

text \<open>
  C39: a GET or DELETE request is its request line (with the query, if any), the host, the bearer
  token and the cookies, if any, and a blank line, each ended by CR LF. A POST request with one
  body field also announces the type and the length of the field and carries exactly the field
  after the blank line, ended by a CR LF that the announced length does not count. If a line, the
  field or the whole does not fit its array the request is never built: the overflow comes first.
\<close>

theorem request_texts:
  assumes "n = (case cookies of None \<Rightarrow> n | Some cs \<Rightarrow> length cs)"
  shows "compute_get_request host url query cookies n jwt =
      built ([''GET '' @ url @ (case query of None \<Rightarrow> [] | Some q \<Rightarrow> ''?'' @ q) @ '' HTTP/1.1'',
        ''Host: '' @ host] @ auth_lines jwt @ cookie_lines cookies @ [[]]) \<and>
    compute_delete_request host url cookies n jwt =
      built ([''DELETE '' @ url @ '' HTTP/1.1'', ''Host: '' @ host] @
        auth_lines jwt @ cookie_lines cookies @ [[]]) \<and>
    compute_post_request host url content_type (Some [Some t]) 1 cookies n jwt =
      (if length t < 999
       then built ([''POST '' @ url @ '' HTTP/1.1'', ''Host: '' @ host] @ auth_lines jwt @
         [''Content-Type: '' @ content_type, ''Content-Length: '' @ nat_text (length t)] @
         cookie_lines cookies @ [[], t])
       else Inl OutOfBounds)"
  using get_request_lines[OF assms] delete_request_lines[OF assms] post_request_lines[OF assms]
  by blast

lemma request_texts_witness:
  "compute_get_request ''10.0.0.1'' ''/books'' None (Some [Some ''sid=1'']) 1 (Some ''tok'') =
    Inr (message_text [''GET /books HTTP/1.1'', ''Host: 10.0.0.1'', ''Authorization: Bearer tok'',
      ''Cookie: sid=1; '', []]) \<and>
   compute_delete_request ''10.0.0.1'' ''/books/7'' (Some [None]) 1 None =
    Inr (message_text [''DELETE /books/7 HTTP/1.1'', ''Host: 10.0.0.1'', ''Cookie: (null); '', []]) \<and>
   compute_post_request ''10.0.0.1'' ''/login'' ''application/json'' (Some [Some ''{}'']) 1 None 0 None =
    Inr (message_text [''POST /login HTTP/1.1'', ''Host: 10.0.0.1'', ''Content-Type: application/json'',
      ''Content-Length: 2'', [], ''{}''])"
  using request_texts[of 1 "Some [Some ''sid=1'']" "''10.0.0.1''" "''/books''" None "Some ''tok''"]
    request_texts[of 1 "Some [None]" "''10.0.0.1''" "''/books/7''" None None]
    request_texts[of 0 None "''10.0.0.1''" "''/login''" None None "''application/json''" "''{}''"]
  by (simp add: built_def auth_lines_def cookie_lines_def items_text_def percent_s_def
      nat_text.simps[of "Suc (Suc 0)"] digit_char_def
      LINELEN_def BUFLEN_def message_text_def CRLF_def)

end
