(* ===== verification/Json.thy ===== *)
theory Json
  imports Http_Helpers
begin

text \<open>
  \<open>src/PCom3/parson.c\<close>, the part of the JSON library that the client uses: UTF-8 checks, the
  parser, the pretty printer and the operations on objects. Allocation does not fail. A value is
  a tree; a string value may contain NUL characters, a key may not. The conversions between
  \<open>double\<close> and text are those of the C library and a parameter here (the record \<open>numbers\<close>); what
  the code relies on when it reads back what it printed is \<open>reads_back\<close> in \<open>Json_Text\<close>, of one number.
\<close>

unbundle bit_operations_syntax

section \<open>Values\<close>

datatype 'n json =
    JNull
  | JBoolean bool
  | JNumber 'n
  | JString string
  | JArray "'n json list"
  | JObject "(string \<times> 'n json) list"

text \<open>
  \<open>strtod\<close> gives the value, or nothing when it sets \<open>errno\<close>, and the number of characters it
  took; \<open>number_text\<close> is \<open>sprintf\<close> with \<open>FLOAT_FORMAT\<close>; \<open>number_invalid\<close> holds of infinities and
  of what is not a number; \<open>number_of_int\<close> is the conversion from \<open>int\<close>. The record also carries the
  one setting of the library, \<open>parson_escape_slashes\<close>.
\<close>

record 'n numbers =
  strtod :: "string \<Rightarrow> 'n option \<times> nat"
  number_text :: "'n \<Rightarrow> string"
  number_invalid :: "'n \<Rightarrow> bool"
  number_of_int :: "int \<Rightarrow> 'n"
  escape_slashes :: bool

definition json_set_escape_slashes :: "bool \<Rightarrow> 'n numbers \<Rightarrow> 'n numbers" where
  "json_set_escape_slashes b N = N\<lparr>escape_slashes := b\<rparr>"

definition MAX_NESTING :: nat where "MAX_NESTING = 2048"

abbreviation (input) "QUOTE \<equiv> CHR 0x22"
abbreviation (input) "BACKSLASH \<equiv> CHR 0x5C"

definition starts :: "char \<Rightarrow> string \<Rightarrow> bool" where
  "starts c s \<longleftrightarrow> s \<noteq> [] \<and> hd s = c"

section \<open>Hexadecimal digits and UTF-16 escapes\<close>

definition hex_char_to_int :: "char \<Rightarrow> int" where
  "hex_char_to_int c =
     (if CHR ''0'' \<le> c \<and> c \<le> CHR ''9'' then of_char c - of_char CHR ''0''
      else if CHR ''a'' \<le> c \<and> c \<le> CHR ''f'' then of_char c - of_char CHR ''a'' + 10
      else if CHR ''A'' \<le> c \<and> c \<le> CHR ''F'' then of_char c - of_char CHR ''A'' + 10
      else -1)"

text \<open>Four hexadecimal digits; the value and the text behind them.\<close>

definition parse_utf16_hex :: "string \<Rightarrow> (u32 \<times> string) option" where
  "parse_utf16_hex s =
     (case s of
        a # b # c # d # r \<Rightarrow>
          (let x1 = hex_char_to_int a; x2 = hex_char_to_int b;
               x3 = hex_char_to_int c; x4 = hex_char_to_int d
           in if x1 = -1 \<or> x2 = -1 \<or> x3 = -1 \<or> x4 = -1 then None
              else Some (push_bit 12 (word_of_int x1) OR push_bit 8 (word_of_int x2) OR
                         push_bit 4 (word_of_int x3) OR word_of_int x4, r))
      | _ \<Rightarrow> None)"

abbreviation byte_of :: "u32 \<Rightarrow> char" where
  "byte_of w \<equiv> char_of (unat w)"

text \<open>
  \<open>parse_utf16\<close> on the text behind the \<open>u\<close>: the UTF-8 bytes and the text that is left. The text
  handed over ends where the closing quote stands in the code: that character is neither a
  hexadecimal digit nor a backslash, so that the code fails there too.
\<close>

definition parse_utf16 :: "string \<Rightarrow> (string \<times> string) option" where
  "parse_utf16 s =
     (case parse_utf16_hex s of None \<Rightarrow> None | Some (cp, r) \<Rightarrow>
        if cp < 0x80 then Some ([byte_of cp], r)
        else if cp < 0x800 then
          Some ([byte_of ((drop_bit 6 cp AND 0x1F) OR 0xC0), byte_of ((cp AND 0x3F) OR 0x80)], r)
        else if cp < 0xD800 \<or> cp > 0xDFFF then
          Some ([byte_of ((drop_bit 12 cp AND 0x0F) OR 0xE0),
                 byte_of ((drop_bit 6 cp AND 0x3F) OR 0x80),
                 byte_of ((cp AND 0x3F) OR 0x80)], r)
        else if cp \<le> 0xDBFF then
          (case r of
             c1 # c2 # r1 \<Rightarrow>
               if c1 \<noteq> BACKSLASH \<or> c2 \<noteq> CHR ''u'' then None
               else (case parse_utf16_hex r1 of None \<Rightarrow> None | Some (trail, r2) \<Rightarrow>
                 if trail < 0xDC00 \<or> trail > 0xDFFF then None
                 else let cp = (push_bit 10 ((cp - 0xD800) AND 0x3FF) OR
                                ((trail - 0xDC00) AND 0x3FF)) + 0x10000
                      in Some ([byte_of ((drop_bit 18 cp AND 0x07) OR 0xF0),
                                byte_of ((drop_bit 12 cp AND 0x3F) OR 0x80),
                                byte_of ((drop_bit 6 cp AND 0x3F) OR 0x80),
                                byte_of ((cp AND 0x3F) OR 0x80)], r2))
           | _ \<Rightarrow> None)
        else None)"

lemma parse_utf16_hex_Some:
  "parse_utf16_hex s = Some (cp, r) \<Longrightarrow> length s = length r + 4"
  by (auto simp: parse_utf16_hex_def Let_def split: list.splits if_splits)

lemma parse_utf16_Some:
  assumes "parse_utf16 s = Some (bs, r)"
  shows "length bs + length r \<le> length s" and "length r < length s"
  using assms
  by (auto simp: parse_utf16_def Let_def split: option.splits prod.splits if_splits list.splits
      dest!: parse_utf16_hex_Some)

section \<open>Strings between quotes\<close>

text \<open>
  \<open>skip_quotes\<close> gives the characters between the quotes, as they are written, and the text behind
  the closing quote.
\<close>

fun skip_loop :: "string \<Rightarrow> (string \<times> string) option" where
  "skip_loop [] = None"
| "skip_loop (c # cs) =
     (if c = QUOTE then Some ([], cs)
      else if c = BACKSLASH
      then (case cs of [] \<Rightarrow> None
            | e # r \<Rightarrow> map_option (\<lambda>(raw, rest). (c # e # raw, rest)) (skip_loop r))
      else map_option (\<lambda>(raw, rest). (c # raw, rest)) (skip_loop cs))"

definition skip_quotes :: "string \<Rightarrow> (string \<times> string) option" where
  "skip_quotes s = (if starts QUOTE s then skip_loop (tl s) else None)"

definition simple_escape :: "char \<Rightarrow> char option" where
  "simple_escape e =
     (if e = QUOTE then Some QUOTE
      else if e = BACKSLASH then Some BACKSLASH
      else if e = CHR ''/'' then Some (CHR ''/'')
      else if e = CHR ''b'' then Some (CHR 0x08)
      else if e = CHR ''f'' then Some (CHR 0x0C)
      else if e = CHR ''n'' then Some (CHR 0x0A)
      else if e = CHR ''r'' then Some (CHR 0x0D)
      else if e = CHR ''t'' then Some (CHR 0x09)
      else None)"

function process_string :: "string \<Rightarrow> string option" where
  "process_string [] = Some []"
| "process_string (c # cs) =
     (if c = BACKSLASH
      then (case cs of [] \<Rightarrow> None
            | e # r \<Rightarrow>
                if e = CHR ''u''
                then (case parse_utf16 r of None \<Rightarrow> None
                      | Some (bs, r1) \<Rightarrow> map_option ((@) bs) (process_string r1))
                else (case simple_escape e of None \<Rightarrow> None
                      | Some x \<Rightarrow> map_option ((#) x) (process_string r)))
      else if of_char c < (0x20 :: nat) then None
      else map_option ((#) c) (process_string cs))"
  by pat_completeness auto
termination
  by (relation "measure length") (auto dest!: parse_utf16_Some(2)[OF sym] parse_utf16_Some(2))

declare process_string.simps [simp del]

definition get_quoted_string :: "string \<Rightarrow> (string \<times> string) option" where
  "get_quoted_string s =
     (case skip_quotes s of None \<Rightarrow> None
      | Some (raw, rest) \<Rightarrow> map_option (\<lambda>out. (out, rest)) (process_string raw))"

lemma skip_loop_length: "skip_loop s = Some (raw, rest) \<Longrightarrow> length rest + length raw < length s"
proof (induction s arbitrary: raw rest rule: skip_loop.induct)
  case (2 c cs)
  show ?case
  proof (cases "c \<noteq> QUOTE \<and> c = BACKSLASH \<and> cs \<noteq> []")
    case True
    then obtain e r where cs: "cs = e # r" by (cases cs) auto
    with True 2(3) obtain raw1 where "skip_loop r = Some (raw1, rest)" "raw = c # e # raw1" by auto
    then show ?thesis using 2(1)[of e r] True cs by fastforce
  next
    case False
    then show ?thesis using 2(2,3) by (fastforce split: if_splits list.splits)
  qed
qed simp

lemma get_quoted_string_length: "get_quoted_string s = Some (out, rest) \<Longrightarrow> length rest < length s"
  by (cases s) (auto simp: get_quoted_string_def skip_quotes_def starts_def
      split: option.splits if_splits dest!: skip_loop_length)

section \<open>Objects and arrays\<close>

text \<open>
  \<open>json_object_getn_value\<close>: the first member whose name has the same length and the same
  characters. An object is the list of its members in the order of the arrays \<open>names\<close> and
  \<open>values\<close>; their growth cannot fail.
\<close>

fun json_object_getn_value :: "(string \<times> 'n json) list \<Rightarrow> string \<Rightarrow> nat \<Rightarrow> 'n json option" where
  "json_object_getn_value [] name k = None"
| "json_object_getn_value ((nm, v) # ms) name k =
     (if length nm \<noteq> k then json_object_getn_value ms name k
      else if nm = take k name then Some v
      else json_object_getn_value ms name k)"

definition json_object_get_value :: "(string \<times> 'n json) list \<Rightarrow> string \<Rightarrow> 'n json option" where
  "json_object_get_value ms name = json_object_getn_value ms name (length name)"

definition json_object_add ::
  "(string \<times> 'n json) list \<Rightarrow> string \<Rightarrow> 'n json \<Rightarrow> (string \<times> 'n json) list option" where
  "json_object_add ms name v =
     (if json_object_getn_value ms name (length name) \<noteq> None then None else Some (ms @ [(name, v)]))"

lemma json_object_get_value_map_of: "json_object_get_value ms name = map_of ms name"
  unfolding json_object_get_value_def
  by (induction ms) (auto split: if_splits)

lemma json_object_add_Some:
  "json_object_add ms name v = Some ms' \<longleftrightarrow> name \<notin> fst ` set ms \<and> ms' = ms @ [(name, v)]"
  using json_object_get_value_map_of[of ms name]
  by (auto simp: json_object_add_def json_object_get_value_def map_of_eq_None_iff split: if_splits)

section \<open>Scalars\<close>

definition is_decimal :: "string \<Rightarrow> bool" where
  "is_decimal s \<longleftrightarrow>
     \<not> (1 < length s \<and> s ! 0 = CHR ''0'' \<and> s ! 1 \<noteq> CHR ''.'') \<and>
     \<not> (2 < length s \<and> take 2 s = ''-0'' \<and> s ! 2 \<noteq> CHR ''.'') \<and>
     list_all (\<lambda>c. c \<notin> {CHR ''x'', CHR ''X'', CHR 0x00}) s"

definition json_value_init_number :: "'n numbers \<Rightarrow> 'n \<Rightarrow> 'n json option" where
  "json_value_init_number N x = (if number_invalid N x then None else Some (JNumber x))"

definition parse_number_value :: "'n numbers \<Rightarrow> string \<Rightarrow> ('n json \<times> string) option" where
  "parse_number_value N s =
     (case strtod N s of
        (None, _) \<Rightarrow> None
      | (Some x, k) \<Rightarrow>
          if \<not> is_decimal (take k s) then None
          else map_option (\<lambda>v. (v, drop k s)) (json_value_init_number N x))"

definition parse_string_value :: "string \<Rightarrow> ('n json \<times> string) option" where
  "parse_string_value s = map_option (\<lambda>(out, rest). (JString out, rest)) (get_quoted_string s)"

definition parse_boolean_value :: "string \<Rightarrow> ('n json \<times> string) option" where
  "parse_boolean_value s =
     (if take 4 s = ''true'' then Some (JBoolean True, drop 4 s)
      else if take 5 s = ''false'' then Some (JBoolean False, drop 5 s)
      else None)"

definition parse_null_value :: "string \<Rightarrow> ('n json \<times> string) option" where
  "parse_null_value s = (if take 4 s = ''null'' then Some (JNull, drop 4 s) else None)"

section \<open>The parser\<close>

text \<open>
  A result is the value and the text left; \<open>None\<close> is the null pointer. The ends of the two
  loops: trimming the arrays to the number of elements fails only when there are none.
\<close>

definition close_object ::
  "(string \<times> 'n json) list \<Rightarrow> string \<Rightarrow> ('n json \<times> string) option" where
  "close_object ms s =
     (let s = skip_space s
      in if \<not> starts (CHR ''}'') s \<or> length ms = 0 then None else Some (JObject ms, tl s))"

definition close_array :: "'n json list \<Rightarrow> string \<Rightarrow> ('n json \<times> string) option" where
  "close_array vs s =
     (let s = skip_space s
      in if \<not> starts (CHR '']'') s \<or> length vs = 0 then None else Some (JArray vs, tl s))"

lemma starts_tl: "starts c s \<Longrightarrow> length (tl s) < length s"
  by (cases s) (auto simp: starts_def)

lemma close_object_Some:
  assumes "close_object ms s = Some (v, rest)"
  shows "v = JObject ms" and "ms \<noteq> []" and "length rest < length s"
  using assms skip_space_length[of s] starts_tl[of "CHR ''}''" "skip_space s"]
  by (auto simp: close_object_def Let_def split: if_splits)

lemma close_array_Some:
  assumes "close_array vs s = Some (v, rest)"
  shows "v = JArray vs" and "vs \<noteq> []" and "length rest < length s"
  using assms skip_space_length[of s] starts_tl[of "CHR '']''" "skip_space s"]
  by (auto simp: close_array_def Let_def split: if_splits)

function (sequential)
      parse_value :: "'n numbers \<Rightarrow> string \<Rightarrow> nat \<Rightarrow> ('n json \<times> string) option"
  and parse_object_value :: "'n numbers \<Rightarrow> string \<Rightarrow> nat \<Rightarrow> ('n json \<times> string) option"
  and object_loop :: "'n numbers \<Rightarrow> string \<Rightarrow> nat \<Rightarrow> (string \<times> 'n json) list \<Rightarrow>
        ('n json \<times> string) option"
  and parse_array_value :: "'n numbers \<Rightarrow> string \<Rightarrow> nat \<Rightarrow> ('n json \<times> string) option"
  and array_loop :: "'n numbers \<Rightarrow> string \<Rightarrow> nat \<Rightarrow> 'n json list \<Rightarrow> ('n json \<times> string) option"
where
  "parse_value N s nesting =
     (if MAX_NESTING < nesting then None
      else let s = skip_space s
      in if s = [] then None
         else let c = hd s
         in if c = CHR ''{'' then parse_object_value N s (nesting + 1)
            else if c = CHR ''['' then parse_array_value N s (nesting + 1)
            else if c = QUOTE then parse_string_value s
            else if c = CHR ''f'' \<or> c = CHR ''t'' then parse_boolean_value s
            else if c = CHR ''-'' \<or> (CHR ''0'' \<le> c \<and> c \<le> CHR ''9'') then parse_number_value N s
            else if c = CHR ''n'' then parse_null_value s
            else None)"
| "parse_object_value N s nesting =
     (if \<not> starts (CHR ''{'') s then None
      else let s1 = skip_space (tl s)
      in if starts (CHR ''}'') s1 then Some (JObject [], tl s1)
         else object_loop N s1 nesting [])"
| "object_loop N s nesting ms =
     (if s = [] then close_object ms s
      else case get_quoted_string s of None \<Rightarrow> None
      | Some (key, s1) \<Rightarrow>
          if CHR 0x00 \<in> set key then None
          else let s2 = skip_space s1
          in if \<not> starts (CHR '':'') s2 then None
             else case parse_value N (tl s2) nesting of None \<Rightarrow> None
             | Some (v, s3) \<Rightarrow>
                 (case json_object_add ms key v of None \<Rightarrow> None
                  | Some ms1 \<Rightarrow>
                      let s4 = skip_space s3
                      in if \<not> starts (CHR '','') s4 then close_object ms1 s4
                         else object_loop N (skip_space (tl s4)) nesting ms1))"
| "parse_array_value N s nesting =
     (if \<not> starts (CHR ''['') s then None
      else let s1 = skip_space (tl s)
      in if starts (CHR '']'') s1 then Some (JArray [], tl s1)
         else array_loop N s1 nesting [])"
| "array_loop N s nesting vs =
     (if s = [] then close_array vs s
      else case parse_value N s nesting of None \<Rightarrow> None
      | Some (v, s1) \<Rightarrow>
          let s2 = skip_space s1
          in if \<not> starts (CHR '','') s2 then close_array (vs @ [v]) s2
             else array_loop N (skip_space (tl s2)) nesting (vs @ [v]))"
  by pat_completeness auto

lemma scalar_length:
  "parse_number_value N s = Some (v, r) \<Longrightarrow> length r \<le> length s"
  "parse_string_value s = Some (v, r) \<Longrightarrow> length r \<le> length s"
  "parse_boolean_value s = Some (v, r) \<Longrightarrow> length r \<le> length s"
  "parse_null_value s = Some (v, r) \<Longrightarrow> length r \<le> length s"
  by (auto simp: parse_number_value_def parse_string_value_def parse_boolean_value_def
      parse_null_value_def split: prod.splits option.splits if_splits
      dest!: get_quoted_string_length)

text \<open>What is left is never longer than what was there, which is why the parser terminates.\<close>

lemma skip_tl_length: "starts c (skip_space s) \<Longrightarrow> length (skip_space (tl (skip_space s))) < length s"
  using skip_space_length[of "tl (skip_space s)"] skip_space_length[of s]
    starts_tl[of c "skip_space s"] by simp

lemma close_empty: "close_object ms [] = None" "close_array vs [] = None"
  by (simp_all add: close_object_def close_array_def starts_def)

lemma parse_dom_length:
  "parse_value_parse_object_value_object_loop_parse_array_value_array_loop_dom (Inl (Inl (N, s, n)))
     \<Longrightarrow> \<forall>v r. parse_value N s n = Some (v, r) \<longrightarrow> length r \<le> length s"
  "parse_value_parse_object_value_object_loop_parse_array_value_array_loop_dom (Inl (Inr (N, s, n)))
     \<Longrightarrow> \<forall>v r. parse_object_value N s n = Some (v, r) \<longrightarrow> length r \<le> length s"
  "parse_value_parse_object_value_object_loop_parse_array_value_array_loop_dom (Inr (Inl (N, s, n, ms)))
     \<Longrightarrow> \<forall>v r. object_loop N s n ms = Some (v, r) \<longrightarrow> length r \<le> length s"
  "parse_value_parse_object_value_object_loop_parse_array_value_array_loop_dom (Inr (Inr (Inl (N, s, n))))
     \<Longrightarrow> \<forall>v r. parse_array_value N s n = Some (v, r) \<longrightarrow> length r \<le> length s"
  "parse_value_parse_object_value_object_loop_parse_array_value_array_loop_dom (Inr (Inr (Inr (N, s, n, vs))))
     \<Longrightarrow> \<forall>v r. array_loop N s n vs = Some (v, r) \<longrightarrow> length r \<le> length s"
proof (induction rule: parse_value_parse_object_value_object_loop_parse_array_value_array_loop.pinduct)
  case (1 N s n)
  have "length r \<le> length (skip_space s)" if "parse_value N s n = Some (v, r)" for v r
    using that 1(2)[OF _ refl _ refl] 1(3)[OF _ refl _ refl]
    by (auto simp: parse_value.psimps[OF 1(1)] Let_def split: if_splits dest: scalar_length)
  then show ?case using skip_space_length[of s] le_trans by blast
next
  case (2 N s n)
  have "length r \<le> length s" if "parse_object_value N s n = Some (v, r)" for v r
    using that 2(2)[OF _ refl] skip_space_length[of "tl s"] starts_tl[of "CHR ''{''" s]
      starts_tl[of "CHR ''}''" "skip_space (tl s)"]
    by (fastforce simp: parse_object_value.psimps[OF 2(1)] Let_def split: if_splits)
  then show ?case by blast
next
  case (3 N s n ms)
  show ?case
  proof (intro allI impI)
    fix v r assume r: "object_loop N s n ms = Some (v, r)"
    show "length r \<le> length s"
    proof (cases "s = []")
      case True
      then show ?thesis using r[unfolded object_loop.psimps[OF 3(1)]] by (simp add: close_empty)
    next
      case False
      with r obtain key s1 x s3 ms1 where
        k: "get_quoted_string s = Some (key, s1)" "CHR 0x00 \<notin> set key"
          "starts (CHR '':'') (skip_space s1)"
          "parse_value N (tl (skip_space s1)) n = Some (x, s3)"
          "json_object_add ms key x = Some ms1"
        and rest: "(if \<not> starts (CHR '','') (skip_space s3) then close_object ms1 (skip_space s3)
             else object_loop N (skip_space (tl (skip_space s3))) n ms1) = Some (v, r)"
        by (auto simp: object_loop.psimps[OF 3(1)] Let_def split: option.splits if_splits)
      have "length s3 \<le> length (tl (skip_space s1))"
        using 3(2)[OF False k(1) refl k(2) refl] k(3,4) by blast
      then have s3: "length s3 < length s"
        using get_quoted_string_length[OF k(1)] starts_tl[OF k(3)] skip_space_length[of s1] by linarith
      have "length r \<le> length s3"
      proof (cases "starts (CHR '','') (skip_space s3)")
        case True
        then have "length r \<le> length (skip_space (tl (skip_space s3)))"
          using rest 3(3)[OF False k(1) refl k(2) refl _ k(4) refl k(5) refl] k(3) by auto
        then show ?thesis using skip_tl_length[OF True] by linarith
      next
        case f: False
        then show ?thesis using rest close_object_Some(3)[of ms1 "skip_space s3" v r]
            skip_space_length[of s3] by simp
      qed
      then show ?thesis using s3 by simp
    qed
  qed
next
  case (4 N s n)
  have "length r \<le> length s" if "parse_array_value N s n = Some (v, r)" for v r
    using that 4(2)[OF _ refl] skip_space_length[of "tl s"] starts_tl[of "CHR ''[''" s]
      starts_tl[of "CHR '']''" "skip_space (tl s)"]
    by (fastforce simp: parse_array_value.psimps[OF 4(1)] Let_def split: if_splits)
  then show ?case by blast
next
  case (5 N s n vs)
  show ?case
  proof (intro allI impI)
    fix v r assume r: "array_loop N s n vs = Some (v, r)"
    show "length r \<le> length s"
    proof (cases "s = []")
      case True
      then show ?thesis using r[unfolded array_loop.psimps[OF 5(1)]] by (simp add: close_empty)
    next
      case False
      with r obtain x s1 where k: "parse_value N s n = Some (x, s1)"
        and rest: "(if \<not> starts (CHR '','') (skip_space s1) then close_array (vs @ [x]) (skip_space s1)
             else array_loop N (skip_space (tl (skip_space s1))) n (vs @ [x])) = Some (v, r)"
        by (auto simp: array_loop.psimps[OF 5(1)] Let_def split: option.splits)
      have "length s1 \<le> length s" using 5(2)[OF False] k by blast
      moreover have "length r \<le> length s1"
      proof (cases "starts (CHR '','') (skip_space s1)")
        case True
        then have "length r \<le> length (skip_space (tl (skip_space s1)))"
          using rest 5(3)[OF False k refl refl] by auto
        then show ?thesis using skip_tl_length[OF True] by linarith
      next
        case f: False
        then show ?thesis using rest close_array_Some(3)[of "vs @ [x]" "skip_space s1" v r]
            skip_space_length[of s1] by simp
      qed
      ultimately show ?thesis by simp
    qed
  qed
qed

termination parse_value
proof (relation "measure (\<lambda>x. case x of
     Inl (Inl (N, s, n)) \<Rightarrow> 3 * length s + 1
   | Inl (Inr (N, s, n)) \<Rightarrow> 3 * length s
   | Inr (Inl (N, s, n, ms)) \<Rightarrow> 3 * length s + 2
   | Inr (Inr (Inl (N, s, n))) \<Rightarrow> 3 * length s
   | Inr (Inr (Inr (N, s, n, vs))) \<Rightarrow> 3 * length s + 2)", goal_cases)
  case (2 N s n s' c)
  then show ?case using skip_space_length[of s] by simp
next
  case (3 N s n s' c)
  then show ?case using skip_space_length[of s] by simp
next
  case (4 N s n s')
  then show ?case using skip_space_length[of "tl s"] starts_tl[of "CHR ''{''" s] by simp
next
  case (5 N s n ms p key s1 s2)
  then show ?case
    using get_quoted_string_length[of s key s1] skip_space_length[of s1] starts_tl[of "CHR '':''" s2]
    by simp
next
  case (6 N s n ms p key s1 s2 q v s3 ms1 s4)
  then have "length s3 \<le> length (tl s2)" using parse_dom_length(1)[of N "tl s2" n] by blast
  then show ?case
    using 6 get_quoted_string_length[of s key s1] skip_space_length[of s1] starts_tl[of "CHR '':''" s2]
      skip_tl_length[of "CHR '',''" s3] by simp
next
  case (7 N s n s')
  then show ?case using skip_space_length[of "tl s"] starts_tl[of "CHR ''[''" s] by simp
next
  case (9 N s n vs p v s1 s2)
  then have "length s1 \<le> length s" using parse_dom_length(1)[of N s n] by blast
  then show ?case using 9 skip_tl_length[of "CHR '',''" s1] by simp
qed auto

declare parse_value.simps [simp del]
declare parse_object_value.simps [simp del]
declare object_loop.simps [simp del]
declare parse_array_value.simps [simp del]
declare array_loop.simps [simp del]

text \<open>
  \<open>json_parse_string\<close>: a byte order mark is skipped, and whatever follows the first value is not
  looked at.
\<close>

definition json_parse_string :: "'n numbers \<Rightarrow> string \<Rightarrow> 'n json option" where
  "json_parse_string N s =
     map_option fst
       (parse_value N (if take 3 s = [CHR 0xEF, CHR 0xBB, CHR 0xBF] then drop 3 s else s) 0)"

end
