(* ===== verification/Json_Text.thy ===== *)
theory Json_Text
  imports Json
begin

text \<open>
  \<open>src/PCom3/parson.c\<close>, continued: printing, UTF-8, and the operations on objects that the
  client calls; then what parsing and printing have to do with each other.
\<close>

unbundle bit_operations_syntax

section \<open>Printing\<close>

definition hex_digit :: "nat \<Rightarrow> char" where
  "hex_digit d = ''0123456789abcdef'' ! d"

text \<open>What \<open>json_serialize_string\<close> writes for one character; \<open>esc\<close> is \<open>parson_escape_slashes\<close>.\<close>

definition json_escape :: "bool \<Rightarrow> char \<Rightarrow> string" where
  "json_escape esc c =
     (if c = QUOTE then [BACKSLASH, QUOTE]
      else if c = BACKSLASH then [BACKSLASH, BACKSLASH]
      else if c = CHR 0x08 then [BACKSLASH, CHR ''b'']
      else if c = CHR 0x0C then [BACKSLASH, CHR ''f'']
      else if c = CHR 0x0A then [BACKSLASH, CHR ''n'']
      else if c = CHR 0x0D then [BACKSLASH, CHR ''r'']
      else if c = CHR 0x09 then [BACKSLASH, CHR ''t'']
      else if of_char c < (0x20 :: nat)
      then [BACKSLASH, CHR ''u'', CHR ''0'', CHR ''0'', hex_digit (of_char c div 16), hex_digit (of_char c mod 16)]
      else if c = CHR ''/'' \<and> esc then [BACKSLASH, CHR ''/'']
      else [c])"

definition json_serialize_string :: "bool \<Rightarrow> string \<Rightarrow> string" where
  "json_serialize_string esc s = QUOTE # concat (map (json_escape esc) s) @ [QUOTE]"

definition append_indent :: "nat \<Rightarrow> string" where
  "append_indent level = concat (replicate level ''    '')"

text \<open>
  \<open>json_serialize_to_buffer_r\<close> on a value that is not a null pointer: the text written at \<open>level\<close>,
  pretty or not. The loops over the elements are \<open>array_items\<close> and \<open>object_items\<close>. The text is
  shorter than \<open>INT_MAX\<close>, so that the counters do not overflow.
\<close>

definition newline :: "bool \<Rightarrow> string" where
  "newline is_pretty = (if is_pretty then [CHR 0x0A] else [])"

definition indent :: "bool \<Rightarrow> nat \<Rightarrow> string" where
  "indent is_pretty level = (if is_pretty then append_indent level else [])"

definition comma :: "'a list \<Rightarrow> string" where
  "comma left = (if left = [] then [] else '','')"

fun json_serialize_to_buffer_r :: "'n numbers \<Rightarrow> bool \<Rightarrow> nat \<Rightarrow> 'n json \<Rightarrow> string"
  and array_items :: "'n numbers \<Rightarrow> bool \<Rightarrow> nat \<Rightarrow> 'n json list \<Rightarrow> string"
  and object_items :: "'n numbers \<Rightarrow> bool \<Rightarrow> nat \<Rightarrow> (string \<times> 'n json) list \<Rightarrow> string"
where
  "json_serialize_to_buffer_r N p level (JArray vs) =
     ''['' @ (if vs = [] then [] else newline p) @ array_items N p level vs @
     (if vs = [] then [] else indent p level) @ '']''"
| "json_serialize_to_buffer_r N p level (JObject ms) =
     ''{'' @ (if ms = [] then [] else newline p) @ object_items N p level ms @
     (if ms = [] then [] else indent p level) @ ''}''"
| "json_serialize_to_buffer_r N p level (JString s) = json_serialize_string (escape_slashes N) s"
| "json_serialize_to_buffer_r N p level (JBoolean b) = (if b then ''true'' else ''false'')"
| "json_serialize_to_buffer_r N p level (JNumber x) = number_text N x"
| "json_serialize_to_buffer_r N p level JNull = ''null''"
| "array_items N p level [] = []"
| "array_items N p level (v # vs) =
     indent p (level + 1) @ json_serialize_to_buffer_r N p (level + 1) v @ comma vs @ newline p @
     array_items N p level vs"
| "object_items N p level [] = []"
| "object_items N p level ((key, v) # ms) =
     indent p (level + 1) @ json_serialize_string (escape_slashes N) key @ '':'' @ (if p then '' '' else []) @
     json_serialize_to_buffer_r N p (level + 1) v @ comma ms @ newline p @
     object_items N p level ms"

definition json_serialize_to_string_pretty :: "'n numbers \<Rightarrow> 'n json option \<Rightarrow> string option" where
  "json_serialize_to_string_pretty N value = map_option (json_serialize_to_buffer_r N True 0) value"

section \<open>UTF-8\<close>

definition is_cont :: "char \<Rightarrow> bool" where
  "is_cont c \<longleftrightarrow> (of_char c :: u32) AND 0xC0 = 0x80"

definition num_bytes_in_utf8_sequence :: "char \<Rightarrow> nat" where
  "num_bytes_in_utf8_sequence ch =
     (let c = of_char ch :: u32
      in if c = 0xC0 \<or> c = 0xC1 \<or> c > 0xF4 \<or> is_cont ch then 0
         else if c AND 0x80 = 0 then 1
         else if c AND 0xE0 = 0xC0 then 2
         else if c AND 0xF0 = 0xE0 then 3
         else if c AND 0xF8 = 0xF0 then 4
         else 0)"

text \<open>The code point of the sequence at the start of the text, if the bytes have its shape.\<close>

definition utf8_code_point :: "string \<Rightarrow> u32 option" where
  "utf8_code_point s =
     (let b = (\<lambda>i. of_char (s ! i) :: u32); len = num_bytes_in_utf8_sequence (hd s);
          cont = (\<lambda>i. i < length s \<and> is_cont (s ! i));
          add = (\<lambda>cp i. push_bit 6 cp OR (b i AND 0x3F))
      in if len = 1 then Some (b 0)
         else if len = 2 \<and> cont 1 then Some (add (b 0 AND 0x1F) 1)
         else if len = 3 \<and> cont 1 \<and> cont 2 then Some (add (add (b 0 AND 0xF) 1) 2)
         else if len = 4 \<and> cont 1 \<and> cont 2 \<and> cont 3
              then Some (add (add (add (b 0 AND 0x7) 1) 2) 3)
         else None)"

definition verify_utf8_sequence :: "string \<Rightarrow> nat option" where
  "verify_utf8_sequence s =
     (let len = num_bytes_in_utf8_sequence (hd s)
      in case utf8_code_point s of None \<Rightarrow> None
         | Some cp \<Rightarrow>
             if (cp < 0x80 \<and> 1 < len) \<or> (cp < 0x800 \<and> 2 < len) \<or> (cp < 0x10000 \<and> 3 < len) then None
             else if cp > 0x10FFFF then None
             else if cp \<ge> 0xD800 \<and> cp \<le> 0xDFFF then None
             else Some len)"

lemma verify_utf8_pos: "verify_utf8_sequence s = Some k \<Longrightarrow> 0 < k"
  by (auto simp: verify_utf8_sequence_def utf8_code_point_def Let_def split: option.splits if_splits)

text \<open>
  The check as the parser and \<open>json_value_init_string\<close> call it, with the length of a string that a NUL ends: no byte behind
  the NUL counts. For memory and a length that do not agree it is \<open>utf8_valid_for\<close> in \<open>Json_Object\<close>, which is shown
  there to be the same on such a string.
\<close>

function is_valid_utf8 :: "string \<Rightarrow> bool" where
  "is_valid_utf8 s =
     (if s = [] then True
      else case verify_utf8_sequence s of None \<Rightarrow> False | Some k \<Rightarrow> is_valid_utf8 (drop k s))"
  by pat_completeness auto
termination
  by (relation "measure length") (auto dest: verify_utf8_pos)

declare is_valid_utf8.simps [simp del]

section \<open>Building and reading objects\<close>

text \<open>
  The setters give the status and the object afterwards; a null pointer as the value is the
  status \<open>JSONFailure\<close>. The values handed in are new, with no parent.
\<close>

definition json_value_init_string :: "string \<Rightarrow> 'n json option" where
  "json_value_init_string s = (if is_valid_utf8 s then Some (JString s) else None)"

fun replace_value :: "(string \<times> 'n json) list \<Rightarrow> string \<Rightarrow> 'n json \<Rightarrow> (string \<times> 'n json) list" where
  "replace_value [] name v = []"
| "replace_value ((nm, x) # ms) name v =
     (if nm = name then (nm, v) # ms else (nm, x) # replace_value ms name v)"

definition json_object_set_value ::
  "(string \<times> 'n json) list \<Rightarrow> string \<Rightarrow> 'n json option \<Rightarrow> bool \<times> (string \<times> 'n json) list" where
  "json_object_set_value ms name value =
     (case value of None \<Rightarrow> (False, ms)
      | Some v \<Rightarrow>
          if json_object_get_value ms name \<noteq> None then (True, replace_value ms name v)
          else (case json_object_add ms name v of None \<Rightarrow> (False, ms) | Some ms1 \<Rightarrow> (True, ms1)))"

definition json_object_set_string ::
  "(string \<times> 'n json) list \<Rightarrow> string \<Rightarrow> string \<Rightarrow> bool \<times> (string \<times> 'n json) list" where
  "json_object_set_string ms name s = json_object_set_value ms name (json_value_init_string s)"

definition json_object_set_number ::
  "'n numbers \<Rightarrow> (string \<times> 'n json) list \<Rightarrow> string \<Rightarrow> 'n \<Rightarrow> bool \<times> (string \<times> 'n json) list" where
  "json_object_set_number N ms name x = json_object_set_value ms name (json_value_init_number N x)"

text \<open>\<open>json_value_get_object\<close> of a null pointer or of another kind of value is a null pointer.\<close>

definition json_value_get_object :: "'n json option \<Rightarrow> (string \<times> 'n json) list option" where
  "json_value_get_object value = (case value of Some (JObject ms) \<Rightarrow> Some ms | _ \<Rightarrow> None)"

definition json_object_has_value :: "(string \<times> 'n json) list option \<Rightarrow> string \<Rightarrow> bool" where
  "json_object_has_value ob name \<longleftrightarrow>
     (case ob of None \<Rightarrow> False | Some ms \<Rightarrow> json_object_get_value ms name \<noteq> None)"

definition json_object_get_string :: "(string \<times> 'n json) list option \<Rightarrow> string \<Rightarrow> string option" where
  "json_object_get_string ob name =
     (case ob of None \<Rightarrow> None
      | Some ms \<Rightarrow> (case json_object_get_value ms name of Some (JString s) \<Rightarrow> Some s | _ \<Rightarrow> None))"

section \<open>Strings are read back\<close>

lemma hex_digit_all:
  "d < 16 \<Longrightarrow> hex_char_to_int (hex_digit d) = int d \<and> hex_digit d \<noteq> QUOTE \<and> hex_digit d \<noteq> BACKSLASH \<and> hex_digit d \<noteq> CHR 0x00"
proof -
  have "\<forall>d \<in> set [0..<16]. hex_char_to_int (hex_digit d) = int d \<and> hex_digit d \<noteq> QUOTE \<and> hex_digit d \<noteq> BACKSLASH \<and> hex_digit d \<noteq> CHR 0x00"
    by (simp add: upt_rec hex_digit_def hex_char_to_int_def less_eq_char_def)
  then show "d < 16 \<Longrightarrow> ?thesis" by simp
qed

lemma hex_word:
  assumes "a < 2" and "b < 16"
  shows "push_bit 4 (word_of_int (int a) :: u32) OR word_of_int (int b) = word_of_nat (16 * a + b)"
proof -
  have "\<forall>a \<in> set [0..<2]. \<forall>b \<in> set [0..<16].
      push_bit 4 (word_of_int (int a) :: u32) OR word_of_int (int b) = word_of_nat (16 * a + b)"
    by (simp add: upt_rec)
  then show ?thesis using assms by simp
qed

lemma parse_utf16_control:
  assumes "n < 32"
  shows "parse_utf16 (CHR ''0'' # CHR ''0'' # hex_digit (n div 16) # hex_digit (n mod 16) # r)
     = Some ([char_of n], r)"
proof -
  have d: "n div 16 < 2" "n mod 16 < 16" "n div 16 < 16" using assms by auto
  have z: "hex_char_to_int CHR ''0'' = 0" by (simp add: hex_char_to_int_def less_eq_char_def)
  have v: "parse_utf16_hex (CHR ''0'' # CHR ''0'' # hex_digit (n div 16) # hex_digit (n mod 16) # r)
      = Some (word_of_nat n, r)"
    using hex_digit_all[OF d(3)] hex_digit_all[OF d(2)] hex_word[OF d(1,2)]
    by (simp add: parse_utf16_hex_def z)
  have "unat (word_of_nat n :: u32) = n" using assms by (simp add: unat_of_nat take_bit_nat_eq_self)
  moreover from this have "(word_of_nat n :: u32) < 0x80" using assms by (simp add: word_less_nat_alt)
  ultimately show ?thesis by (simp only: parse_utf16_def v option.case prod.case if_True)
qed

lemma escape_read:
  "skip_loop (json_escape esc c @ r) = map_option (\<lambda>(raw, rest). (json_escape esc c @ raw, rest)) (skip_loop r)"
  "process_string (json_escape esc c @ r) = map_option ((#) c) (process_string r)"
proof -
  let ?n = "of_char c :: nat"
  have h: "hex_digit (?n div 16) \<noteq> QUOTE" "hex_digit (?n div 16) \<noteq> BACKSLASH"
    "hex_digit (?n mod 16) \<noteq> QUOTE" "hex_digit (?n mod 16) \<noteq> BACKSLASH" if "?n < 32"
    using that hex_digit_all[of "?n div 16"] hex_digit_all[of "?n mod 16"] by auto
  show "skip_loop (json_escape esc c @ r) = map_option (\<lambda>(raw, rest). (json_escape esc c @ raw, rest)) (skip_loop r)"
    using h by (cases "skip_loop r") (auto simp: json_escape_def)
  show "process_string (json_escape esc c @ r) = map_option ((#) c) (process_string r)"
    using parse_utf16_control[of ?n r]
    by (cases "process_string r") (simp_all add: json_escape_def process_string.simps(2)[of c] process_string.simps(2)[of BACKSLASH] simple_escape_def)
qed

lemma escapes_read:
  "skip_loop (concat (map (json_escape esc) s) @ QUOTE # r) = Some (concat (map (json_escape esc) s), r)"
  "process_string (concat (map (json_escape esc) s)) = Some s"
  by (induction s) (simp_all add: escape_read process_string.simps(1))

lemma get_quoted_serialized: "get_quoted_string (json_serialize_string esc s @ r) = Some (s, r)"
  by (simp add: get_quoted_string_def skip_quotes_def starts_def json_serialize_string_def escapes_read)

section \<open>Values are read back\<close>

text \<open>
  The shape of the values that parsing gives: no object has two members of one name, no name
  contains a NUL, and the values that contain others are nested at most \<open>k\<close> deep.
\<close>

fun json_wf :: "nat \<Rightarrow> 'n json \<Rightarrow> bool" where
  "json_wf k (JArray vs) \<longleftrightarrow> vs = [] \<or> 0 < k \<and> (\<forall>v \<in> set vs. json_wf (k - 1) v)"
| "json_wf k (JObject ms) \<longleftrightarrow>
     ms = [] \<or> 0 < k \<and> distinct (map fst ms) \<and>
       (\<forall>m \<in> set ms. CHR 0x00 \<notin> set (fst m) \<and> json_wf (k - 1) (snd m))"
| "json_wf k _ \<longleftrightarrow> True"

text \<open>
  A number that \<open>strtod\<close> reads back from its text, whatever may follow it in a JSON text. Not every finite \<open>double\<close> is one: the
  text of a subnormal number, with its 17 digits, makes the \<open>strtod\<close> of glibc set \<open>errno\<close>, which the parser takes for an error.
\<close>

definition ends_number :: "string \<Rightarrow> bool" where
  "ends_number r \<longleftrightarrow> r = [] \<or> hd r \<in> {CHR '','', CHR '']'', CHR ''}''} \<or> isspace (hd r)"

definition reads_back :: "'n numbers \<Rightarrow> 'n \<Rightarrow> bool" where
  "reads_back N x \<longleftrightarrow>
     \<not> number_invalid N x \<and> number_text N x \<noteq> [] \<and>
     (let c = hd (number_text N x) in c = CHR ''-'' \<or> (CHR ''0'' \<le> c \<and> c \<le> CHR ''9'')) \<and>
     is_decimal (number_text N x) \<and>
     (\<forall>r. ends_number r \<longrightarrow> strtod N (number_text N x @ r) = (Some x, length (number_text N x)))"

lemma skip_space_append: "list_all isspace ws \<Longrightarrow> skip_space (ws @ s) = skip_space s"
  by (induction ws) auto

lemma skip_space_head: "s \<noteq> [] \<Longrightarrow> \<not> isspace (hd s) \<Longrightarrow> skip_space s = s"
  by (cases s) auto

lemma skip_space_bracket:
  assumes "list_all isspace ws"
  shows "skip_space (ws @ CHR '']'' # r) = CHR '']'' # r" "skip_space (ws @ CHR ''}'' # r) = CHR ''}'' # r"
  by (simp_all add: skip_space_append[OF assms], simp_all add: isspace_def)

lemma layout_space: "list_all isspace (newline p)" "list_all isspace (indent p level)"
proof -
  have "list_all isspace (append_indent level)"
    by (induction level) (simp_all add: append_indent_def isspace_def)
  then show "list_all isspace (newline p)" "list_all isspace (indent p level)"
    by (simp_all add: newline_def indent_def isspace_def)
qed

lemmas layout = skip_space_append[OF layout_space(1)] skip_space_append[OF layout_space(2)]

definition value_head :: "char \<Rightarrow> bool" where
  "value_head c \<longleftrightarrow> c \<in> {CHR ''['', CHR ''{'', QUOTE, CHR ''t'', CHR ''f'', CHR ''n'', CHR ''-''} \<or>
     (CHR ''0'' \<le> c \<and> c \<le> CHR ''9'')"

lemma value_head_facts:
  "value_head c \<Longrightarrow> \<not> isspace c \<and> c \<noteq> CHR '']'' \<and> c \<noteq> CHR ''}'' \<and> c \<noteq> CHR '',''"
  by (auto simp: value_head_def isspace_def less_eq_char_def)

lemma serialized_head:
  assumes "\<forall>x \<in> set_json v. reads_back N x"
  shows "json_serialize_to_buffer_r N p level v \<noteq> [] \<and> value_head (hd (json_serialize_to_buffer_r N p level v))"
proof (cases v)
  case (JNumber x)
  then show ?thesis using assms by (auto simp: reads_back_def value_head_def Let_def)
qed (auto simp: value_head_def json_serialize_string_def)

lemma ends_numberI: "ends_number (comma vs @ newline p @ r)"
  if "vs = [] \<Longrightarrow> p = False \<Longrightarrow> ends_number r"
  using that by (auto simp: comma_def newline_def ends_number_def isspace_def)

lemma parse_number_text:
  "reads_back N x \<Longrightarrow> ends_number r \<Longrightarrow> parse_number_value N (number_text N x @ r) = Some (JNumber x, r)"
  by (simp add: reads_back_def parse_number_value_def json_value_init_number_def)

lemma parse_scalar:
  assumes "n \<le> MAX_NESTING" and "\<forall>x \<in> set_json v. reads_back N x"
    and "\<forall>vs ms. v \<noteq> JArray vs \<and> v \<noteq> JObject ms" and "ends_number r"
  shows "parse_value N (json_serialize_to_buffer_r N p level v @ r) n = Some (v, r)"
proof -
  let ?t = "json_serialize_to_buffer_r N p level v"
  have h: "?t \<noteq> []" "value_head (hd ?t)" using serialized_head[OF assms(2)] by auto
  then have s: "skip_space (?t @ r) = ?t @ r"
    using value_head_facts[OF h(2)] by (simp add: skip_space_head)
  show ?thesis
  proof (cases v)
    case (JNumber x)
    then show ?thesis
      using h s assms(1,2,4) parse_number_text[of N x r]
      by (subst parse_value.simps) (auto simp: reads_back_def Let_def less_eq_char_def)
  next
    case (JString t)
    then show ?thesis using s assms(1) get_quoted_serialized[of "escape_slashes N" t r]
      by (subst parse_value.simps)
        (simp add: parse_string_value_def json_serialize_string_def Let_def)
  qed (use s assms(1,3) in \<open>subst parse_value.simps,
        auto simp: parse_boolean_value_def parse_null_value_def less_eq_char_def Let_def\<close>)+
qed

lemma object_member:
  assumes "CHR 0x00 \<notin> set key" and "parse_value N s n = Some (v, s3)"
    and "json_object_add ms key v = Some ms1"
  shows "object_loop N (json_serialize_string (escape_slashes N) key @ CHR '':'' # s) n ms =
    (if \<not> starts CHR '','' (skip_space s3) then close_object ms1 (skip_space s3)
     else object_loop N (skip_space (tl (skip_space s3))) n ms1)"
proof -
  have "json_serialize_string (escape_slashes N) key @ CHR '':'' # s \<noteq> []" by simp
  moreover have c: "skip_space (CHR '':'' # s) = CHR '':'' # s" by (simp add: isspace_def)
  moreover have "starts CHR '':'' (CHR '':'' # s)" by (simp add: starts_def)
  ultimately show ?thesis using assms
    by (subst object_loop.simps) (simp only: get_quoted_serialized c option.case prod.case Let_def
        if_False if_True simp_thms list.sel)
qed

text \<open>
  The text of a value, followed by anything that does not continue a number, is read as that
  value; the loops over the elements read the rest of the elements and the closing bracket.
\<close>

lemma parse_serialized:
  "\<lbrakk>n \<le> MAX_NESTING; json_wf (MAX_NESTING - n) v; \<forall>x \<in> set_json v. reads_back N x; ends_number r\<rbrakk> \<Longrightarrow>
     parse_value N (json_serialize_to_buffer_r N p level v @ r) n = Some (v, r)"
  "\<lbrakk>vs \<noteq> []; n \<le> MAX_NESTING; \<forall>v \<in> set vs. json_wf (MAX_NESTING - n) v;
    \<forall>v \<in> set vs. \<forall>x \<in> set_json v. reads_back N x; list_all isspace ws\<rbrakk> \<Longrightarrow>
     array_loop N (skip_space (array_items N p level vs @ ws @ CHR '']'' # r)) n acc_a
       = Some (JArray (acc_a @ vs), r)"
  "\<lbrakk>ms \<noteq> []; n \<le> MAX_NESTING; distinct (map fst (acc_o @ ms));
    \<forall>m \<in> set ms. CHR 0x00 \<notin> set (fst m) \<and> json_wf (MAX_NESTING - n) (snd m);
    \<forall>m \<in> set ms. \<forall>x \<in> set_json (snd m). reads_back N x; list_all isspace ws\<rbrakk> \<Longrightarrow>
     object_loop N (skip_space (object_items N p level ms @ ws @ CHR ''}'' # r)) n acc_o
       = Some (JObject (acc_o @ ms), r)"
proof (induction N p level v and N p level vs and N p level ms arbitrary: n r and n r ws acc_a and n r ws acc_o
    rule: json_serialize_to_buffer_r_array_items_object_items.induct)
  case (1 N p level vs)
  show ?case
  proof (cases "vs = []")
    case True
    then show ?thesis using 1(2)
      by (subst parse_value.simps, subst parse_array_value.simps)
        (simp add: starts_def isspace_def)
  next
    case False
    have "0 < MAX_NESTING - n" and w: "\<forall>v \<in> set vs. json_wf (MAX_NESTING - (n + 1)) v"
      using 1(3) False by auto
    moreover have "\<forall>v \<in> set vs. \<forall>x \<in> set_json v. reads_back N x" using 1(4) by auto
    ultimately have "array_loop N (skip_space (array_items N p level vs @ indent p level @ CHR '']'' # r)) (n + 1) []
       = Some (JArray ([] @ vs), r)"
      using 1(1)[of "n + 1" "indent p level" r "[]"] False layout_space(2)[of p level] by simp
    moreover obtain v vs1 where "vs = v # vs1" using False by (cases vs) auto
    then have "\<not> starts CHR '']'' (skip_space (array_items N p level vs @ indent p level @ CHR '']'' # r))"
      using serialized_head[of v N p "level + 1"] 1(4) value_head_facts
      by (auto simp: layout starts_def skip_space_head)
    ultimately show ?thesis using 1(2) False
      by (subst parse_value.simps, subst parse_array_value.simps)
        (simp add: starts_def isspace_def layout Let_def)
  qed
next
  case (2 N p level ms)
  show ?case
  proof (cases "ms = []")
    case True
    then show ?thesis using 2(2)
      by (subst parse_value.simps, subst parse_object_value.simps)
        (simp add: starts_def isspace_def)
  next
    case False
    have "0 < MAX_NESTING - n" "distinct (map fst ([] @ ms))"
      and w: "\<forall>m \<in> set ms. CHR 0x00 \<notin> set (fst m) \<and> json_wf (MAX_NESTING - (n + 1)) (snd m)"
      using 2(3) False by auto
    moreover have "\<forall>m \<in> set ms. \<forall>x \<in> set_json (snd m). reads_back N x" using 2(4) by fastforce
    ultimately have "object_loop N (skip_space (object_items N p level ms @ indent p level @ CHR ''}'' # r)) (n + 1) []
       = Some (JObject ([] @ ms), r)"
      using 2(1)[of "n + 1" "[]" "indent p level" r] False layout_space(2)[of p level] by simp
    moreover obtain key v ms1 where "ms = (key, v) # ms1" using False by (cases ms) auto
    then have "\<not> starts CHR ''}'' (skip_space (object_items N p level ms @ indent p level @ CHR ''}'' # r))"
      by (simp add: layout starts_def json_serialize_string_def isspace_def)
    ultimately show ?thesis using 2(2) False
      by (subst parse_value.simps, subst parse_object_value.simps)
        (simp add: starts_def isspace_def layout Let_def)
  qed
next
  case (8 N p level v vs)
  let ?t = "json_serialize_to_buffer_r N p (level + 1) v"
  let ?after = "newline p @ array_items N p level vs @ ws @ CHR '']'' # r"
  have ok: "\<forall>x \<in> set_json v. reads_back N x" using 8(6) by simp
  have h: "?t \<noteq> []" "\<not> isspace (hd ?t)" using serialized_head[OF ok] value_head_facts by auto
  have laid: "skip_space (array_items N p level (v # vs) @ ws @ CHR '']'' # r) = ?t @ comma vs @ ?after"
    using h by (simp add: layout skip_space_head)
  have "ends_number (comma vs @ ?after)"
    using 8(7) by (intro ends_numberI) (cases ws; auto simp: ends_number_def)
  then have v: "parse_value N (?t @ comma vs @ ?after) n = Some (v, comma vs @ ?after)"
    using 8(1)[of n] 8(4,5) ok by simp
  show ?case
  proof (cases "vs = []")
    case True
    then have "skip_space ?after = CHR '']'' # r"
      using skip_space_bracket[OF 8(7)] by (simp add: layout)
    then show ?thesis using h v True
      by (subst laid, subst array_loop.simps) (simp add: comma_def starts_def close_array_def isspace_def)
  next
    case False
    then have "skip_space (comma vs @ ?after) = CHR '','' # ?after"
      by (simp add: comma_def isspace_def)
    then show ?thesis using h v False 8(2)[of n ws r "acc_a @ [v]"] 8(4-7)
      by (subst laid, subst array_loop.simps) (simp add: starts_def layout)
  qed
next
  case (10 N p level key v ms)
  let ?t = "json_serialize_to_buffer_r N p (level + 1) v"
  let ?blank = "if p then '' '' else []"
  let ?after = "newline p @ object_items N p level ms @ ws @ CHR ''}'' # r"
  have ok: "\<forall>x \<in> set_json v. reads_back N x" using 10(7) by simp
  have h: "?t \<noteq> []" "\<not> isspace (hd ?t)" using serialized_head[OF ok] value_head_facts by auto
  have laid: "skip_space (object_items N p level ((key, v) # ms) @ ws @ CHR ''}'' # r)
      = json_serialize_string (escape_slashes N) key @ CHR '':'' # ?blank @ ?t @ comma ms @ ?after"
    by (simp add: layout json_serialize_string_def isspace_def)
  have "ends_number (comma ms @ ?after)"
    using 10(8) by (intro ends_numberI) (cases ws; auto simp: ends_number_def)
  then have "parse_value N (?t @ comma ms @ ?after) n = Some (v, comma ms @ ?after)"
    using 10(1)[of n] 10(4,6) ok by simp
  moreover have "parse_value N (?blank @ ?t @ comma ms @ ?after) n = parse_value N (?t @ comma ms @ ?after) n"
    by (subst (1 2) parse_value.simps) (simp add: isspace_def)
  ultimately have v: "parse_value N (?blank @ ?t @ comma ms @ ?after) n = Some (v, comma ms @ ?after)"
    by simp
  have add: "json_object_add acc_o key v = Some (acc_o @ [(key, v)])"
    using 10(5) by (auto simp: json_object_add_Some)
  note step = object_member[OF conjunct1[OF 10(6)[rule_format, of "(key, v)", simplified]] v add]
  show ?case
  proof (cases "ms = []")
    case True
    then have "skip_space ?after = CHR ''}'' # r"
      using skip_space_bracket[OF 10(8)] by (simp add: layout)
    then show ?thesis unfolding laid step using True
      by (simp add: comma_def starts_def close_object_def isspace_def)
  next
    case False
    then have "skip_space (comma ms @ ?after) = CHR '','' # ?after"
      by (simp add: comma_def isspace_def)
    then show ?thesis unfolding laid step
      using False 10(2)[of n "acc_o @ [(key, v)]" ws r] 10(4-8)
      by (simp add: starts_def layout)
  qed
qed (simp_all del: json_serialize_to_buffer_r.simps add: parse_scalar)

lemma serialized_read:
  assumes "json_wf MAX_NESTING v" and "\<forall>x \<in> set_json v. reads_back N x"
  shows "\<exists>s. json_serialize_to_string_pretty N (Some v) = Some s \<and> json_parse_string N s = Some v"
proof -
  let ?t = "json_serialize_to_buffer_r N True 0 v"
  have "parse_value N (?t @ []) 0 = Some (v, [])"
    by (rule parse_serialized(1)) (use assms in \<open>simp_all add: ends_number_def\<close>)
  moreover have "take 3 ?t \<noteq> [CHR 0xEF, CHR 0xBB, CHR 0xBF]"
    using serialized_head[OF assms(2), of True 0]
    by (cases ?t) (auto simp: value_head_def less_eq_char_def)
  ultimately show ?thesis by (simp add: json_serialize_to_string_pretty_def json_parse_string_def)
qed

text \<open>
  C4: what the library prints, it reads back. The pretty text, with slashes escaped or not, of a value in which no object
  repeats a name or has a NUL in one, whose containers are nested at most \<open>MAX_NESTING\<close> deep and
  whose numbers \<open>strtod\<close> reads back from their texts, is parsed to that value, whatever bytes its
  strings contain.
\<close>

theorem json_printed_is_read:
  assumes "json_wf MAX_NESTING v" and "\<forall>x \<in> set_json v. reads_back N x"
  shows "\<exists>s. json_serialize_to_string_pretty N (Some v) = Some s \<and> json_parse_string N s = Some v"
  using assms by (rule serialized_read)

text \<open>
  A concrete stand-in for the conversions, for examples: numbers are integers, their text is
  decimal, and reading takes a sign and digits.
\<close>

definition int_numbers :: "int numbers" where
  "int_numbers =
     \<lparr>strtod = (\<lambda>s.
        let neg = starts (CHR ''-'') s; s1 = (if neg then tl s else s); (v, r) = scan_digits 10 0 s1
        in (Some (if neg then - int v else int v), length s - length r)),
      number_text = int_text, number_invalid = (\<lambda>_. False), number_of_int = (\<lambda>i. i), escape_slashes = True\<rparr>"

lemma ends_number_nondigit: "ends_number r \<Longrightarrow> r = [] \<or> \<not> isdigit (hd r)"
  by (auto simp: ends_number_def isspace_def is_digit_of_def digit_val_def less_eq_char_def)

lemma isdigit_range: "isdigit c \<longleftrightarrow> CHR ''0'' \<le> c \<and> c \<le> CHR ''9''"
  by (auto simp: is_digit_of_def digit_val_def less_eq_char_def)

lemma nat_text_decimal: "is_decimal (nat_text n)"
  and minus_nat_text_decimal: "0 < n \<Longrightarrow> is_decimal (CHR ''-'' # nat_text n)"
proof -
  have all: "list_all (\<lambda>c. c \<notin> {CHR ''x'', CHR ''X'', CHR 0x00}) (nat_text n)"
  proof -
    have "\<not> isdigit CHR ''x'' \<and> \<not> isdigit CHR ''X'' \<and> \<not> isdigit CHR 0x00"
      by (simp add: isdigit_range less_eq_char_def)
    then show ?thesis by (auto simp: list_all_iff dest: nat_text_isdigit)
  qed
  have one: "1 < length (nat_text n) \<Longrightarrow> 0 < n"
    by (cases "n = 0") (simp_all add: nat_text.simps[of 0])
  have nz: "nat_text n ! 0 \<noteq> CHR ''0''" if n: "0 < n"
  proof -
    obtain d where "0 < d" "d < 10" "hd (nat_text n) = digit_char d" using hd_nat_text[OF n] by blast
    then show ?thesis using digit_char_all[of d] by (simp add: hd_conv_nth)
  qed
  have h: "nat_text n ! 0 \<noteq> CHR ''-''"
    using hd_nat_text_isdigit[of n] by (auto simp: hd_conv_nth isdigit_range less_eq_char_def)
  show "is_decimal (nat_text n)"
    using all one nz h by (cases "nat_text n") (auto simp: is_decimal_def)
  show "0 < n \<Longrightarrow> is_decimal (CHR ''-'' # nat_text n)"
    using all nz by (cases "nat_text n") (auto simp: is_decimal_def)
qed

lemma int_numbers_read_back: "reads_back int_numbers x"
proof (cases "x < 0")
  case True
  then show ?thesis
    using minus_nat_text_decimal[of "nat (- x)"]
    by (auto simp: reads_back_def int_numbers_def int_text_def Let_def starts_def
        scan_nat_text_rest ends_number_nondigit)
next
  case False
  have h: "hd (nat_text (nat x)) \<noteq> CHR ''-''" "CHR ''0'' \<le> hd (nat_text (nat x)) \<and> hd (nat_text (nat x)) \<le> CHR ''9''"
    using hd_nat_text_isdigit[of "nat x"] by (auto simp: isdigit_range less_eq_char_def)
  then show ?thesis
    using False nat_text_decimal[of "nat x"]
    by (auto simp: reads_back_def int_numbers_def int_text_def Let_def starts_def
        scan_nat_text_rest ends_number_nondigit)
qed

lemma json_printed_is_read_witness:
  "\<exists>s. json_serialize_to_string_pretty int_numbers
       (Some (JObject [(''id'', JNumber 7), (''tags'', JArray [JNull, JString [CHR 0x0A, CHR ''/'']])])) = Some s \<and>
     json_parse_string int_numbers s
       = Some (JObject [(''id'', JNumber 7), (''tags'', JArray [JNull, JString [CHR 0x0A, CHR ''/'']])])"
  by (rule json_printed_is_read) (auto simp: MAX_NESTING_def int_numbers_read_back)

section \<open>What parsing gives\<close>

lemma parsed_numbers:
  "parse_number_value N s = Some (v, r) \<Longrightarrow> \<exists>x. v = JNumber x \<and> \<not> number_invalid N x"
  by (auto simp: parse_number_value_def json_value_init_number_def split: option.splits prod.splits if_splits)

definition parsed_ok :: "'n numbers \<Rightarrow> nat \<Rightarrow> 'n json \<Rightarrow> bool" where
  "parsed_ok N n v \<longleftrightarrow> json_wf (MAX_NESTING - n) v \<and> (\<forall>x \<in> set_json v. \<not> number_invalid N x)"

lemma parsed_scalars:
  "parse_number_value N s = Some (v, r) \<Longrightarrow> parsed_ok N n v"
  "parse_string_value s = Some (v, r) \<Longrightarrow> parsed_ok N n v"
  "parse_boolean_value s = Some (v, r) \<Longrightarrow> parsed_ok N n v"
  "parse_null_value s = Some (v, r) \<Longrightarrow> parsed_ok N n v"
  by (auto simp: parsed_ok_def parse_string_value_def parse_boolean_value_def
      parse_null_value_def split: prod.splits option.splits if_splits dest!: parsed_numbers)

lemma parsed_empty: "parsed_ok N n (JArray [])" "parsed_ok N n (JObject [])"
  by (simp_all add: parsed_ok_def)

lemma parse_gives_ok:
  "parse_value N s n = Some (v, r) \<Longrightarrow> n \<le> MAX_NESTING \<and> parsed_ok N n v"
  "0 < m \<Longrightarrow> parse_object_value N s m = Some (v, r) \<Longrightarrow> parsed_ok N (m - 1) v"
  "0 < m \<Longrightarrow> distinct (map fst ms) \<Longrightarrow>
     \<forall>p \<in> set ms. CHR 0x00 \<notin> set (fst p) \<and> parsed_ok N m (snd p) \<and> m \<le> MAX_NESTING \<Longrightarrow>
     object_loop N s m ms = Some (v, r) \<Longrightarrow> parsed_ok N (m - 1) v"
  "0 < m \<Longrightarrow> parse_array_value N s m = Some (v, r) \<Longrightarrow> parsed_ok N (m - 1) v"
  "0 < m \<Longrightarrow> \<forall>x \<in> set vs. parsed_ok N m x \<and> m \<le> MAX_NESTING \<Longrightarrow>
     array_loop N s m vs = Some (v, r) \<Longrightarrow> parsed_ok N (m - 1) v"
proof (induction N s n and N s m and N s m ms and N s m and N s m vs arbitrary: v r and v r and v r and v r and v r
    rule: parse_value_parse_object_value_object_loop_parse_array_value_array_loop.induct)
  case (1 N s n)
  show ?case
    using 1(3) 1(1)[OF _ refl _ refl, of v r] 1(2)[OF _ refl _ refl, of v r]
    by (auto simp: parse_value.simps[of N s n] Let_def split: if_splits dest: parsed_scalars)
next
  case (2 N s m)
  show ?case using 2(3) 2(1)[OF _ refl, of v r] 2(2)
    by (auto simp: parse_object_value.simps[of N s m] Let_def parsed_empty split: if_splits)
next
  case (3 N s m ms)
  show ?case
  proof (cases "s = []")
    case True
    then show ?thesis using 3(6)[unfolded object_loop.simps[of N s m ms]] by (simp add: close_empty)
  next
    case False
    with 3(6) obtain key s1 x s3 ms1 where
      k: "get_quoted_string s = Some (key, s1)" "CHR 0x00 \<notin> set key"
        "starts (CHR '':'') (skip_space s1)"
        "parse_value N (tl (skip_space s1)) m = Some (x, s3)"
        "json_object_add ms key x = Some ms1"
      and rest: "(if \<not> starts (CHR '','') (skip_space s3) then close_object ms1 (skip_space s3)
           else object_loop N (skip_space (tl (skip_space s3))) m ms1) = Some (v, r)"
      by (auto simp: object_loop.simps[of N s m ms] Let_def split: option.splits if_splits)
    have x: "m \<le> MAX_NESTING \<and> parsed_ok N m x"
      using 3(1)[OF False k(1) refl k(2) refl _ k(4)] k(3) by simp
    then have d: "distinct (map fst ms1)"
      and ok: "\<forall>p \<in> set ms1. CHR 0x00 \<notin> set (fst p) \<and> parsed_ok N m (snd p) \<and> m \<le> MAX_NESTING"
      using k(2,5) 3(4,5) by (auto simp: json_object_add_Some)
    show ?thesis
    proof (cases "starts (CHR '','') (skip_space s3)")
      case True
      then show ?thesis
        using 3(2)[OF False k(1) refl k(2) refl _ k(4) refl k(5) refl _ 3(3) d ok] rest k(3) by simp
    next
      case f: False
      then have "v = JObject ms1" "ms1 \<noteq> []" using rest close_object_Some by fastforce+
      moreover have "m \<le> MAX_NESTING" using x by simp
      ultimately show ?thesis using ok d 3(3) by (fastforce simp: parsed_ok_def)
    qed
  qed
next
  case (4 N s m)
  show ?case using 4(3) 4(1)[OF _ refl, of v r] 4(2)
    by (auto simp: parse_array_value.simps[of N s m] Let_def parsed_empty split: if_splits)
next
  case (5 N s m vs)
  show ?case
  proof (cases "s = []")
    case True
    then show ?thesis using 5(5)[unfolded array_loop.simps[of N s m vs]] by (simp add: close_empty)
  next
    case False
    with 5(5) obtain x s1 where k: "parse_value N s m = Some (x, s1)"
      and rest: "(if \<not> starts (CHR '','') (skip_space s1) then close_array (vs @ [x]) (skip_space s1)
           else array_loop N (skip_space (tl (skip_space s1))) m (vs @ [x])) = Some (v, r)"
      by (auto simp: array_loop.simps[of N s m vs] Let_def split: option.splits)
    have x: "m \<le> MAX_NESTING \<and> parsed_ok N m x" using 5(1)[OF False k] .
    then have ok: "\<forall>y \<in> set (vs @ [x]). parsed_ok N m y \<and> m \<le> MAX_NESTING" using 5(4) by auto
    show ?thesis
    proof (cases "starts (CHR '','') (skip_space s1)")
      case True
      then show ?thesis using 5(2)[OF False k refl refl _ 5(3) ok] rest by simp
    next
      case f: False
      then have "v = JArray (vs @ [x])" using rest close_array_Some by fastforce
      then show ?thesis using ok x 5(3) by (auto simp: parsed_ok_def)
    qed
  qed
qed

text \<open>A number that \<open>strtod\<close> reports as an error when it reads its text back is printed and then refused.\<close>

lemma refused_when_reread:
  assumes "strtod N (number_text N x) = (None, k)"
    and "number_text N x = c # t" and "c = CHR ''-'' \<or> (CHR ''0'' \<le> c \<and> c \<le> CHR ''9'')"
  shows "json_serialize_to_string_pretty N (Some (JNumber x)) = Some (number_text N x) \<and>
    json_parse_string N (number_text N x) = None"
proof -
  have h: "c \<noteq> CHR 0xEF" "\<not> isspace c" using assms(3) by (auto simp: isspace_def less_eq_char_def)
  then have "skip_space (c # t) = c # t" by (simp add: skip_space_head)
  moreover have "parse_number_value N (c # t) = None"
    using assms(1,2) by (simp add: parse_number_value_def)
  ultimately have "parse_value N (c # t) 0 = None"
    using assms(3) by (subst parse_value.simps) (auto simp: Let_def less_eq_char_def)
  then have "json_parse_string N (number_text N x) = None"
    using h(1) assms(2) by (simp add: json_parse_string_def)
  then show ?thesis using assms(2) by (simp add: json_serialize_to_string_pretty_def)
qed

text \<open>
  C19: every value the parser accepts is well formed: no object has two members of one name or a
  NUL in a name, containers are nested at most \<open>MAX_NESTING\<close> deep and no number is infinite or not
  a number. So, when \<open>strtod\<close> reads each number of the value back from its text (\<open>refused_when_reread\<close> is what happens
  otherwise), printing the value and parsing it again gives the same value.
\<close>

theorem parsed_value_well_formed:
  assumes "json_parse_string N s = Some v"
  shows "json_wf MAX_NESTING v \<and> (\<forall>x \<in> set_json v. \<not> number_invalid N x) \<and>
    ((\<forall>x \<in> set_json v. reads_back N x) \<longrightarrow>
      (\<exists>t. json_serialize_to_string_pretty N (json_parse_string N s) = Some t \<and> json_parse_string N t = Some v))"
proof -
  have "parsed_ok N 0 v"
    using assms parse_gives_ok(1) by (fastforce simp: json_parse_string_def)
  then show ?thesis using assms by (simp add: parsed_ok_def serialized_read)
qed

lemma parsed_value_well_formed_witness:
  "json_wf MAX_NESTING (JArray [JNull :: int json]) \<and>
   (\<exists>t. json_serialize_to_string_pretty int_numbers (json_parse_string int_numbers ''[ null] x'') = Some t \<and>
     json_parse_string int_numbers t = Some (JArray [JNull]))"
proof -
  have p: "json_parse_string int_numbers ''[ null] x'' = Some (JArray [JNull])"
    by (simp add: json_parse_string_def parse_value.simps parse_array_value.simps array_loop.simps
        MAX_NESTING_def isspace_def starts_def close_array_def parse_null_value_def less_eq_char_def Let_def)
  show ?thesis using parsed_value_well_formed[OF p] by (simp add: int_numbers_read_back)
qed

end
