(* ===== verification/Json_Utf8.thy ===== *)
theory Json_Utf8
  imports Json_Text
begin

text \<open>
  The UTF-8 check of \<open>src/PCom3/parson.c\<close> against the definition of the encoding: a text passes
  exactly when it is the encoding of a sequence of Unicode scalar values.
\<close>

section \<open>The encoding\<close>

definition scalar_value :: "nat \<Rightarrow> bool" where
  "scalar_value cp \<longleftrightarrow> cp < 0xD800 \<or> 0xE000 \<le> cp \<and> cp \<le> 0x10FFFF"

definition utf8_bytes :: "nat \<Rightarrow> nat list" where
  "utf8_bytes cp =
     (if cp < 0x80 then [cp]
      else if cp < 0x800 then [192 + cp div 64, 128 + cp mod 64]
      else if cp < 0x10000 then [224 + cp div 4096, 128 + cp div 64 mod 64, 128 + cp mod 64]
      else [240 + cp div 262144, 128 + cp div 4096 mod 64, 128 + cp div 64 mod 64, 128 + cp mod 64])"

definition utf8_encode :: "nat list \<Rightarrow> string" where
  "utf8_encode cps = concat (map (\<lambda>cp. map char_of (utf8_bytes cp)) cps)"

section \<open>Bytes as numbers\<close>

definition code_of :: "char \<Rightarrow> nat" where
  "code_of c = of_char c"

lemma code_of_less: "code_of c < 256"
  by (simp add: code_of_def)

lemma code_of_char [simp]: "n < 256 \<Longrightarrow> code_of (char_of n) = n"
  by (simp add: code_of_def)

lemma char_of_byte [simp]: "char_of (code_of c) = c"
  by (simp add: code_of_def)

lemma unat_char: "unat (of_char c :: u32) = code_of c"
proof -
  have "(of_char c :: u32) = word_of_nat (code_of c)" by (cases c) (simp add: code_of_def)
  moreover have "unat (word_of_nat (code_of c) :: u32) = code_of c"
    using code_of_less[of c] unfolding unat_of_nat by simp
  ultimately show ?thesis by simp
qed

lemma and_field: "(n :: nat) AND (2 ^ k * (2 ^ m - 1)) = 2 ^ k * (n div 2 ^ k mod 2 ^ m)"
proof -
  have "n AND push_bit k (mask m) = push_bit k (take_bit m (drop_bit k n))"
    by (rule bit_eqI) (auto simp: bit_simps)
  then show ?thesis by (simp add: push_bit_eq_mult take_bit_eq_mod drop_bit_eq_div mask_eq_exp_minus_1 mult.commute)
qed

lemma and_fields:
  fixes n :: nat
  shows "n AND 0xC0 = 64 * (n div 64 mod 4)" and "n AND 0x80 = 128 * (n div 128 mod 2)"
    and "n AND 0xE0 = 32 * (n div 32 mod 8)" and "n AND 0xF0 = 16 * (n div 16 mod 16)"
    and "n AND 0xF8 = 8 * (n div 8 mod 32)" and "n AND 0x3F = n mod 64" and "n AND 0x1F = n mod 32"
    and "n AND 0xF = n mod 16" and "n AND 0x7 = n mod 8"
  subgoal using and_field[of n 6 2] by simp
  subgoal using and_field[of n 7 1] by simp
  subgoal using and_field[of n 5 3] by simp
  subgoal using and_field[of n 4 4] by simp
  subgoal using and_field[of n 3 5] by simp
  subgoal using and_field[of n 0 6] by simp
  subgoal using and_field[of n 0 5] by simp
  subgoal using and_field[of n 0 4] by simp
  subgoal using and_field[of n 0 3] by simp
  done

lemma unat_and_char:
  "unat (of_char c AND 0xC0 :: u32) = code_of c AND 0xC0" "unat (of_char c AND 0x80 :: u32) = code_of c AND 0x80"
  "unat (of_char c AND 0xE0 :: u32) = code_of c AND 0xE0" "unat (of_char c AND 0xF0 :: u32) = code_of c AND 0xF0"
  "unat (of_char c AND 0xF8 :: u32) = code_of c AND 0xF8" "unat (of_char c AND 0x3F :: u32) = code_of c AND 0x3F"
  "unat (of_char c AND 0x1F :: u32) = code_of c AND 0x1F" "unat (of_char c AND 0xF :: u32) = code_of c AND 0xF"
  "unat (of_char c AND 0x7 :: u32) = code_of c AND 0x7"
  by (simp_all only: unsigned_and_eq unat_char) simp_all

lemma word32_eq: "(a :: u32) = b \<longleftrightarrow> unat a = unat b"
  by (metis word_unat_eq_iff)

lemma is_cont_iff: "is_cont c \<longleftrightarrow> 128 \<le> code_of c \<and> code_of c < 192"
  using code_of_less[of c] unfolding is_cont_def word32_eq unat_and_char and_fields by simp linarith

lemma div_range: "0 < k \<Longrightarrow> n div k = q \<longleftrightarrow> k * q \<le> n \<and> n < k * Suc q" for n k q :: nat
  using dividend_less_times_div[of k n] times_div_less_eq_dividend[of k n] div_nat_eqI[of k q n] by auto

lemma high_bits:
  assumes "n < 256"
  shows "16 * (n div 16 mod 16) = (224 :: nat) \<longleftrightarrow> 224 \<le> n \<and> n < 240"
    and "8 * (n div 8 mod 32) = (240 :: nat) \<longleftrightarrow> 240 \<le> n \<and> n < 248"
    and "32 * (n div 32 mod 8) = (192 :: nat) \<longleftrightarrow> 192 \<le> n \<and> n < 224"
    and "128 * (n div 128 mod 2) = (0 :: nat) \<longleftrightarrow> n < 128"
proof -
  have "n div 16 < 16" "n div 8 < 32" "n div 32 < 8" "n div 128 < 2" using assms by (simp_all add: less_mult_imp_div_less)
  then have m: "n div 16 mod 16 = n div 16" "n div 8 mod 32 = n div 8" "n div 32 mod 8 = n div 32"
    "n div 128 mod 2 = n div 128" by simp_all
  show "16 * (n div 16 mod 16) = (224 :: nat) \<longleftrightarrow> 224 \<le> n \<and> n < 240"
    using div_range[of 16 n 14] m by auto
  show "8 * (n div 8 mod 32) = (240 :: nat) \<longleftrightarrow> 240 \<le> n \<and> n < 248"
    using div_range[of 8 n 30] m by auto
  show "32 * (n div 32 mod 8) = (192 :: nat) \<longleftrightarrow> 192 \<le> n \<and> n < 224"
    using div_range[of 32 n 6] m by auto
  show "128 * (n div 128 mod 2) = (0 :: nat) \<longleftrightarrow> n < 128"
    using m by (simp add: div_eq_0_iff)
qed

lemma num_bytes_iff:
  "num_bytes_in_utf8_sequence c =
     (let n = code_of c
      in if n < 128 then 1 else if 194 \<le> n \<and> n < 224 then 2 else if 224 \<le> n \<and> n < 240 then 3
         else if 240 \<le> n \<and> n < 245 then 4 else 0)"
proof -
  have numerals: "unat (0xC0 :: u32) = 192" "unat (0xC1 :: u32) = 193" "unat (0xF4 :: u32) = 244"
    "unat (0xE0 :: u32) = 224" "unat (0xF0 :: u32) = 240" "unat (0 :: u32) = 0" by simp_all
  note high = high_bits[OF code_of_less[of c]]
  show ?thesis
    unfolding num_bytes_in_utf8_sequence_def Let_def word32_eq unat_and_char and_fields word_less_nat_alt unat_char
      is_cont_iff numerals high
    by auto
qed


section \<open>The code point\<close>

lemma unat_add6:
  assumes "unat (cp :: u32) < 2 ^ 26"
  shows "unat (push_bit 6 cp OR (of_char c AND 0x3F)) = 64 * unat cp + code_of c mod 64"
proof -
  have b: "unat (of_char c AND 0x3F :: u32) = code_of c mod 64"
    by (simp only: unat_and_char and_fields)
  have "push_bit 6 cp OR (of_char c AND 0x3F) = push_bit 6 cp + (of_char c AND 0x3F)"
  proof (rule disjunctive_add_eq_or[symmetric])
    have "(of_char c :: u32) AND 0x3F = take_bit 6 (of_char c)" by (simp add: take_bit_eq_mask mask_eq_exp_minus_1)
    then show "push_bit 6 cp AND (of_char c AND 0x3F) = 0" by (simp add: bit_eq_iff bit_simps)
  qed
  moreover have "unat (push_bit 6 cp) = 64 * unat cp"
  proof -
    have "push_bit 6 cp = word_of_nat (64 * unat cp)" by (simp add: push_bit_eq_mult)
    then have "unat (push_bit 6 cp) = unat (word_of_nat (64 * unat cp) :: u32)" by (rule arg_cong)
    also have "\<dots> = 64 * unat cp mod 2 ^ 32" by (simp only: unat_of_nat) simp
    finally show ?thesis using assms by simp
  qed
  ultimately have "unat (push_bit 6 cp OR (of_char c AND 0x3F)) = (64 * unat cp + code_of c mod 64) mod 2 ^ 32"
    using b by (simp only: unat_word_ariths) simp
  then show ?thesis using assms by simp
qed

lemma unat_lead:
  "unat (of_char c AND 0x1F :: u32) = code_of c mod 32" "unat (of_char c AND 0xF :: u32) = code_of c mod 16"
  "unat (of_char c AND 0x7 :: u32) = code_of c mod 8"
  by (simp_all only: unat_and_char and_fields)

definition cont_at :: "string \<Rightarrow> nat \<Rightarrow> bool" where
  "cont_at s i \<longleftrightarrow> i < length s \<and> 128 \<le> code_of (s ! i) \<and> code_of (s ! i) < 192"

text \<open>The code point that a sequence of each length stands for.\<close>

definition point2 :: "string \<Rightarrow> nat" where
  "point2 s = 64 * (code_of (s ! 0) mod 32) + code_of (s ! 1) mod 64"

definition point3 :: "string \<Rightarrow> nat" where
  "point3 s = 64 * (64 * (code_of (s ! 0) mod 16) + code_of (s ! 1) mod 64) + code_of (s ! 2) mod 64"

definition point4 :: "string \<Rightarrow> nat" where
  "point4 s = 64 * (64 * (64 * (code_of (s ! 0) mod 8) + code_of (s ! 1) mod 64) + code_of (s ! 2) mod 64) + code_of (s ! 3) mod 64"

lemma code_point_cases:
  assumes "s \<noteq> []"
  shows "map_option unat (utf8_code_point s) =
    (let n = code_of (s ! 0)
     in if n < 128 then Some n
        else if 194 \<le> n \<and> n < 224 \<and> cont_at s 1 then Some (point2 s)
        else if 224 \<le> n \<and> n < 240 \<and> cont_at s 1 \<and> cont_at s 2 then Some (point3 s)
        else if 240 \<le> n \<and> n < 245 \<and> cont_at s 1 \<and> cont_at s 2 \<and> cont_at s 3 then Some (point4 s)
        else None)"
proof -
  have hd: "hd s = s ! 0" using assms by (simp add: hd_conv_nth)
  have p2: "unat (push_bit 6 (of_char (s ! 0) AND 0x1F) OR (of_char (s ! 1) AND 0x3F) :: u32) = point2 s"
    by (subst unat_add6) (simp_all only: unat_lead point2_def, simp)
  have i3: "unat (push_bit 6 (of_char (s ! 0) AND 0xF) OR (of_char (s ! 1) AND 0x3F) :: u32) =
      64 * (code_of (s ! 0) mod 16) + code_of (s ! 1) mod 64"
    by (subst unat_add6) (simp_all only: unat_lead, simp)
  have p3: "unat (push_bit 6 (push_bit 6 (of_char (s ! 0) AND 0xF) OR (of_char (s ! 1) AND 0x3F)) OR
      (of_char (s ! 2) AND 0x3F) :: u32) = point3 s"
    by (subst unat_add6) (simp_all only: i3 point3_def, simp)
  have i4: "unat (push_bit 6 (of_char (s ! 0) AND 0x7) OR (of_char (s ! 1) AND 0x3F) :: u32) =
      64 * (code_of (s ! 0) mod 8) + code_of (s ! 1) mod 64"
    by (subst unat_add6) (simp_all only: unat_lead, simp)
  have j4: "unat (push_bit 6 (push_bit 6 (of_char (s ! 0) AND 0x7) OR (of_char (s ! 1) AND 0x3F)) OR
      (of_char (s ! 2) AND 0x3F) :: u32) = 64 * (64 * (code_of (s ! 0) mod 8) + code_of (s ! 1) mod 64) + code_of (s ! 2) mod 64"
    by (subst unat_add6) (simp_all only: i4, simp)
  have p4: "unat (push_bit 6 (push_bit 6 (push_bit 6 (of_char (s ! 0) AND 0x7) OR (of_char (s ! 1) AND 0x3F)) OR
      (of_char (s ! 2) AND 0x3F)) OR (of_char (s ! 3) AND 0x3F) :: u32) = point4 s"
    by (subst unat_add6) (simp_all only: j4 point4_def, simp)
  define A :: u32 where "A = push_bit 6 (of_char (s ! 0) AND 0x1F) OR (of_char (s ! 1) AND 0x3F)"
  define B :: u32 where "B = push_bit 6 (push_bit 6 (of_char (s ! 0) AND 0xF) OR (of_char (s ! 1) AND 0x3F)) OR
      (of_char (s ! 2) AND 0x3F)"
  define C :: u32 where "C = push_bit 6 (push_bit 6 (push_bit 6 (of_char (s ! 0) AND 0x7) OR (of_char (s ! 1) AND 0x3F)) OR
      (of_char (s ! 2) AND 0x3F)) OR (of_char (s ! 3) AND 0x3F)"
  have "unat A = point2 s" "unat B = point3 s" "unat C = point4 s" using p2 p3 p4 by (simp_all only: A_def B_def C_def)
  then show ?thesis
    unfolding utf8_code_point_def Let_def hd num_bytes_iff is_cont_iff cont_at_def[symmetric]
      A_def[symmetric] B_def[symmetric] C_def[symmetric]
    by (simp add: unat_char)
qed


lemma lead_mod: "y < 64 \<Longrightarrow> (128 + y) mod 64 = y" "x < 32 \<Longrightarrow> (192 + x) mod 32 = x" "x < 16 \<Longrightarrow> (224 + x) mod 16 = x"
  "x < 8 \<Longrightarrow> (240 + x) mod 8 = x" for x y :: nat
  by (simp_all add: mod_if)

lemma verify_cases:
  assumes "s \<noteq> []"
  shows "verify_utf8_sequence s =
    (let n = code_of (s ! 0)
     in if n < 128 then Some 1
        else if 194 \<le> n \<and> n < 224 \<and> cont_at s 1 then Some 2
        else if 224 \<le> n \<and> n < 240 \<and> cont_at s 1 \<and> cont_at s 2
             then if 0x800 \<le> point3 s \<and> scalar_value (point3 s) then Some 3 else None
        else if 240 \<le> n \<and> n < 245 \<and> cont_at s 1 \<and> cont_at s 2 \<and> cont_at s 3
             then if 0x10000 \<le> point4 s \<and> scalar_value (point4 s) then Some 4 else None
        else None)"
proof -
  let ?n = "code_of (s ! 0)" and ?len = "num_bytes_in_utf8_sequence (s ! 0)"
  have verify: "verify_utf8_sequence s = (case map_option unat (utf8_code_point s) of None \<Rightarrow> None
      | Some p \<Rightarrow> if (p < 0x80 \<and> 1 < ?len) \<or> (p < 0x800 \<and> 2 < ?len) \<or> (p < 0x10000 \<and> 3 < ?len) then None
          else if scalar_value p then Some ?len else None)"
  proof (cases "utf8_code_point s")
    case (Some cp)
    have numerals: "unat (0x80 :: u32) = 0x80" "unat (0x800 :: u32) = 0x800" "unat (0x10000 :: u32) = 0x10000"
      "unat (0x10FFFF :: u32) = 0x10FFFF" "unat (0xD800 :: u32) = 0xD800" "unat (0xDFFF :: u32) = 0xDFFF" by simp_all
    have "scalar_value p \<longleftrightarrow> \<not> 0x10FFFF < p \<and> \<not> (0xD800 \<le> p \<and> p \<le> 0xDFFF)" for p
      unfolding scalar_value_def by linarith
    then show ?thesis
      unfolding verify_utf8_sequence_def Let_def hd_conv_nth[OF assms] Some word_less_nat_alt word_le_nat_alt numerals
      by simp
  qed (simp add: verify_utf8_sequence_def)
  have p2: "194 \<le> ?n \<Longrightarrow> ?n < 224 \<Longrightarrow> 0x80 \<le> point2 s \<and> point2 s < 0x800"
  proof -
    assume "194 \<le> ?n" "?n < 224"
    then obtain x where "?n = 192 + x" "2 \<le> x" "x < 32" using le_Suc_ex[of 192 ?n] by auto
    then show ?thesis using lead_mod(2)[of x] mod_less_divisor[of 64 "code_of (s ! 1)"] unfolding point2_def by simp
  qed
  consider (one) "?n < 128" | (two) "194 \<le> ?n" "?n < 224" | (three) "224 \<le> ?n" "?n < 240" | (four) "240 \<le> ?n" "?n < 245"
    | (low) "128 \<le> ?n" "?n < 194" | (high) "245 \<le> ?n" by linarith
  then show ?thesis
  proof cases
    case one
    then show ?thesis by (simp add: verify code_point_cases[OF assms] num_bytes_iff Let_def scalar_value_def)
  next
    case two
    with p2 show ?thesis by (simp add: verify code_point_cases[OF assms] num_bytes_iff Let_def scalar_value_def)
  next
    case three
    then show ?thesis by (simp add: verify code_point_cases[OF assms] num_bytes_iff Let_def)
  next
    case four
    then show ?thesis by (simp add: verify code_point_cases[OF assms] num_bytes_iff Let_def)
  next
    case low
    then show ?thesis by (simp add: verify code_point_cases[OF assms] num_bytes_iff Let_def)
  next
    case high
    then show ?thesis by (simp add: verify code_point_cases[OF assms] num_bytes_iff Let_def)
  qed
qed

section \<open>Encoding and checking\<close>

lemma utf8_bytes2: "2 \<le> x \<Longrightarrow> x < 32 \<Longrightarrow> y < 64 \<Longrightarrow> utf8_bytes (64 * x + y) = [192 + x, 128 + y]"
  by (simp add: utf8_bytes_def)

lemma div4096: "n div 4096 = n div 64 div 64" for n :: nat
  by (simp add: div_mult2_eq[symmetric])

lemma div262144: "n div 262144 = n div 64 div 64 div 64" for n :: nat
  by (simp add: div_mult2_eq[symmetric])

lemma div_mod_64:
  assumes "z < 64"
  shows "(64 * q + z) div 64 = q" and "(64 * q + z) mod 64 = (z :: nat)"
  using assms by simp_all

lemma utf8_bytes3:
  assumes "x < 16" "y < 64" "z < 64" "0x800 \<le> 64 * (64 * x + y) + z"
  shows "utf8_bytes (64 * (64 * x + y) + z) = [224 + x, 128 + y, 128 + z]"
proof -
  have "(64 * (64 * x + y) + z) div 64 = 64 * x + y" "(64 * (64 * x + y) + z) mod 64 = z" "64 * (64 * x + y) + z < 0x10000"
    using assms(1-3) by (simp_all only: div_mod_64) simp
  then show ?thesis using assms by (simp add: utf8_bytes_def div4096)
qed

lemma utf8_bytes4:
  assumes "x < 8" "y < 64" "z < 64" "w < 64" "0x10000 \<le> 64 * (64 * (64 * x + y) + z) + w"
  shows "utf8_bytes (64 * (64 * (64 * x + y) + z) + w) = [240 + x, 128 + y, 128 + z, 128 + w]"
proof -
  have "(64 * (64 * (64 * x + y) + z) + w) div 64 = 64 * (64 * x + y) + z" "(64 * (64 * (64 * x + y) + z) + w) mod 64 = w"
    "(64 * (64 * x + y) + z) div 64 = 64 * x + y" "(64 * (64 * x + y) + z) mod 64 = z"
    using assms(1-4) by (simp_all only: div_mod_64)
  then show ?thesis using assms by (simp add: utf8_bytes_def div4096 div262144)
qed

lemma utf8_bytes_small: "scalar_value cp \<Longrightarrow> \<forall>n \<in> set (utf8_bytes cp). n < 256"
  by (auto simp: utf8_bytes_def scalar_value_def less_mult_imp_div_less)


lemma map_take_nth: "k \<le> length s \<Longrightarrow> map f (take k s) = map (\<lambda>i. f (s ! i)) [0..<k]"
  by (intro nth_equalityI) simp_all

lemma code_of_take:
  "2 \<le> length s \<Longrightarrow> map code_of (take 2 s) = [code_of (s ! 0), code_of (s ! 1)]"
  "3 \<le> length s \<Longrightarrow> map code_of (take 3 s) = [code_of (s ! 0), code_of (s ! 1), code_of (s ! 2)]"
  "4 \<le> length s \<Longrightarrow> map code_of (take 4 s) = [code_of (s ! 0), code_of (s ! 1), code_of (s ! 2), code_of (s ! 3)]"
  by (simp_all add: map_take_nth upt_rec numeral_2_eq_2 numeral_3_eq_3)

lemma cont_minus: "cont_at s i \<Longrightarrow> \<exists>y. code_of (s ! i) = 128 + y \<and> y < 64"
  unfolding cont_at_def by (intro exI[of _ "code_of (s ! i) - 128"]) auto

text \<open>What passes the check is the encoding of a scalar value.\<close>

lemma verified_is_encoded:
  assumes "s \<noteq> []" and "verify_utf8_sequence s = Some k"
  shows "\<exists>cp. scalar_value cp \<and> map code_of (take k s) = utf8_bytes cp"
proof -
  let ?n = "code_of (s ! 0)"
  note v = assms(2)[unfolded verify_cases[OF assms(1)] Let_def]
  consider (one) "?n < 128" "k = 1" | (two) "194 \<le> ?n" "?n < 224" "cont_at s 1" "k = 2"
    | (three) "224 \<le> ?n" "?n < 240" "cont_at s 1" "cont_at s 2" "0x800 \<le> point3 s" "scalar_value (point3 s)" "k = 3"
    | (four) "240 \<le> ?n" "?n < 245" "cont_at s 1" "cont_at s 2" "cont_at s 3" "0x10000 \<le> point4 s" "scalar_value (point4 s)" "k = 4"
    using v by (simp split: if_split_asm)
  then show ?thesis
  proof cases
    case one
    then have "map code_of (take k s) = utf8_bytes ?n"
      using assms(1) by (cases s) (simp_all add: utf8_bytes_def)
    then show ?thesis using one by (intro exI[of _ ?n]) (simp add: scalar_value_def)
  next
    case two
    obtain y where y: "code_of (s ! 1) = 128 + y" "y < 64" using cont_minus[OF two(3)] by blast
    have "map code_of (take k s) = utf8_bytes (64 * (?n - 192) + y)"
      using two y utf8_bytes2[of "?n - 192" y] code_of_take(1)[of s] by (simp add: cont_at_def)
    moreover have "64 * (?n - 192) + y < 0xD800" using two(1,2) y(2) by simp
    ultimately show ?thesis by (intro exI[of _ "64 * (?n - 192) + y"]) (simp only: scalar_value_def, simp)
  next
    case three
    obtain y z where yz: "code_of (s ! 1) = 128 + y" "y < 64" "code_of (s ! 2) = 128 + z" "z < 64"
      using cont_minus[OF three(3)] cont_minus[OF three(4)] by blast
    have n: "?n = 224 + (?n - 224)" "?n - 224 < 16" using three(1,2) by simp_all
    then have "point3 s = 64 * (64 * (?n - 224) + y) + z"
      unfolding point3_def yz using yz(2,4) lead_mod(3)[OF n(2)] by (simp add: lead_mod)
    then have "map code_of (take k s) = utf8_bytes (point3 s)"
      using three yz n(2) utf8_bytes3[OF n(2) yz(2,4)] code_of_take(2)[of s] by (simp add: cont_at_def)
    then show ?thesis using three(6) by blast
  next
    case four
    obtain y z w where yz: "code_of (s ! 1) = 128 + y" "y < 64" "code_of (s ! 2) = 128 + z" "z < 64"
        "code_of (s ! 3) = 128 + w" "w < 64"
      using cont_minus[OF four(3)] cont_minus[OF four(4)] cont_minus[OF four(5)] by blast
    have n: "?n = 240 + (?n - 240)" "?n - 240 < 8" using four(1,2) by simp_all
    then have "point4 s = 64 * (64 * (64 * (?n - 240) + y) + z) + w"
      unfolding point4_def yz using yz(2,4,6) lead_mod(4)[OF n(2)] by (simp add: lead_mod)
    then have "map code_of (take k s) = utf8_bytes (point4 s)"
      using four yz n(2) utf8_bytes4[OF n(2) yz(2,4,6)] code_of_take(3)[of s] by (simp add: cont_at_def)
    then show ?thesis using four(7) by blast
  qed
qed


text \<open>And the encoding of a scalar value at the start of a text passes, with its length.\<close>

lemma nth_of_bytes:
  assumes "map code_of (take k s) = bs" and "k = length bs" and "i < k"
  shows "i < length s \<and> code_of (s ! i) = bs ! i"
proof -
  have "length (take k s) = k" using assms(1,2) by (metis length_map)
  then have k: "k \<le> length s" by simp
  have "bs ! i = code_of (s ! i)" unfolding assms(1)[symmetric] using k assms(3) by simp
  then show ?thesis using assms(3) k by simp
qed

lemma encoded_is_verified:
  assumes "scalar_value cp" and "k = length (utf8_bytes cp)" and "map code_of (take k s) = utf8_bytes cp"
  shows "verify_utf8_sequence s = Some k"
proof -
  note at = nth_of_bytes[OF assms(3,2)]
  have "0 < k" by (simp add: assms(2) utf8_bytes_def)
  then have s: "s \<noteq> []" using at[of 0] by auto
  have q: "cp div 64 mod 64 < 64" "cp mod 64 < 64" "cp div 4096 mod 64 < 64" by simp_all
  have max: "cp \<le> 0x10FFFF" using assms(1) by (auto simp: scalar_value_def)
  consider (one) "cp < 0x80" | (two) "0x80 \<le> cp" "cp < 0x800" | (three) "0x800 \<le> cp" "cp < 0x10000"
    | (four) "0x10000 \<le> cp" "cp \<le> 0x10FFFF"
    using max by linarith
  then show ?thesis
  proof cases
    case one
    then have "utf8_bytes cp = [cp]" by (simp add: utf8_bytes_def)
    then show ?thesis using at[of 0] assms(2) one by (simp add: verify_cases[OF s])
  next
    case two
    then have b: "utf8_bytes cp = [192 + cp div 64, 128 + cp mod 64]" by (simp add: utf8_bytes_def)
    have "2 \<le> cp div 64" "cp div 64 < 32" using two by (simp_all add: less_mult_imp_div_less less_eq_div_iff_mult_less_eq)
    then show ?thesis using at[of 0] at[of 1] assms(2) b by (simp add: verify_cases[OF s] cont_at_def)
  next
    case three
    then have b: "utf8_bytes cp = [224 + cp div 4096, 128 + cp div 64 mod 64, 128 + cp mod 64]" by (simp add: utf8_bytes_def)
    have x: "cp div 4096 < 16" using three by (simp add: less_mult_imp_div_less)
    have "point3 s = 64 * (64 * (cp div 4096) + cp div 64 mod 64) + cp mod 64"
      using at[of 0] at[of 1] at[of 2] assms(2) b lead_mod(1)[OF q(1)] lead_mod(1)[OF q(2)] lead_mod(3)[OF x]
      unfolding point3_def by simp
    then have "point3 s = cp" by (simp add: div4096)
    then show ?thesis
      using at[of 0] at[of 1] at[of 2] assms(1,2) b x three by (simp add: verify_cases[OF s] cont_at_def)
  next
    case four
    then have b: "utf8_bytes cp = [240 + cp div 262144, 128 + cp div 4096 mod 64, 128 + cp div 64 mod 64, 128 + cp mod 64]"
      by (simp add: utf8_bytes_def)
    have x: "cp div 262144 < 5" using four by (simp add: less_mult_imp_div_less)
    have "point4 s = 64 * (64 * (64 * (cp div 262144) + cp div 4096 mod 64) + cp div 64 mod 64) + cp mod 64"
      using at[of 0] at[of 1] at[of 2] at[of 3] assms(2) b lead_mod(1)[OF q(1)] lead_mod(1)[OF q(2)] lead_mod(1)[OF q(3)]
        lead_mod(4)[of "cp div 262144"] x
      unfolding point4_def by simp
    then have "point4 s = cp" by (simp add: div4096 div262144)
    then show ?thesis
      using at[of 0] at[of 1] at[of 2] at[of 3] assms(1,2) b x four by (simp add: verify_cases[OF s] cont_at_def)
  qed
qed

lemma map_char_code: "map char_of (map code_of s) = s"
  by (simp add: comp_def)

lemma map_code_char: "\<forall>n \<in> set ns. n < 256 \<Longrightarrow> map code_of (map char_of ns) = ns"
  by (induction ns) simp_all

text \<open>
  C26: a text passes the UTF-8 check of the library, shifts, masks and all, exactly when it is the
  encoding of a sequence of Unicode scalar values: neither overlong forms nor surrogates nor
  truncated sequences pass, and everything that is well formed does.
\<close>

theorem utf8_check_exact:
  "is_valid_utf8 s \<longleftrightarrow> (\<exists>cps. list_all scalar_value cps \<and> s = utf8_encode cps)"
proof
  show "is_valid_utf8 s \<Longrightarrow> \<exists>cps. list_all scalar_value cps \<and> s = utf8_encode cps"
  proof (induction s rule: is_valid_utf8.induct)
    case (1 s)
    show ?case
    proof (cases "s = []")
      case True
      then show ?thesis by (intro exI[of _ "[]"]) (simp add: utf8_encode_def)
    next
      case False
      then obtain k where k: "verify_utf8_sequence s = Some k" "is_valid_utf8 (drop k s)"
        using 1(2) by (subst (asm) is_valid_utf8.simps) (simp split: option.splits)
      obtain cps where cps: "list_all scalar_value cps" "drop k s = utf8_encode cps"
        using 1(1)[OF False k] by blast
      obtain cp where cp: "scalar_value cp" "map code_of (take k s) = utf8_bytes cp"
        using verified_is_encoded[OF False k(1)] by blast
      have "take k s = map char_of (utf8_bytes cp)" unfolding cp(2)[symmetric] by (rule map_char_code[symmetric])
      then have "s = utf8_encode (cp # cps)"
        using append_take_drop_id[of k s] cps(2) by (simp add: utf8_encode_def)
      then show ?thesis using cp(1) cps(1) by (intro exI[of _ "cp # cps"]) simp
    qed
  qed
next
  assume "\<exists>cps. list_all scalar_value cps \<and> s = utf8_encode cps"
  then obtain cps where "list_all scalar_value cps" "s = utf8_encode cps" by blast
  then show "is_valid_utf8 s"
  proof (induction cps arbitrary: s)
    case Nil
    then show ?case by (subst is_valid_utf8.simps) (simp add: utf8_encode_def)
  next
    case (Cons cp cps)
    let ?b = "map char_of (utf8_bytes cp)" and ?k = "length (utf8_bytes cp)"
    have s: "s = ?b @ utf8_encode cps" using Cons.prems(2) by (simp add: utf8_encode_def)
    have "map code_of ?b = utf8_bytes cp" using utf8_bytes_small[of cp] Cons.prems(1) by (intro map_code_char) simp
    then have "verify_utf8_sequence s = Some ?k"
      using Cons.prems(1) s by (intro encoded_is_verified[of cp]) simp_all
    moreover have "is_valid_utf8 (drop ?k s)" using Cons.IH Cons.prems(1) unfolding s by simp
    moreover have "s \<noteq> []" using s by (simp add: utf8_bytes_def)
    ultimately show ?case by (subst is_valid_utf8.simps) simp
  qed
qed

end
