(* ===== verification/Json_Object.thy ===== *)
theory Json_Object
  imports Json_Text
begin

text \<open>
  \<open>src/PCom3/parson.c\<close>, the interface to values, objects and arrays: kinds and contents of values,
  names with dots as paths through nested objects, setting, removing and clearing. A null pointer
  is \<open>None\<close>. An operation that changes an object or an array gives its status, \<open>True\<close> for
  \<open>JSONSuccess\<close>, and the members or elements afterwards. The values handed in are new ones, with no
  parent; whether a value that leaves the tree is freed makes no difference to the tree.
\<close>

section \<open>Values\<close>

datatype json_type = JSONError | JSONNull | JSONString | JSONNumber | JSONObject | JSONArray | JSONBoolean

definition json_value_get_type :: "'n json option \<Rightarrow> json_type" where
  "json_value_get_type value =
     (case value of
        None \<Rightarrow> JSONError
      | Some JNull \<Rightarrow> JSONNull
      | Some (JBoolean b) \<Rightarrow> JSONBoolean
      | Some (JNumber x) \<Rightarrow> JSONNumber
      | Some (JString s) \<Rightarrow> JSONString
      | Some (JArray vs) \<Rightarrow> JSONArray
      | Some (JObject ms) \<Rightarrow> JSONObject)"

definition json_value_get_array :: "'n json option \<Rightarrow> 'n json list option" where
  "json_value_get_array value = (case value of Some (JArray vs) \<Rightarrow> Some vs | _ \<Rightarrow> None)"

definition json_value_get_string :: "'n json option \<Rightarrow> string option" where
  "json_value_get_string value = (case value of Some (JString s) \<Rightarrow> Some s | _ \<Rightarrow> None)"

definition json_value_get_string_len :: "'n json option \<Rightarrow> nat" where
  "json_value_get_string_len value = (case json_value_get_string value of Some s \<Rightarrow> length s | None \<Rightarrow> 0)"

definition json_value_get_number :: "'n numbers \<Rightarrow> 'n json option \<Rightarrow> 'n" where
  "json_value_get_number N value = (case value of Some (JNumber x) \<Rightarrow> x | _ \<Rightarrow> number_of_int N 0)"

definition json_value_get_boolean :: "'n json option \<Rightarrow> int" where
  "json_value_get_boolean value = (case value of Some (JBoolean b) \<Rightarrow> (if b then 1 else 0) | _ \<Rightarrow> -1)"

definition json_value_init_object :: "'n json option" where "json_value_init_object = Some (JObject [])"
definition json_value_init_array :: "'n json option" where "json_value_init_array = Some (JArray [])"
definition json_value_init_null :: "'n json option" where "json_value_init_null = Some JNull"

definition json_value_init_boolean :: "int \<Rightarrow> 'n json option" where
  "json_value_init_boolean b = Some (JBoolean (b \<noteq> 0))"

text \<open>
  A string given with its length: the check runs over the memory at the pointer, which does not end
  where the string does.
\<close>

function utf8_valid_for :: "string \<Rightarrow> nat \<Rightarrow> bool" where
  "utf8_valid_for mem len =
     (if len = 0 then True
      else case verify_utf8_sequence mem of None \<Rightarrow> False | Some k \<Rightarrow> utf8_valid_for (drop k mem) (len - k))"
  by pat_completeness auto
termination
  by (relation "measure snd") (auto dest: verify_utf8_pos)

declare utf8_valid_for.simps [simp del]

text \<open>
  On a string up to its NUL, whatever is behind it in memory, the check is \<open>is_valid_utf8\<close>: a sequence that the string cuts
  ends at the NUL, which continues none.
\<close>

lemma sequence_terminated:
  assumes "s \<noteq> []"
  shows "verify_utf8_sequence (s @ CHR 0x00 # junk) = verify_utf8_sequence s"
    and "verify_utf8_sequence s = Some k \<Longrightarrow> k \<le> length s"
proof -
  have nul: "\<not> is_cont (CHR 0x00)" by (simp add: is_cont_def)
  obtain c t where s: "s = c # t" using assms by (cases s) auto
  consider "t = []" | d where "t = [d]" | d e where "t = [d, e]" | d e f r where "t = d # e # f # r"
    by (metis list.exhaust)
  note cases = this
  show "verify_utf8_sequence (s @ CHR 0x00 # junk) = verify_utf8_sequence s"
    by (rule cases) (simp_all add: s nul verify_utf8_sequence_def utf8_code_point_def Let_def cong: conj_cong)
  show "verify_utf8_sequence s = Some k \<Longrightarrow> k \<le> length s"
    by (rule cases) (auto simp: s verify_utf8_sequence_def utf8_code_point_def Let_def split: option.splits if_splits)
qed

lemma valid_terminated: "utf8_valid_for (s @ CHR 0x00 # junk) (length s) = is_valid_utf8 s"
proof (induction s rule: is_valid_utf8.induct)
  case (1 s)
  show ?case
  proof (cases "s = []")
    case False
    note seq = sequence_terminated[OF False]
    show ?thesis
    proof (cases "verify_utf8_sequence s")
      case None
      then show ?thesis using False seq(1)[of junk]
        by (subst utf8_valid_for.simps, subst is_valid_utf8.simps) simp
    next
      case (Some k)
      then have "k \<le> length s" by (rule seq(2))
      then show ?thesis using 1[OF False Some] Some False seq(1)[of junk]
        by (subst utf8_valid_for.simps, subst is_valid_utf8.simps) simp
    qed
  qed (simp add: utf8_valid_for.simps is_valid_utf8.simps)
qed

definition json_value_init_string_with_len :: "string \<Rightarrow> nat \<Rightarrow> 'n json option" where
  "json_value_init_string_with_len mem len =
     (if utf8_valid_for mem len then Some (JString (take len mem)) else None)"

text \<open>The short names of the same functions; \<open>json_type\<close>, \<open>json_object\<close> and \<open>json_array\<close> end in \<open>_of\<close> here.\<close>

definition json_type_of :: "'n json option \<Rightarrow> json_type" where "json_type_of = json_value_get_type"
definition json_object_of :: "'n json option \<Rightarrow> (string \<times> 'n json) list option" where "json_object_of = json_value_get_object"
definition json_array_of :: "'n json option \<Rightarrow> 'n json list option" where "json_array_of = json_value_get_array"
definition json_string :: "'n json option \<Rightarrow> string option" where "json_string = json_value_get_string"
definition json_string_len :: "'n json option \<Rightarrow> nat" where "json_string_len = json_value_get_string_len"
definition json_number :: "'n numbers \<Rightarrow> 'n json option \<Rightarrow> 'n" where "json_number = json_value_get_number"
definition json_boolean :: "'n json option \<Rightarrow> int" where "json_boolean = json_value_get_boolean"

section \<open>Reading objects\<close>

type_synonym 'n members = "(string \<times> 'n json) list"

definition object_value :: "'n members option \<Rightarrow> string \<Rightarrow> 'n json option" where
  "object_value ob name = (case ob of None \<Rightarrow> None | Some ms \<Rightarrow> json_object_get_value ms name)"

definition json_object_get_string_len :: "'n members option \<Rightarrow> string \<Rightarrow> nat" where
  "json_object_get_string_len ob name = json_value_get_string_len (object_value ob name)"

definition json_object_get_number :: "'n numbers \<Rightarrow> 'n members option \<Rightarrow> string \<Rightarrow> 'n" where
  "json_object_get_number N ob name = json_value_get_number N (object_value ob name)"

definition json_object_get_object :: "'n members option \<Rightarrow> string \<Rightarrow> 'n members option" where
  "json_object_get_object ob name = json_value_get_object (object_value ob name)"

definition json_object_get_array :: "'n members option \<Rightarrow> string \<Rightarrow> 'n json list option" where
  "json_object_get_array ob name = json_value_get_array (object_value ob name)"

definition json_object_get_boolean :: "'n members option \<Rightarrow> string \<Rightarrow> int" where
  "json_object_get_boolean ob name = json_value_get_boolean (object_value ob name)"

definition json_object_get_count :: "'n members option \<Rightarrow> nat" where
  "json_object_get_count ob = (case ob of None \<Rightarrow> 0 | Some ms \<Rightarrow> length ms)"

definition json_object_get_name :: "'n members option \<Rightarrow> nat \<Rightarrow> string option" where
  "json_object_get_name ob index =
     (case ob of None \<Rightarrow> None | Some ms \<Rightarrow> if length ms \<le> index then None else Some (fst (ms ! index)))"

definition json_object_get_value_at :: "'n members option \<Rightarrow> nat \<Rightarrow> 'n json option" where
  "json_object_get_value_at ob index =
     (case ob of None \<Rightarrow> None | Some ms \<Rightarrow> if length ms \<le> index then None else Some (snd (ms ! index)))"

definition json_object_has_value_of_type :: "'n members option \<Rightarrow> string \<Rightarrow> json_type \<Rightarrow> bool" where
  "json_object_has_value_of_type ob name ty \<longleftrightarrow>
     object_value ob name \<noteq> None \<and> json_value_get_type (object_value ob name) = ty"

section \<open>Names with dots\<close>

text \<open>\<open>strchr (name, '.')\<close> as a length: how many characters stand before the first dot.\<close>

definition dotted :: "string \<Rightarrow> bool" where
  "dotted name \<longleftrightarrow> CHR ''.'' \<in> set name"

definition dot_pos :: "string \<Rightarrow> nat" where
  "dot_pos name = length (takeWhile (\<lambda>c. c \<noteq> CHR ''.'') name)"

lemma dot_pos_less: "dotted name \<Longrightarrow> dot_pos name < length name"
  unfolding dotted_def dot_pos_def by (induction name) auto

function json_object_dotget_value :: "'n members option \<Rightarrow> string \<Rightarrow> 'n json option" where
  "json_object_dotget_value ob name =
     (if \<not> dotted name then object_value ob name
      else json_object_dotget_value
             (json_value_get_object (case ob of None \<Rightarrow> None | Some ms \<Rightarrow> json_object_getn_value ms name (dot_pos name)))
             (drop (dot_pos name + 1) name))"
  by pat_completeness auto
termination
  by (relation "measure (\<lambda>(ob, name). length name)") (use dot_pos_less in fastforce)+

declare json_object_dotget_value.simps [simp del]

definition json_object_dotget_string :: "'n members option \<Rightarrow> string \<Rightarrow> string option" where
  "json_object_dotget_string ob name = json_value_get_string (json_object_dotget_value ob name)"

definition json_object_dotget_string_len :: "'n members option \<Rightarrow> string \<Rightarrow> nat" where
  "json_object_dotget_string_len ob name = json_value_get_string_len (json_object_dotget_value ob name)"

definition json_object_dotget_number :: "'n numbers \<Rightarrow> 'n members option \<Rightarrow> string \<Rightarrow> 'n" where
  "json_object_dotget_number N ob name = json_value_get_number N (json_object_dotget_value ob name)"

definition json_object_dotget_object :: "'n members option \<Rightarrow> string \<Rightarrow> 'n members option" where
  "json_object_dotget_object ob name = json_value_get_object (json_object_dotget_value ob name)"

definition json_object_dotget_array :: "'n members option \<Rightarrow> string \<Rightarrow> 'n json list option" where
  "json_object_dotget_array ob name = json_value_get_array (json_object_dotget_value ob name)"

definition json_object_dotget_boolean :: "'n members option \<Rightarrow> string \<Rightarrow> int" where
  "json_object_dotget_boolean ob name = json_value_get_boolean (json_object_dotget_value ob name)"

definition json_object_dothas_value :: "'n members option \<Rightarrow> string \<Rightarrow> bool" where
  "json_object_dothas_value ob name \<longleftrightarrow> json_object_dotget_value ob name \<noteq> None"

definition json_object_dothas_value_of_type :: "'n members option \<Rightarrow> string \<Rightarrow> json_type \<Rightarrow> bool" where
  "json_object_dothas_value_of_type ob name ty \<longleftrightarrow>
     json_object_dotget_value ob name \<noteq> None \<and> json_value_get_type (json_object_dotget_value ob name) = ty"

section \<open>Changing objects\<close>

definition json_object_set_string_with_len :: "'n members \<Rightarrow> string \<Rightarrow> string \<Rightarrow> nat \<Rightarrow> bool \<times> 'n members" where
  "json_object_set_string_with_len ms name mem len =
     json_object_set_value ms name (json_value_init_string_with_len mem len)"

definition json_object_set_boolean :: "'n members \<Rightarrow> string \<Rightarrow> int \<Rightarrow> bool \<times> 'n members" where
  "json_object_set_boolean ms name b = json_object_set_value ms name (json_value_init_boolean b)"

definition json_object_set_null :: "'n members \<Rightarrow> string \<Rightarrow> bool \<times> 'n members" where
  "json_object_set_null ms name = json_object_set_value ms name json_value_init_null"

text \<open>The index of the first member of a name; the last member takes the place of the one removed.\<close>

fun member_index :: "'n members \<Rightarrow> string \<Rightarrow> nat" where
  "member_index [] name = 0"
| "member_index ((nm, v) # ms) name = (if nm = name then 0 else Suc (member_index ms name))"

definition json_object_remove_internal :: "'n members \<Rightarrow> string \<Rightarrow> bool \<times> 'n members" where
  "json_object_remove_internal ms name =
     (if json_object_get_value ms name = None then (False, ms)
      else (True, butlast (ms[member_index ms name := last ms])))"

definition json_object_remove :: "'n members \<Rightarrow> string \<Rightarrow> bool \<times> 'n members" where
  "json_object_remove ms name = json_object_remove_internal ms name"

text \<open>A change of an object inside an object is written back at the name it was found under.\<close>

function json_object_dotremove_internal :: "'n members \<Rightarrow> string \<Rightarrow> bool \<times> 'n members" where
  "json_object_dotremove_internal ms name =
     (if \<not> dotted name then json_object_remove_internal ms name
      else case json_object_getn_value ms name (dot_pos name) of
        Some (JObject inner) \<Rightarrow>
          let (st, inner') = json_object_dotremove_internal inner (drop (dot_pos name + 1) name)
          in (st, replace_value ms (take (dot_pos name) name) (JObject inner'))
      | _ \<Rightarrow> (False, ms))"
  by pat_completeness auto
termination
  by (relation "measure (\<lambda>(ms, name). length name)") (use dot_pos_less in fastforce)+

declare json_object_dotremove_internal.simps [simp del]

definition json_object_dotremove :: "'n members \<Rightarrow> string \<Rightarrow> bool \<times> 'n members" where
  "json_object_dotremove ms name = json_object_dotremove_internal ms name"

definition json_object_clear :: "'n members option \<Rightarrow> bool \<times> 'n members option" where
  "json_object_clear ob = (case ob of None \<Rightarrow> (False, None) | Some ms \<Rightarrow> (True, Some []))"

function json_object_dotset_value :: "'n members \<Rightarrow> string \<Rightarrow> 'n json option \<Rightarrow> bool \<times> 'n members" where
  "json_object_dotset_value ms name value =
     (if value = None then (False, ms)
      else if \<not> dotted name then json_object_set_value ms name value
      else let key = take (dot_pos name) name; rest = drop (dot_pos name + 1) name
      in case json_object_getn_value ms name (dot_pos name) of
           Some (JObject inner) \<Rightarrow>
             (let (st, inner') = json_object_dotset_value inner rest value
              in (st, replace_value ms key (JObject inner')))
         | Some _ \<Rightarrow> (False, ms)
         | None \<Rightarrow>
             (let (st, inner') = json_object_dotset_value [] rest value
              in if \<not> st then (False, ms)
                 else case json_object_add ms key (JObject inner') of
                        None \<Rightarrow> (False, ms) | Some ms' \<Rightarrow> (True, ms')))"
  by pat_completeness auto
termination
  by (relation "measure (\<lambda>(ms, name, value). length name)") (use dot_pos_less in fastforce)+

declare json_object_dotset_value.simps [simp del]

definition json_object_dotset_string :: "'n members \<Rightarrow> string \<Rightarrow> string \<Rightarrow> bool \<times> 'n members" where
  "json_object_dotset_string ms name s = json_object_dotset_value ms name (json_value_init_string s)"

definition json_object_dotset_string_with_len ::
  "'n members \<Rightarrow> string \<Rightarrow> string \<Rightarrow> nat \<Rightarrow> bool \<times> 'n members" where
  "json_object_dotset_string_with_len ms name mem len =
     json_object_dotset_value ms name (json_value_init_string_with_len mem len)"

definition json_object_dotset_number :: "'n numbers \<Rightarrow> 'n members \<Rightarrow> string \<Rightarrow> 'n \<Rightarrow> bool \<times> 'n members" where
  "json_object_dotset_number N ms name x = json_object_dotset_value ms name (json_value_init_number N x)"

definition json_object_dotset_boolean :: "'n members \<Rightarrow> string \<Rightarrow> int \<Rightarrow> bool \<times> 'n members" where
  "json_object_dotset_boolean ms name b = json_object_dotset_value ms name (json_value_init_boolean b)"

definition json_object_dotset_null :: "'n members \<Rightarrow> string \<Rightarrow> bool \<times> 'n members" where
  "json_object_dotset_null ms name = json_object_dotset_value ms name json_value_init_null"

end
