(* ===== verification/Json_Path.thy ===== *)
theory Json_Path
  imports Json_Object
begin

text \<open>
  Names with dots as paths: what the operations of \<open>src/PCom3/parson.c\<close> on dotted names do, in
  terms of lists of keys and of the lookup along them, and the laws that flat and dotted names
  share.
\<close>

section \<open>Lists of keys\<close>

function keys_of :: "string \<Rightarrow> string list" where
  "keys_of name =
     (if \<not> dotted name then [name] else take (dot_pos name) name # keys_of (drop (dot_pos name + 1) name))"
  by pat_completeness auto
termination
  by (relation "measure length") (use dot_pos_less in fastforce)+

declare keys_of.simps [simp del]

fun lookup_path :: "'n members \<Rightarrow> string list \<Rightarrow> 'n json option" where
  "lookup_path ms [] = Some (JObject ms)"
| "lookup_path ms (k # ks) =
     (if ks = [] then map_of ms k
      else case map_of ms k of Some (JObject inner) \<Rightarrow> lookup_path inner ks | _ \<Rightarrow> None)"

lemma keys_of_nonempty [simp]: "keys_of name \<noteq> []"
  by (subst keys_of.simps) simp

lemma getn_map_of: "k \<le> length name \<Longrightarrow> json_object_getn_value ms name k = map_of ms (take k name)"
  by (induction ms) auto

lemma dotget_none: "json_object_dotget_value None name = None"
proof (induction name rule: length_induct)
  case (1 name)
  show ?case
  proof (cases "dotted name")
    case True
    then have "length (drop (dot_pos name + 1) name) < length name" using dot_pos_less[OF True] by simp
    then show ?thesis using 1 True by (subst json_object_dotget_value.simps) (simp add: json_value_get_object_def)
  qed (simp add: json_object_dotget_value.simps object_value_def)
qed

lemma dotget_lookup: "json_object_dotget_value (Some ms) name = lookup_path ms (keys_of name)"
proof (induction name arbitrary: ms rule: length_induct)
  case (1 name)
  show ?case
  proof (cases "dotted name")
    case True
    let ?k = "take (dot_pos name) name" and ?r = "drop (dot_pos name + 1) name"
    have r: "length ?r < length name" and k: "dot_pos name \<le> length name" using dot_pos_less[OF True] by simp_all
    have "json_object_dotget_value (Some ms) name = json_object_dotget_value (json_value_get_object (map_of ms ?k)) ?r"
      using True getn_map_of[OF k, of ms] by (subst json_object_dotget_value.simps) simp
    also have "\<dots> = lookup_path ms (?k # keys_of ?r)"
      using 1[rule_format, OF r] dotget_none
      by (auto simp: json_value_get_object_def split: option.splits json.splits)
    also have "?k # keys_of ?r = keys_of name" using True by (subst (2) keys_of.simps) simp
    finally show ?thesis .
  next
    case False
    then show ?thesis
      by (simp add: json_object_dotget_value.simps keys_of.simps object_value_def json_object_get_value_map_of)
  qed
qed

section \<open>Setting\<close>

text \<open>A value set along a list of keys; a value that is not an object stands in the way.\<close>

fun set_path :: "'n members \<Rightarrow> string list \<Rightarrow> 'n json \<Rightarrow> 'n members option" where
  "set_path ms [] v = None"
| "set_path ms (k # ks) v =
     (if ks = [] then Some (snd (json_object_set_value ms k (Some v)))
      else case map_of ms k of
        Some (JObject inner) \<Rightarrow> map_option (\<lambda>inner'. replace_value ms k (JObject inner')) (set_path inner ks v)
      | Some _ \<Rightarrow> None
      | None \<Rightarrow> map_option (\<lambda>inner'. ms @ [(k, JObject inner')]) (set_path [] ks v))"

lemma map_of_replace: "map_of (replace_value ms k v) j = (if j = k \<and> map_of ms k \<noteq> None then Some v else map_of ms j)"
  by (induction ms) auto

lemma replace_same: "map_of ms k = Some v \<Longrightarrow> replace_value ms k v = ms"
  by (induction ms) (auto split: if_splits)

lemma set_value_Some: "fst (json_object_set_value ms k (Some v))"
  by (auto simp: json_object_set_value_def json_object_add_def json_object_get_value_def)

lemma map_of_set_value: "map_of (snd (json_object_set_value ms k (Some v))) j = (if j = k then Some v else map_of ms j)"
  using json_object_get_value_map_of[of ms k]
  by (auto simp: json_object_set_value_def json_object_add_def json_object_get_value_def map_of_replace map_add_def
      split: option.splits)

lemma dotset_set_path:
  "json_object_dotset_value ms name (Some v) =
     (case set_path ms (keys_of name) v of None \<Rightarrow> (False, ms) | Some ms' \<Rightarrow> (True, ms'))"
proof (induction name arbitrary: ms rule: length_induct)
  case (1 name)
  show ?case
  proof (cases "dotted name")
    case True
    let ?k = "take (dot_pos name) name" and ?r = "drop (dot_pos name + 1) name"
    have r: "length ?r < length name" and k: "dot_pos name \<le> length name" using dot_pos_less[OF True] by simp_all
    note IH = 1[rule_format, OF r]
    have keys: "keys_of name = ?k # keys_of ?r" using True by (subst keys_of.simps) simp
    have add: "map_of ms ?k = None \<Longrightarrow> json_object_add ms ?k x = Some (ms @ [(?k, x)])" for x
      using json_object_get_value_map_of[of ms ?k] by (simp add: json_object_add_def json_object_get_value_def)
    show ?thesis
    proof (cases "map_of ms ?k")
      case None
      then show ?thesis using True IH add getn_map_of[OF k, of ms]
        by (subst json_object_dotset_value.simps) (auto simp: keys Let_def split: option.splits)
    next
      case (Some x)
      then show ?thesis using True IH replace_same[of ms ?k] getn_map_of[OF k, of ms]
        by (subst json_object_dotset_value.simps) (auto simp: keys Let_def split: option.splits json.splits)
    qed
  next
    case False
    then show ?thesis
      using set_value_Some[of ms name v]
      by (subst json_object_dotset_value.simps) (auto simp: keys_of.simps[of name] prod_eq_iff)
  qed
qed

lemma set_path_lookup: "set_path ms ks v = Some ms' \<Longrightarrow> lookup_path ms' ks = Some v"
proof (induction ks arbitrary: ms ms')
  case (Cons k ks)
  then show ?case
    by (auto simp: map_of_set_value map_of_replace map_add_def split: if_splits option.splits json.splits)
qed simp

lemma lookup_empty: "ks \<noteq> [] \<Longrightarrow> lookup_path [] ks = None"
  by (cases ks) auto

lemma set_path_other:
  assumes "set_path ms ks v = Some ms'" and "\<not> prefix ks js" and "\<not> prefix js ks"
  shows "lookup_path ms' js = lookup_path ms js"
  using assms
proof (induction ks arbitrary: ms ms' js)
  case (Cons k ks)
  obtain j js1 where js: "js = j # js1" using Cons.prems(3) by (cases js) auto
  show ?case
  proof (cases "j = k")
    case False
    have "map_of ms' j = map_of ms j"
      using Cons.prems(1) False
      by (auto simp: map_of_set_value map_of_replace map_add_def split: if_splits option.splits json.splits)
    then show ?thesis by (simp add: js)
  next
    case True
    then have p: "\<not> prefix ks js1" "\<not> prefix js1 ks" using Cons.prems(2,3) js by auto
    then have ne: "ks \<noteq> []" "js1 \<noteq> []" by auto
    show ?thesis
      using Cons.prems(1) Cons.IH[OF _ p] ne lookup_empty[OF ne(2)]
      by (fastforce simp: js True map_of_replace map_add_def split: option.splits json.splits)
  qed
qed simp

text \<open>Setting fails exactly when something that is not an object stands on the way.\<close>

lemma set_path_None:
  assumes "ks \<noteq> []"
  shows "set_path ms ks v = None \<longleftrightarrow>
    (\<exists>ps x. ps \<noteq> [] \<and> strict_prefix ps ks \<and> lookup_path ms ps = Some x \<and> json_value_get_type (Some x) \<noteq> JSONObject)"
  using assms
proof (induction ks arbitrary: ms)
  case (Cons k ks)
  show ?case
  proof (cases "ks = []")
    case True
    then show ?thesis by (auto simp: strict_prefix_def prefix_Cons)
  next
    case ne: False
    have path: "(\<exists>ps x. ps \<noteq> [] \<and> strict_prefix ps (k # ks) \<and> lookup_path ms ps = Some x \<and> P x) \<longleftrightarrow>
        (\<exists>x. map_of ms k = Some x \<and> P x) \<or>
        (\<exists>inner ps x. map_of ms k = Some (JObject inner) \<and> ps \<noteq> [] \<and> strict_prefix ps ks \<and> lookup_path inner ps = Some x \<and> P x)"
      (is "?l \<longleftrightarrow> ?r1 \<or> ?r2") for P
    proof
      assume ?l
      then obtain ps x where ps: "ps \<noteq> []" "strict_prefix ps (k # ks)" "lookup_path ms ps = Some x" "P x" by blast
      then obtain qs where qs: "ps = k # qs" "strict_prefix qs ks" by (cases ps) auto
      then show "?r1 \<or> ?r2" using ps by (auto split: if_splits option.splits json.splits)
    next
      assume "?r1 \<or> ?r2"
      then show ?l
      proof
        assume ?r1
        then show ?l using ne by (intro exI[of _ "[k]"]) (auto simp: strict_prefix_def)
      next
        assume ?r2
        then obtain inner ps x where "map_of ms k = Some (JObject inner)" "ps \<noteq> []" "strict_prefix ps ks"
            "lookup_path inner ps = Some x" "P x" by blast
        then show ?l by (intro exI[of _ "k # ps"]) auto
      qed
    qed
    have none: "set_path [] ks v \<noteq> None" for v :: "'n json"
    proof -
      have "set_path [] js v \<noteq> None" if "js \<noteq> []" for js using that by (induction js) auto
      then show ?thesis using ne .
    qed
    show ?thesis
    proof (cases "map_of ms k")
      case None
      then show ?thesis unfolding path using ne none by simp
    next
      case (Some x)
      show ?thesis
      proof (cases "\<exists>inner. x = JObject inner")
        case True
        then obtain inner where x: "x = JObject inner" by blast
        show ?thesis unfolding path using ne Some x Cons.IH[OF ne, of inner] by (simp add: json_value_get_type_def)
      next
        case False
        then have "set_path ms (k # ks) v = None" "json_value_get_type (Some x) \<noteq> JSONObject"
          using ne Some by (cases x; simp add: json_value_get_type_def)+
        then show ?thesis unfolding path using Some by blast
      qed
    qed
  qed
qed simp


section \<open>Removing\<close>

text \<open>No object of the tree has two members of one name.\<close>

fun names_ok :: "'n json \<Rightarrow> bool" where
  "names_ok (JArray vs) \<longleftrightarrow> list_all names_ok vs"
| "names_ok (JObject ms) \<longleftrightarrow> distinct (map fst ms) \<and> list_all (\<lambda>m. names_ok (snd m)) ms"
| "names_ok _ \<longleftrightarrow> True"

lemma names_ok_member: "names_ok (JObject ms) \<Longrightarrow> map_of ms k = Some v \<Longrightarrow> names_ok v"
  by (auto simp: list_all_iff dest!: map_of_SomeD)

lemma removed_members:
  assumes "distinct (map fst ms)" and "map_of ms k = Some v"
  shows "distinct (map fst (butlast (ms[member_index ms k := last ms])))"
    and "set (butlast (ms[member_index ms k := last ms])) = set ms - {(k, v)}"
proof -
  obtain xs ys where ms: "ms = xs @ (k, v) # ys"
    using map_of_SomeD[OF assms(2)] by (meson split_list)
  have i: "member_index ms k = length xs"
  proof -
    have "k \<notin> fst ` set xs" using assms(1) ms by auto
    then show ?thesis unfolding ms by (induction xs) auto
  qed
  define new where "new = butlast (ms[member_index ms k := last ms])"
  have "distinct (map fst new) \<and> set new = set ms - {(k, v)}"
  proof (cases ys rule: rev_cases)
    case Nil
    then have "new = xs" "set ms = insert (k, v) (set xs)" "(k, v) \<notin> set xs"
      using assms(1) unfolding new_def i unfolding ms by (auto simp: butlast_append intro: rev_image_eqI)
    then show ?thesis using assms(1) ms by simp
  next
    case (snoc zs l)
    then have n: "new = xs @ l # zs" unfolding new_def i unfolding ms by (simp add: butlast_append)
    have "(k, v) \<notin> set xs \<union> set (l # zs)" using assms(1) ms snoc by (auto simp: rev_image_eqI)
    then show ?thesis using assms(1) unfolding n unfolding ms snoc by auto
  qed
  then show "distinct (map fst (butlast (ms[member_index ms k := last ms])))"
    and "set (butlast (ms[member_index ms k := last ms])) = set ms - {(k, v)}"
    by (simp_all add: new_def)
qed

lemma map_of_remove:
  assumes "distinct (map fst ms)" and "map_of ms k = Some v"
  shows "map_of (snd (json_object_remove_internal ms k)) j = (if j = k then None else map_of ms j)"
proof -
  let ?ms' = "butlast (ms[member_index ms k := last ms])"
  note r = removed_members[OF assms]
  have "map_of ?ms' j = Some w \<longleftrightarrow> j \<noteq> k \<and> map_of ms j = Some w" for w
  proof -
    have "map_of ?ms' j = Some w \<longleftrightarrow> (j, w) \<in> set ms - {(k, v)}"
      unfolding map_of_eq_Some_iff[OF r(1)] r(2) ..
    also have "\<dots> \<longleftrightarrow> map_of ms j = Some w \<and> (j, w) \<noteq> (k, v)"
      unfolding map_of_eq_Some_iff[OF assms(1)] by blast
    also have "\<dots> \<longleftrightarrow> j \<noteq> k \<and> map_of ms j = Some w" using assms(2) by auto
    finally show ?thesis .
  qed
  note found = this
  have "map_of ?ms' j = (if j = k then None else map_of ms j)"
  proof (cases "map_of ?ms' j")
    case None
    then have "\<not> (j \<noteq> k \<and> map_of ms j = Some w)" for w using found[of w] by simp
    with None show ?thesis by (cases "map_of ms j") auto
  next
    case (Some w)
    with found[of w] show ?thesis by simp
  qed
  then show ?thesis using assms(2) by (simp add: json_object_remove_internal_def json_object_get_value_map_of)
qed

fun remove_path :: "'n members \<Rightarrow> string list \<Rightarrow> 'n members option" where
  "remove_path ms [] = None"
| "remove_path ms (k # ks) =
     (if ks = [] then if map_of ms k = None then None else Some (snd (json_object_remove_internal ms k))
      else case map_of ms k of
        Some (JObject inner) \<Rightarrow> map_option (\<lambda>inner'. replace_value ms k (JObject inner')) (remove_path inner ks)
      | _ \<Rightarrow> None)"

lemma dotremove_remove_path:
  "json_object_dotremove_internal ms name =
     (case remove_path ms (keys_of name) of None \<Rightarrow> (False, ms) | Some ms' \<Rightarrow> (True, ms'))"
proof (induction name arbitrary: ms rule: length_induct)
  case (1 name)
  show ?case
  proof (cases "dotted name")
    case True
    let ?k = "take (dot_pos name) name" and ?r = "drop (dot_pos name + 1) name"
    have r: "length ?r < length name" and k: "dot_pos name \<le> length name" using dot_pos_less[OF True] by simp_all
    have keys: "keys_of name = ?k # keys_of ?r" using True by (subst keys_of.simps) simp
    show ?thesis
      using True 1[rule_format, OF r] replace_same[of ms ?k] getn_map_of[OF k, of ms]
      by (subst json_object_dotremove_internal.simps) (auto simp: keys Let_def split: option.splits json.splits)
  next
    case False
    then show ?thesis
      by (subst json_object_dotremove_internal.simps)
        (auto simp: keys_of.simps[of name] json_object_remove_internal_def json_object_get_value_map_of)
  qed
qed

lemma remove_path_None: "ks \<noteq> [] \<Longrightarrow> remove_path ms ks = None \<longleftrightarrow> lookup_path ms ks = None"
  by (induction ks arbitrary: ms) (auto split: option.splits json.splits)

lemma remove_path_Some: "remove_path ms ks = Some ms' \<Longrightarrow> \<exists>y. lookup_path ms ks = Some y"
  using remove_path_None[of ks ms] by (cases ks) auto

lemma remove_path_lookup:
  "remove_path ms ks = Some ms' \<Longrightarrow> names_ok (JObject ms) \<Longrightarrow> lookup_path ms' ks = None"
proof (induction ks arbitrary: ms ms')
  case (Cons k ks)
  then show ?case
    using names_ok_member[OF Cons.prems(2), of k]
    by (fastforce simp: map_of_remove map_of_replace split: if_splits option.splits json.splits)
qed simp

lemma remove_path_other:
  assumes "remove_path ms ks = Some ms'" and "names_ok (JObject ms)" and "\<not> prefix ks js" and "\<not> prefix js ks"
  shows "lookup_path ms' js = lookup_path ms js"
  using assms
proof (induction ks arbitrary: ms ms' js)
  case (Cons k ks)
  obtain j js1 where js: "js = j # js1" using Cons.prems(4) by (cases js) auto
  show ?case
  proof (cases "j = k")
    case False
    have "map_of ms' j = map_of ms j"
      using Cons.prems(1,2) False
      by (auto simp: map_of_remove map_of_replace split: if_splits option.splits json.splits)
    then show ?thesis by (simp add: js)
  next
    case True
    then have p: "\<not> prefix ks js1" "\<not> prefix js1 ks" using Cons.prems(3,4) js by auto
    then have ne: "ks \<noteq> []" "js1 \<noteq> []" by auto
    then obtain inner inner' where "map_of ms k = Some (JObject inner)" "remove_path inner ks = Some inner'"
        "ms' = replace_value ms k (JObject inner')"
      using Cons.prems(1) by (auto split: option.splits json.splits)
    moreover from this have "lookup_path inner' js1 = lookup_path inner js1"
      using Cons.IH[OF _ names_ok_member[OF Cons.prems(2)] p] by blast
    ultimately show ?thesis using ne by (simp add: js True map_of_replace)
  qed
qed simp

section \<open>The names stay distinct\<close>

lemma names_replace: "map fst (replace_value ms k v) = map fst ms"
  by (induction ms) auto

lemma list_all_replace:
  "list_all (\<lambda>m. P (snd m)) ms \<Longrightarrow> P v \<Longrightarrow> list_all (\<lambda>m. P (snd m)) (replace_value ms k v)"
  by (induction ms) auto

lemma names_ok_set_value:
  assumes "names_ok (JObject ms)" and "names_ok v"
  shows "names_ok (JObject (snd (json_object_set_value ms k (Some v))))"
  using assms json_object_get_value_map_of[of ms k]
  by (auto simp: json_object_set_value_def json_object_add_Some names_replace list_all_replace map_of_eq_None_iff
      split: option.splits)

lemma names_ok_set_path:
  "set_path ms ks v = Some ms' \<Longrightarrow> names_ok (JObject ms) \<Longrightarrow> names_ok v \<Longrightarrow> names_ok (JObject ms')"
proof (induction ks arbitrary: ms ms')
  case (Cons k ks)
  show ?case
  proof (cases "ks = []")
    case True
    then show ?thesis using Cons.prems names_ok_set_value by auto
  next
    case False
    then consider inner inner' where "map_of ms k = Some (JObject inner)" "set_path inner ks v = Some inner'"
          "ms' = replace_value ms k (JObject inner')"
      | inner' where "map_of ms k = None" "set_path [] ks v = Some inner'" "ms' = ms @ [(k, JObject inner')]"
      using Cons.prems(1) by (auto split: option.splits json.splits)
    then show ?thesis
    proof cases
      case 1
      then have "names_ok (JObject inner')" using Cons.IH Cons.prems(3) names_ok_member[OF Cons.prems(2)] by blast
      then show ?thesis using 1(3) Cons.prems(2) list_all_replace[of names_ok ms] by (simp add: names_replace)
    next
      case 2
      then have "names_ok (JObject inner')" using Cons.IH Cons.prems(3) by fastforce
      then show ?thesis using 2(1,3) Cons.prems(2) by (auto simp: map_of_eq_None_iff)
    qed
  qed
qed simp

lemma names_ok_remove:
  assumes "names_ok (JObject ms)"
  shows "names_ok (JObject (snd (json_object_remove_internal ms k)))"
proof (cases "map_of ms k")
  case (Some v)
  then show ?thesis
    using assms removed_members[of ms k v]
    by (auto simp: json_object_remove_internal_def json_object_get_value_map_of list_all_iff)
qed (use assms in \<open>simp add: json_object_remove_internal_def json_object_get_value_map_of\<close>)

lemma names_ok_remove_path:
  "remove_path ms ks = Some ms' \<Longrightarrow> names_ok (JObject ms) \<Longrightarrow> names_ok (JObject ms')"
proof (induction ks arbitrary: ms ms')
  case (Cons k ks)
  show ?case
  proof (cases "ks = []")
    case True
    then show ?thesis using Cons.prems names_ok_remove by (auto split: if_splits)
  next
    case False
    then obtain inner inner' where i: "map_of ms k = Some (JObject inner)" "remove_path inner ks = Some inner'"
        "ms' = replace_value ms k (JObject inner')"
      using Cons.prems(1) by (auto split: option.splits json.splits)
    then have "names_ok (JObject inner')" using Cons.IH names_ok_member[OF Cons.prems(2)] by blast
    then show ?thesis using i(3) Cons.prems(2) list_all_replace[of names_ok ms] by (simp add: names_replace)
  qed
qed simp


section \<open>The contract of flat and dotted names\<close>

text \<open>
  What a caller relies on, with names taken as they are or with dots: a value that was set is found,
  a name that was removed is not, names that do not lie on one path do not disturb each other, a
  call that fails changes nothing, and no name is ever there twice.
\<close>

fun put_all :: "('m \<Rightarrow> 'k \<Rightarrow> 'v \<Rightarrow> bool \<times> 'm) \<Rightarrow> 'm \<Rightarrow> ('k \<times> 'v) list \<Rightarrow> 'm option" where
  "put_all put m [] = Some m"
| "put_all put m ((k, v) # kvs) = (case put m k v of (True, m') \<Rightarrow> put_all put m' kvs | (False, _) \<Rightarrow> None)"

locale member_store =
  fixes get :: "'m \<Rightarrow> 'k \<Rightarrow> 'v option"
    and put :: "'m \<Rightarrow> 'k \<Rightarrow> 'v \<Rightarrow> bool \<times> 'm"
    and del :: "'m \<Rightarrow> 'k \<Rightarrow> bool \<times> 'm"
    and ok :: "'m \<Rightarrow> bool"
    and value_ok :: "'v \<Rightarrow> bool"
    and apart :: "'k \<Rightarrow> 'k \<Rightarrow> bool"
  assumes apart_sym: "apart k j \<Longrightarrow> apart j k"
    and put_get: "put m k v = (True, m') \<Longrightarrow> get m' k = Some v"
    and put_other: "put m k v = (True, m') \<Longrightarrow> apart k j \<Longrightarrow> get m' j = get m j"
    and put_fail: "put m k v = (False, m') \<Longrightarrow> m' = m"
    and put_ok: "put m k v = (True, m') \<Longrightarrow> ok m \<Longrightarrow> value_ok v \<Longrightarrow> ok m'"
    and del_status: "del m k = (st, m') \<Longrightarrow> st \<longleftrightarrow> get m k \<noteq> None"
    and del_get: "del m k = (True, m') \<Longrightarrow> ok m \<Longrightarrow> get m' k = None"
    and del_other: "del m k = (True, m') \<Longrightarrow> ok m \<Longrightarrow> apart k j \<Longrightarrow> get m' j = get m j"
    and del_fail: "del m k = (False, m') \<Longrightarrow> m' = m"
    and del_ok: "del m k = (st, m') \<Longrightarrow> ok m \<Longrightarrow> ok m'"
begin

lemma all_found:
  assumes "put_all put m kvs = Some m'" and "sorted_wrt (\<lambda>x y. apart (fst x) (fst y)) kvs"
  shows "(\<forall>(k, v) \<in> set kvs. get m' k = Some v) \<and> (\<forall>j. (\<forall>(k, v) \<in> set kvs. apart k j) \<longrightarrow> get m' j = get m j)"
  using assms
proof (induction kvs arbitrary: m)
  case (Cons kv kvs)
  obtain k v where kv: "kv = (k, v)" by (cases kv)
  obtain m1 where m1: "put m k v = (True, m1)" "put_all put m1 kvs = Some m'"
    using Cons.prems(1) by (auto simp: kv split: prod.splits bool.splits)
  have "\<forall>(j, w) \<in> set kvs. apart j k" using Cons.prems(2) apart_sym by (auto simp: kv)
  then have "get m' k = get m1 k" using Cons.IH[OF m1(2)] Cons.prems(2) by simp
  then show ?case
    using Cons.IH[OF m1(2)] Cons.prems(2) put_get[OF m1(1)] put_other[OF m1(1)] by (auto simp: kv)
qed simp

lemma deleted:
  assumes "ok m" and "del m k = (st, m')"
  shows "ok m' \<and> get m' k = None \<and> (st \<longleftrightarrow> get m k \<noteq> None) \<and> (\<forall>j. apart k j \<longrightarrow> get m' j = get m j)"
proof (cases st)
  case True
  then show ?thesis using assms del_get del_other del_ok del_status[OF assms(2)] by auto
next
  case False
  then show ?thesis using assms del_fail del_status[OF assms(2)] by auto
qed

end

definition apart_paths :: "string \<Rightarrow> string \<Rightarrow> bool" where
  "apart_paths a b \<longleftrightarrow> \<not> prefix (keys_of a) (keys_of b) \<and> \<not> prefix (keys_of b) (keys_of a)"

interpretation flat: member_store json_object_get_value "\<lambda>ms k v. json_object_set_value ms k (Some v)"
  json_object_remove "\<lambda>ms. names_ok (JObject ms)" names_ok "\<lambda>k j. k \<noteq> j"
proof
  fix m m' :: "'a members" and k j v
  show "json_object_set_value m k (Some v) = (True, m') \<Longrightarrow> json_object_get_value m' k = Some v"
    using map_of_set_value[of m k v k] by (simp add: json_object_get_value_map_of)
  show "json_object_set_value m k (Some v) = (True, m') \<Longrightarrow> k \<noteq> j \<Longrightarrow> json_object_get_value m' j = json_object_get_value m j"
    using map_of_set_value[of m k v j] by (simp add: json_object_get_value_map_of)
  show "json_object_set_value m k (Some v) = (False, m') \<Longrightarrow> m' = m" using set_value_Some[of m k v] by simp
  show "json_object_set_value m k (Some v) = (True, m') \<Longrightarrow> names_ok (JObject m) \<Longrightarrow> names_ok v \<Longrightarrow> names_ok (JObject m')"
    using names_ok_set_value[of m v k] by simp
  fix st
  assume del: "json_object_remove m k = (st, m')"
  then show "st \<longleftrightarrow> json_object_get_value m k \<noteq> None"
    by (auto simp: json_object_remove_def json_object_remove_internal_def split: if_splits)
  show "names_ok (JObject m) \<Longrightarrow> names_ok (JObject m')"
    using names_ok_remove[of m k] del by (simp add: json_object_remove_def)
next
  fix m m' :: "'a members" and k j
  assume del: "json_object_remove m k = (True, m')"
  then obtain v where v: "map_of m k = Some v"
    by (auto simp: json_object_remove_def json_object_remove_internal_def json_object_get_value_map_of split: if_splits)
  show "names_ok (JObject m) \<Longrightarrow> json_object_get_value m' k = None"
    using map_of_remove[OF _ v, of k] del by (simp add: json_object_get_value_map_of json_object_remove_def)
  show "names_ok (JObject m) \<Longrightarrow> k \<noteq> j \<Longrightarrow> json_object_get_value m' j = json_object_get_value m j"
    using map_of_remove[OF _ v, of j] del by (simp add: json_object_get_value_map_of json_object_remove_def)
next
  fix m m' :: "'a members" and k
  show "json_object_remove m k = (False, m') \<Longrightarrow> m' = m"
    by (auto simp: json_object_remove_def json_object_remove_internal_def split: if_splits)
qed simp

interpretation dots: member_store "\<lambda>ms. json_object_dotget_value (Some ms)"
  "\<lambda>ms k v. json_object_dotset_value ms k (Some v)" json_object_dotremove
  "\<lambda>ms. names_ok (JObject ms)" names_ok apart_paths
  by unfold_locales
    (auto simp: apart_paths_def dotget_lookup dotset_set_path dotremove_remove_path json_object_dotremove_def
      set_path_lookup set_path_other names_ok_set_path remove_path_lookup remove_path_other remove_path_None
      simp del: names_ok.simps dest: names_ok_remove_path remove_path_Some split: option.splits)


section \<open>The properties\<close>

text \<open>
  C27: a value set under a name with dots is found under that name, and every name whose keys do not
  lie on one path with its keys finds what it found before; the call fails exactly when a value that
  is not an object stands on the way, and then the object is as it was.
\<close>

theorem dotted_value_found:
  assumes "json_object_dotset_value ms name (Some v) = (st, ms')"
  shows "(st \<longleftrightarrow> \<not> (\<exists>ps x. ps \<noteq> [] \<and> strict_prefix ps (keys_of name) \<and> lookup_path ms ps = Some x \<and>
      json_value_get_type (Some x) \<noteq> JSONObject)) \<and>
    (st \<longrightarrow> json_object_dotget_value (Some ms') name = Some v \<and>
      (\<forall>other. apart_paths name other \<longrightarrow>
        json_object_dotget_value (Some ms') other = json_object_dotget_value (Some ms) other)) \<and>
    (\<not> st \<longrightarrow> ms' = ms)"
proof -
  have "st \<longleftrightarrow> set_path ms (keys_of name) v \<noteq> None"
    using assms by (auto simp: dotset_set_path split: option.splits)
  then have "st \<longleftrightarrow> \<not> (\<exists>ps x. ps \<noteq> [] \<and> strict_prefix ps (keys_of name) \<and> lookup_path ms ps = Some x \<and>
      json_value_get_type (Some x) \<noteq> JSONObject)"
    unfolding set_path_None[OF keys_of_nonempty, of ms name v] .
  then show ?thesis
    using assms dots.put_get[of ms name v ms'] dots.put_other[of ms name v ms'] dots.put_fail[of ms name v ms']
    by (cases st) simp_all
qed

text \<open>
  Removing under a name with dots succeeds exactly if there is a value; afterwards there is
  none, names apart from it find what they found before, although the last member takes the place
  of the one removed, and no object has a name twice.
\<close>

theorem dotted_value_removed:
  assumes "names_ok (JObject ms)" and "json_object_dotremove ms name = (st, ms')"
  shows "(st \<longleftrightarrow> json_object_dothas_value (Some ms) name) \<and> json_object_dotget_value (Some ms') name = None \<and>
    (\<forall>other. apart_paths name other \<longrightarrow>
      json_object_dotget_value (Some ms') other = json_object_dotget_value (Some ms) other) \<and>
    names_ok (JObject ms')"
  using dots.deleted[OF assms] by (simp add: json_object_dothas_value_def)

lemma dotted_value_found_witness:
  "json_object_dotget_value (Some (snd (json_object_dotset_value [(''a'', JBoolean True)] ''b.c'' (Some (JNumber (7 :: int))))))
     ''b.c'' = Some (JNumber 7)"
proof -
  let ?r = "json_object_dotset_value [(''a'', JBoolean True)] ''b.c'' (Some (JNumber (7 :: int)))"
  have "json_object_dotset_value [(''a'', JBoolean True)] ''b.c'' (Some (JNumber (7 :: int))) = (fst ?r, snd ?r)" by simp
  note law = dotted_value_found[OF this]
  have "fst ?r" by (simp add: dotset_set_path keys_of.simps dotted_def dot_pos_def)
  with law show ?thesis by blast
qed

lemma dotted_value_removed_witness:
  "json_object_dotget_value (Some (snd (json_object_dotremove
      [(''b'', JObject [(''c'', JNumber (7 :: int)), (''d'', JNull)])] ''b.c''))) ''b.c'' = None"
proof -
  let ?ms = "[(''b'', JObject [(''c'', JNumber (7 :: int)), (''d'', JNull)])]"
  have "names_ok (JObject ?ms)" by simp
  from dotted_value_removed[OF this, of "''b.c''" "fst (json_object_dotremove ?ms ''b.c'')" "snd (json_object_dotremove ?ms ''b.c'')"]
  show ?thesis by simp
qed

end
