(* ===== verification/Json_Array.thy ===== *)
theory Json_Array
  imports Json_Object
begin

text \<open>
  \<open>src/PCom3/parson.c\<close>, the interface to arrays. An index out of range is a null pointer on reading
  and a failure on writing; the values handed in are new ones. Every operation is stated by what
  \<open>json_array_get_value\<close> finds afterwards.
\<close>

section \<open>Reading\<close>

definition json_array_get_count :: "'n json list option \<Rightarrow> nat" where
  "json_array_get_count arr = (case arr of None \<Rightarrow> 0 | Some vs \<Rightarrow> length vs)"

definition json_array_get_value :: "'n json list option \<Rightarrow> nat \<Rightarrow> 'n json option" where
  "json_array_get_value arr index =
     (case arr of None \<Rightarrow> None | Some vs \<Rightarrow> if length vs \<le> index then None else Some (vs ! index))"

definition json_array_get_string :: "'n json list option \<Rightarrow> nat \<Rightarrow> string option" where
  "json_array_get_string arr index = json_value_get_string (json_array_get_value arr index)"

definition json_array_get_string_len :: "'n json list option \<Rightarrow> nat \<Rightarrow> nat" where
  "json_array_get_string_len arr index = json_value_get_string_len (json_array_get_value arr index)"

definition json_array_get_number :: "'n numbers \<Rightarrow> 'n json list option \<Rightarrow> nat \<Rightarrow> 'n" where
  "json_array_get_number N arr index = json_value_get_number N (json_array_get_value arr index)"

definition json_array_get_object :: "'n json list option \<Rightarrow> nat \<Rightarrow> 'n members option" where
  "json_array_get_object arr index = json_value_get_object (json_array_get_value arr index)"

definition json_array_get_array :: "'n json list option \<Rightarrow> nat \<Rightarrow> 'n json list option" where
  "json_array_get_array arr index = json_value_get_array (json_array_get_value arr index)"

definition json_array_get_boolean :: "'n json list option \<Rightarrow> nat \<Rightarrow> int" where
  "json_array_get_boolean arr index = json_value_get_boolean (json_array_get_value arr index)"

section \<open>Changing\<close>

definition json_array_remove :: "'n json list option \<Rightarrow> nat \<Rightarrow> bool \<times> 'n json list option" where
  "json_array_remove arr ix =
     (case arr of None \<Rightarrow> (False, None)
      | Some vs \<Rightarrow> if length vs \<le> ix then (False, Some vs) else (True, Some (take ix vs @ drop (ix + 1) vs)))"

definition json_array_replace_value ::
  "'n json list option \<Rightarrow> nat \<Rightarrow> 'n json option \<Rightarrow> bool \<times> 'n json list option" where
  "json_array_replace_value arr ix value =
     (case (arr, value) of
        (Some vs, Some v) \<Rightarrow> if length vs \<le> ix then (False, arr) else (True, Some (vs[ix := v]))
      | _ \<Rightarrow> (False, arr))"

definition json_array_append_value ::
  "'n json list option \<Rightarrow> 'n json option \<Rightarrow> bool \<times> 'n json list option" where
  "json_array_append_value arr value =
     (case (arr, value) of (Some vs, Some v) \<Rightarrow> (True, Some (vs @ [v])) | _ \<Rightarrow> (False, arr))"

definition json_array_clear :: "'n json list option \<Rightarrow> bool \<times> 'n json list option" where
  "json_array_clear arr = (case arr of None \<Rightarrow> (False, None) | Some vs \<Rightarrow> (True, Some []))"

definition json_array_replace_string ::
  "'n json list option \<Rightarrow> nat \<Rightarrow> string \<Rightarrow> bool \<times> 'n json list option" where
  "json_array_replace_string arr i s = json_array_replace_value arr i (json_value_init_string s)"

definition json_array_replace_string_with_len ::
  "'n json list option \<Rightarrow> nat \<Rightarrow> string \<Rightarrow> nat \<Rightarrow> bool \<times> 'n json list option" where
  "json_array_replace_string_with_len arr i mem len =
     json_array_replace_value arr i (json_value_init_string_with_len mem len)"

definition json_array_replace_number ::
  "'n numbers \<Rightarrow> 'n json list option \<Rightarrow> nat \<Rightarrow> 'n \<Rightarrow> bool \<times> 'n json list option" where
  "json_array_replace_number N arr i x = json_array_replace_value arr i (json_value_init_number N x)"

definition json_array_replace_boolean ::
  "'n json list option \<Rightarrow> nat \<Rightarrow> int \<Rightarrow> bool \<times> 'n json list option" where
  "json_array_replace_boolean arr i b = json_array_replace_value arr i (json_value_init_boolean b)"

definition json_array_replace_null :: "'n json list option \<Rightarrow> nat \<Rightarrow> bool \<times> 'n json list option" where
  "json_array_replace_null arr i = json_array_replace_value arr i json_value_init_null"

definition json_array_append_string ::
  "'n json list option \<Rightarrow> string \<Rightarrow> bool \<times> 'n json list option" where
  "json_array_append_string arr s = json_array_append_value arr (json_value_init_string s)"

definition json_array_append_string_with_len ::
  "'n json list option \<Rightarrow> string \<Rightarrow> nat \<Rightarrow> bool \<times> 'n json list option" where
  "json_array_append_string_with_len arr mem len =
     json_array_append_value arr (json_value_init_string_with_len mem len)"

definition json_array_append_number ::
  "'n numbers \<Rightarrow> 'n json list option \<Rightarrow> 'n \<Rightarrow> bool \<times> 'n json list option" where
  "json_array_append_number N arr x = json_array_append_value arr (json_value_init_number N x)"

definition json_array_append_boolean :: "'n json list option \<Rightarrow> int \<Rightarrow> bool \<times> 'n json list option" where
  "json_array_append_boolean arr b = json_array_append_value arr (json_value_init_boolean b)"

definition json_array_append_null :: "'n json list option \<Rightarrow> bool \<times> 'n json list option" where
  "json_array_append_null arr = json_array_append_value arr json_value_init_null"

section \<open>What is found afterwards\<close>

lemma replaced_element:
  assumes "json_array_replace_value arr ix (Some v) = (st, arr')"
  shows "(st \<longleftrightarrow> ix < json_array_get_count arr) \<and> json_array_get_count arr' = json_array_get_count arr \<and>
    json_array_get_value arr' i = (if st \<and> i = ix then Some v else json_array_get_value arr i)"
  using assms
  by (cases arr) (auto simp: json_array_replace_value_def json_array_get_value_def json_array_get_count_def nth_list_update
      split: if_splits)

lemma appended_element:
  assumes "json_array_append_value (Some vs) (Some v) = (st, arr')"
  shows "st \<and> json_array_get_count arr' = length vs + 1 \<and>
    json_array_get_value arr' i = (if i = length vs then Some v else json_array_get_value (Some vs) i)"
  using assms by (auto simp: json_array_append_value_def json_array_get_value_def json_array_get_count_def nth_append)

lemma removed_element:
  assumes "json_array_remove arr ix = (st, arr')"
  shows "(st \<longleftrightarrow> ix < json_array_get_count arr) \<and>
    json_array_get_value arr' i = (if st \<and> ix \<le> i then json_array_get_value arr (i + 1) else json_array_get_value arr i)"
  using assms
  by (cases arr) (auto simp: json_array_remove_def json_array_get_value_def json_array_get_count_def nth_append min_def
      split: if_splits)

end
