(* ===== verification/Json_Compare.thy ===== *)
theory Json_Compare
  imports Json_Path Json_Array
begin

text \<open>
  \<open>src/PCom3/parson.c\<close>: copying a value, comparing two values, checking a value against a schema.
  All three take the members of an object by their names: the \<open>i\<close>-th name is read and its value
  looked up. The comparison of numbers, \<open>fabs (x - y) < 0.000001\<close>, is a parameter.
\<close>

lemma get_value_size [termination_simp]:
  "json_object_get_value ms k = Some v \<Longrightarrow> size v < size_list (size_prod (\<lambda>x. 0) size) ms"
  unfolding json_object_get_value_map_of by (induction ms) (auto split: if_splits)

section \<open>Copies\<close>

function json_value_deep_copy :: "'n numbers \<Rightarrow> 'n json \<Rightarrow> 'n json option"
  and copy_items :: "'n numbers \<Rightarrow> 'n json list \<Rightarrow> 'n json list \<Rightarrow> 'n json option"
  and copy_members :: "'n numbers \<Rightarrow> 'n members \<Rightarrow> string list \<Rightarrow> 'n members \<Rightarrow> 'n json option"
where
  "json_value_deep_copy N v =
     (case v of
        JArray vs \<Rightarrow> copy_items N vs []
      | JObject ms \<Rightarrow> copy_members N ms (map fst ms) []
      | JBoolean b \<Rightarrow> Some (JBoolean b)
      | JNumber x \<Rightarrow> json_value_init_number N x
      | JString s \<Rightarrow> Some (JString s)
      | JNull \<Rightarrow> Some JNull)"
| "copy_items N [] acc = Some (JArray acc)"
| "copy_items N (v # vs) acc =
     (case json_value_deep_copy N v of None \<Rightarrow> None | Some v' \<Rightarrow> copy_items N vs (acc @ [v']))"
| "copy_members N ms [] acc = Some (JObject acc)"
| "copy_members N ms (k # ks) acc =
     (case json_object_get_value ms k of None \<Rightarrow> None
      | Some v \<Rightarrow>
          (case json_value_deep_copy N v of None \<Rightarrow> None
           | Some v' \<Rightarrow>
               (case json_object_add acc k v' of None \<Rightarrow> None | Some acc' \<Rightarrow> copy_members N ms ks acc')))"
  by pat_completeness auto
termination
  by (relation "measures [\<lambda>x. case x of Inl (N, v) \<Rightarrow> size v | Inr (Inl (N, vs, acc)) \<Rightarrow> size_list size vs
        | Inr (Inr (N, ms, ks, acc)) \<Rightarrow> size_list (size_prod (\<lambda>x. 0) size) ms,
      \<lambda>x. case x of Inl _ \<Rightarrow> 0 | Inr (Inl (N, vs, acc)) \<Rightarrow> length vs | Inr (Inr (N, ms, ks, acc)) \<Rightarrow> length ks + 1]")
    (auto dest: get_value_size)


declare json_value_deep_copy.simps [simp del]

section \<open>Comparison\<close>

function json_value_equals :: "('n \<Rightarrow> 'n \<Rightarrow> bool) \<Rightarrow> 'n json option \<Rightarrow> 'n json option \<Rightarrow> bool" where
  "json_value_equals near a b =
     (case (a, b) of
        (None, None) \<Rightarrow> True
      | (Some (JArray xs), Some (JArray ys)) \<Rightarrow>
          length xs = length ys \<and> list_all (\<lambda>(x, y). json_value_equals near (Some x) (Some y)) (zip xs ys)
      | (Some (JObject ms), Some (JObject ns)) \<Rightarrow>
          length ms = length ns \<and>
          list_all (\<lambda>(k, _). json_value_equals near (json_object_get_value ms k) (json_object_get_value ns k)) ms
      | (Some (JString s), Some (JString t)) \<Rightarrow> s = t
      | (Some (JBoolean x), Some (JBoolean y)) \<Rightarrow> x = y
      | (Some (JNumber x), Some (JNumber y)) \<Rightarrow> near x y
      | (Some JNull, Some JNull) \<Rightarrow> True
      | _ \<Rightarrow> False)"
  by pat_completeness auto

lemma size_option_less: "size (x :: 'a json) < n \<Longrightarrow> size_option size (Some x) < Suc n"
  by simp

lemma get_value_size_option:
  "size_option size (json_object_get_value ms k) \<le> Suc (size_list (size_prod (\<lambda>x. 0) size) ms)"
  by (cases "json_object_get_value ms k") (auto dest: get_value_size)

termination json_value_equals
proof (relation "measure (\<lambda>(near, a, b). size_option size a)", goal_cases)
  case 1
  then show ?case by simp
next
  case 2
  then show ?case by (auto dest!: set_zip_leftD simp: size_list_estimation' less_Suc_eq_le)
next
  case 3
  then show ?case by (auto simp: le_imp_less_Suc[OF get_value_size_option])
qed

declare json_value_equals.simps [simp del]

section \<open>Schemas\<close>

text \<open>
  A schema that is null admits every value; the first element of an array stands for all; an object
  may have more members than its schema.
\<close>

function json_validate :: "'n json option \<Rightarrow> 'n json option \<Rightarrow> bool" where
  "json_validate schema value =
     (case (schema, value) of
        (Some sch, Some v) \<Rightarrow>
          if json_value_get_type schema \<noteq> json_value_get_type value \<and> json_value_get_type schema \<noteq> JSONNull then False
          else (case (sch, v) of
                  (JArray [], _) \<Rightarrow> True
                | (JArray (s0 # _), JArray vs) \<Rightarrow> list_all (\<lambda>x. json_validate (Some s0) (Some x)) vs
                | (JObject ss, JObject vs) \<Rightarrow>
                    ss = [] \<or>
                    (length ss \<le> length vs \<and>
                     list_all (\<lambda>(k, _). json_object_get_value vs k \<noteq> None \<and>
                        json_validate (json_object_get_value ss k) (json_object_get_value vs k)) ss)
                | _ \<Rightarrow> True)
      | _ \<Rightarrow> False)"
  by pat_completeness auto

termination json_validate
  by (relation "measure (\<lambda>(schema, value). size_option size schema)")
    (auto simp: le_imp_less_Suc[OF get_value_size_option])

declare json_validate.simps [simp del]


section \<open>What a copy is\<close>

definition copyable :: "'n numbers \<Rightarrow> 'n json \<Rightarrow> bool" where
  "copyable N v \<longleftrightarrow> names_ok v \<and> (\<forall>x \<in> set_json v. \<not> number_invalid N x)"

lemma copyable_simps:
  "copyable N (JArray vs) \<longleftrightarrow> list_all (copyable N) vs"
  "copyable N (JObject ms) \<longleftrightarrow> distinct (map fst ms) \<and> list_all (\<lambda>m. copyable N (snd m)) ms"
  "copyable N JNull" "copyable N (JBoolean b)" "copyable N (JString s)"
  "copyable N (JNumber x) \<longleftrightarrow> \<not> number_invalid N x"
  subgoal by (auto simp: copyable_def list_all_iff)
  subgoal by (force simp: copyable_def list_all_iff)
  by (simp_all add: copyable_def)

lemma deep_copy_eqs:
  "json_value_deep_copy N (JArray vs) = copy_items N vs []"
  "json_value_deep_copy N (JObject ms) = copy_members N ms (map fst ms) []"
  "json_value_deep_copy N (JBoolean b) = Some (JBoolean b)" "json_value_deep_copy N JNull = Some JNull"
  "json_value_deep_copy N (JString s) = Some (JString s)"
  "json_value_deep_copy N (JNumber x) = json_value_init_number N x"
  by (subst json_value_deep_copy.simps; simp)+

lemma deep_copies:
  "json_value_deep_copy N v = (if copyable N v then Some v else None)"
  "copy_items N vs acc = (if list_all (copyable N) vs then Some (JArray (acc @ vs)) else None)"
  "\<forall>todo. ms = acc' @ todo \<longrightarrow> ks = map fst todo \<longrightarrow> distinct (map fst acc') \<longrightarrow>
    copy_members N ms ks acc' =
      (if distinct (map fst ms) \<and> list_all (\<lambda>m. copyable N (snd m)) todo then Some (JObject ms) else None)"
proof (induction N v and N vs acc and N ms ks acc'
    rule: json_value_deep_copy_copy_items_copy_members.induct)
  case (1 N v)
  then show ?case
    by (cases v) (auto simp: deep_copy_eqs copyable_simps json_value_init_number_def)
next
  case (3 N v vs acc)
  then show ?case by (auto split: option.splits)
next
  case (5 N ms k ks acc)
  show ?case
  proof (intro allI impI)
    fix todo assume ms: "ms = acc @ todo" and ks: "k # ks = map fst todo" and dist: "distinct (map fst acc)"
    obtain v r where todo: "todo = (k, v) # r" using ks by (cases todo) auto
    obtain w where w: "json_object_get_value ms k = Some w"
      unfolding json_object_get_value_map_of using ms todo by (cases "map_of ms k") (auto simp: map_of_eq_None_iff)
    note copy = 5(1)[OF w]
    show "copy_members N ms (k # ks) acc =
        (if distinct (map fst ms) \<and> list_all (\<lambda>m. copyable N (snd m)) todo then Some (JObject ms) else None)"
    proof (cases "k \<in> fst ` set acc")
      case True
      then have "json_object_add acc k x = None" for x
        using json_object_add_Some[of acc k x] by (cases "json_object_add acc k x") auto
      moreover have "\<not> distinct (map fst ms)" using True ms todo by auto
      ultimately show ?thesis by (auto simp: w split: option.splits)
    next
      case False
      then have "map_of acc k = None" by (simp add: map_of_eq_None_iff)
      then have wv: "w = v" using w ms todo by (simp add: json_object_get_value_map_of map_add_def)
      show ?thesis
      proof (cases "copyable N v")
        case True
        have add: "json_object_add acc k v = Some (acc @ [(k, v)])" using False by (simp add: json_object_add_Some)
        have "copy_members N ms ks (acc @ [(k, v)]) =
            (if distinct (map fst ms) \<and> list_all (\<lambda>m. copyable N (snd m)) r then Some (JObject ms) else None)"
          using 5(2)[OF w _ add] True copy wv ms todo ks dist False by simp
        then show ?thesis using True copy wv w add todo by simp
      next
        case f: False
        then show ?thesis using copy wv w todo by simp
      qed
    qed
  qed
qed simp_all

section \<open>What a comparison is\<close>

lemma equals_eqs:
  "json_value_equals near (Some (JArray xs)) (Some (JArray ys)) \<longleftrightarrow>
     length xs = length ys \<and> list_all (\<lambda>(x, y). json_value_equals near (Some x) (Some y)) (zip xs ys)"
  "json_value_equals near (Some (JObject ms)) (Some (JObject ns)) \<longleftrightarrow>
     length ms = length ns \<and>
     list_all (\<lambda>(k, _). json_value_equals near (json_object_get_value ms k) (json_object_get_value ns k)) ms"
  by (subst json_value_equals.simps; simp)+

lemma equals_None: "json_value_equals near (Some v) None \<longleftrightarrow> False"
  "json_value_equals near None (Some v) \<longleftrightarrow> False" "json_value_equals near None None"
  by (subst json_value_equals.simps; cases v; simp)+

lemma equals_refl:
  "\<forall>x \<in> set_json v. near x x \<Longrightarrow> json_value_equals near (Some v) (Some v)"
proof (induction v)
  case (JArray vs)
  then have "list_all (\<lambda>(x, y). json_value_equals near (Some x) (Some y)) (zip vs vs)"
    by (auto simp: list_all_iff zip_same)
  then show ?case by (simp add: equals_eqs)
next
  case (JObject ms)
  have "json_value_equals near (json_object_get_value ms k) (json_object_get_value ms k)" for k
  proof (cases "json_object_get_value ms k")
    case None
    then show ?thesis by (simp add: equals_None)
  next
    case (Some v)
    then have "(k, v) \<in> set ms" by (simp add: json_object_get_value_map_of map_of_SomeD)
    then show ?thesis using JObject Some by (fastforce simp: prod_set_simps)
  qed
  then show ?case by (simp add: equals_eqs list_all_iff case_prod_beta)
qed (simp_all add: json_value_equals.simps)

text \<open>With distinct names the names of two objects that compare equal are the same.\<close>

lemma equals_names:
  assumes "json_value_equals near (Some (JObject ms)) (Some (JObject ns))"
    and "distinct (map fst ms)" and "distinct (map fst ns)"
  shows "fst ` set ms = fst ` set ns"
proof -
  have all: "length ms = length ns"
    "\<forall>(k, v) \<in> set ms. json_value_equals near (json_object_get_value ms k) (json_object_get_value ns k)"
    using assms(1) by (auto simp: equals_eqs list_all_iff)
  have "fst ` set ms \<subseteq> fst ` set ns"
  proof
    fix k assume "k \<in> fst ` set ms"
    then obtain v where kv: "(k, v) \<in> set ms" by auto
    then have "json_object_get_value ms k = Some v" using assms(2) by (simp add: json_object_get_value_map_of)
    moreover have "json_value_equals near (json_object_get_value ms k) (json_object_get_value ns k)" using all(2) kv by blast
    ultimately have "json_object_get_value ns k \<noteq> None"
      using equals_None(1) by metis
    then have "map_of ns k \<noteq> None" by (simp add: json_object_get_value_map_of)
    then show "k \<in> fst ` set ns" unfolding map_of_eq_None_iff by blast
  qed
  moreover have "card (fst ` set ms) = card (fst ` set ns)"
    using all(1) assms(2,3) distinct_card by (metis length_map list.set_map)
  ultimately show ?thesis by (simp add: card_subset_eq)
qed

text \<open>A comparison against a list of items is a comparison item by item.\<close>

lemma equals_items:
  "json_value_equals near (Some (JArray xs)) (Some (JArray ys)) \<longleftrightarrow>
     list_all2 (\<lambda>x y. json_value_equals near (Some x) (Some y)) xs ys"
  by (simp add: equals_eqs list_all2_iff list_all_iff)

text \<open>For members of distinct names it is a comparison of the two as finite maps.\<close>

lemma equals_members:
  assumes "distinct (map fst ms)" and "distinct (map fst ns)"
  shows "json_value_equals near (Some (JObject ms)) (Some (JObject ns)) \<longleftrightarrow>
    (\<forall>k. json_value_equals near (map_of ms k) (map_of ns k))"
proof
  assume eq: "json_value_equals near (Some (JObject ms)) (Some (JObject ns))"
  show "\<forall>k. json_value_equals near (map_of ms k) (map_of ns k)"
  proof
    fix k
    show "json_value_equals near (map_of ms k) (map_of ns k)"
    proof (cases "k \<in> fst ` set ms")
      case True
      then obtain v where "(k, v) \<in> set ms" by auto
      then show ?thesis using eq by (auto simp: equals_eqs list_all_iff json_object_get_value_map_of)
    next
      case False
      then have "map_of ms k = None" "map_of ns k = None"
        using equals_names[OF eq assms] by (simp_all add: map_of_eq_None_iff)
      then show ?thesis by (simp add: equals_None)
    qed
  qed
next
  assume all: "\<forall>k. json_value_equals near (map_of ms k) (map_of ns k)"
  have none: "map_of ms k = None \<longleftrightarrow> map_of ns k = None" for k
    using all[rule_format, of k] by (cases "map_of ms k"; cases "map_of ns k") (auto simp: equals_None)
  have "fst ` set ms = fst ` set ns"
    using none unfolding map_of_eq_None_iff by blast
  then have "length ms = length ns"
    using assms distinct_card by (metis length_map list.set_map)
  then show "json_value_equals near (Some (JObject ms)) (Some (JObject ns))"
    using all by (auto simp: equals_eqs list_all_iff json_object_get_value_map_of)
qed

text \<open>
  What the comparison means: leaves agree, arrays agree item by item, objects agree as finite maps.
\<close>

inductive same_value :: "('n \<Rightarrow> 'n \<Rightarrow> bool) \<Rightarrow> 'n json \<Rightarrow> 'n json \<Rightarrow> bool" for near where
  same_null: "same_value near JNull JNull"
| same_boolean: "same_value near (JBoolean b) (JBoolean b)"
| same_string: "same_value near (JString s) (JString s)"
| same_number: "near x y \<Longrightarrow> same_value near (JNumber x) (JNumber y)"
| same_array: "list_all2 (same_value near) xs ys \<Longrightarrow> same_value near (JArray xs) (JArray ys)"
| same_object: "(\<And>k. rel_option (same_value near) (map_of ms k) (map_of ns k)) \<Longrightarrow>
    same_value near (JObject ms) (JObject ns)"

inductive_simps same_value_simps [simp]:
  "same_value near JNull w" "same_value near (JBoolean b) w" "same_value near (JString s) w"
  "same_value near (JNumber x) w" "same_value near (JArray xs) w" "same_value near (JObject ms) w"

lemma equals_leaves:
  "json_value_equals near (Some JNull) (Some w) \<longleftrightarrow> w = JNull"
  "json_value_equals near (Some (JBoolean b)) (Some w) \<longleftrightarrow> w = JBoolean b"
  "json_value_equals near (Some (JString s)) (Some w) \<longleftrightarrow> w = JString s"
  "json_value_equals near (Some (JNumber x)) (Some w) \<longleftrightarrow> (\<exists>y. w = JNumber y \<and> near x y)"
  by (subst json_value_equals.simps; cases w; auto)+

lemma equals_shapes:
  "json_value_equals near (Some (JArray xs)) (Some w) \<Longrightarrow> \<exists>ys. w = JArray ys"
  "json_value_equals near (Some (JObject ms)) (Some w) \<Longrightarrow> \<exists>ns. w = JObject ns"
  by (subst (asm) json_value_equals.simps; cases w; simp)+

lemma equals_same:
  "names_ok v \<Longrightarrow> names_ok w \<Longrightarrow> json_value_equals near (Some v) (Some w) \<longleftrightarrow> same_value near v w"
proof (induction v arbitrary: w)
  case (JArray xs)
  have "json_value_equals near (Some (JArray xs)) (Some (JArray ys)) \<longleftrightarrow> list_all2 (same_value near) xs ys"
    if "w = JArray ys" for ys
    unfolding equals_items
  proof (rule list.rel_cong_simp[OF refl refl, unfolded simp_implies_def])
    fix x y assume "x \<in> set xs" "y \<in> set ys"
    then show "json_value_equals near (Some x) (Some y) = same_value near x y"
      using JArray that by (simp add: list_all_iff)
  qed
  then show ?case by (cases w) (auto dest: equals_shapes)
next
  case (JObject ms)
  have "json_value_equals near (Some (JObject ms)) (Some (JObject ns)) \<longleftrightarrow>
      (\<forall>k. rel_option (same_value near) (map_of ms k) (map_of ns k))" if w: "w = JObject ns" for ns
  proof -
    have "json_value_equals near (map_of ms k) (map_of ns k) \<longleftrightarrow>
        rel_option (same_value near) (map_of ms k) (map_of ns k)" for k
    proof (cases "map_of ms k")
      case None
      then show ?thesis by (cases "map_of ns k") (simp_all add: equals_None)
    next
      case (Some x)
      note mx = map_of_SomeD[OF Some]
      show ?thesis
      proof (cases "map_of ns k")
        case None
        then show ?thesis using Some by (simp add: equals_None)
      next
        case sy: (Some y)
        note my = map_of_SomeD[OF sy]
        have "names_ok x" "names_ok y" using JObject.prems w mx my by (auto simp: list_all_iff)
        then show ?thesis using JObject.IH[OF mx] Some sy by (simp add: prod_set_simps)
      qed
    qed
    then show ?thesis
      using equals_members[of ms ns near] JObject.prems w by simp
  qed
  then show ?case by (cases w) (auto dest: equals_shapes)
qed (auto simp: equals_leaves)

text \<open>Sameness inherits the laws of the comparison of numbers.\<close>

lemma same_value_refl: "(\<And>x. near x x) \<Longrightarrow> same_value near v v"
  by (induction v) (auto intro!: list.rel_refl_strong option.rel_refl_strong dest!: map_of_SomeD simp: prod_set_simps)

lemma same_value_sym:
  assumes sym: "\<And>x y. near x y \<Longrightarrow> near y x"
  shows "same_value near v w \<Longrightarrow> same_value near w v"
proof (induction rule: same_value.induct)
  case (same_array xs ys)
  then show ?case by (auto simp: list_all2_conv_all_nth)
next
  case (same_object ms ns)
  have "rel_option (same_value near) (map_of ns k) (map_of ms k)" for k
    using same_object[of k] by (cases "map_of ms k"; cases "map_of ns k") auto
  then show ?case by simp
qed (use sym in auto)

section \<open>What a schema admits\<close>

text \<open>
  A null in a schema admits everything; a scalar admits the scalars of its type; an array admits an array
  whose items conform to its first item; an object admits an object that has a conforming member for each of its members.
\<close>

inductive conforms :: "'n json \<Rightarrow> 'n json \<Rightarrow> bool" where
  conforms_null: "conforms JNull v"
| conforms_boolean: "conforms (JBoolean a) (JBoolean b)"
| conforms_number: "conforms (JNumber x) (JNumber y)"
| conforms_string: "conforms (JString s) (JString t)"
| conforms_any_array: "conforms (JArray []) (JArray vs)"
| conforms_array: "list_all (conforms s) vs \<Longrightarrow> conforms (JArray (s # ss)) (JArray vs)"
| conforms_object: "(\<And>k s. map_of ss k = Some s \<Longrightarrow> \<exists>v. map_of vs k = Some v \<and> conforms s v) \<Longrightarrow>
    conforms (JObject ss) (JObject vs)"

inductive_simps conforms_simps [simp]:
  "conforms JNull v" "conforms (JBoolean b) v" "conforms (JString s) v"
  "conforms (JNumber x) v" "conforms (JArray ss) v" "conforms (JObject ss) v"

lemma validate_leaves:
  "json_validate (Some JNull) (Some v) \<longleftrightarrow> True"
  "json_validate (Some (JBoolean b)) (Some v) \<longleftrightarrow> (\<exists>c. v = JBoolean c)"
  "json_validate (Some (JString s)) (Some v) \<longleftrightarrow> (\<exists>t. v = JString t)"
  "json_validate (Some (JNumber x)) (Some v) \<longleftrightarrow> (\<exists>y. v = JNumber y)"
  "json_validate (Some (JArray [])) (Some v) \<longleftrightarrow> (\<exists>vs. v = JArray vs)"
  by (subst json_validate.simps; cases v; auto simp: json_value_get_type_def)+

lemma validate_containers:
  "json_validate (Some (JArray (s # ss))) (Some v) \<longleftrightarrow>
     (\<exists>vs. v = JArray vs \<and> list_all (\<lambda>x. json_validate (Some s) (Some x)) vs)"
  "json_validate (Some (JObject ms)) (Some v) \<longleftrightarrow>
     (\<exists>vs. v = JObject vs \<and> (ms = [] \<or> length ms \<le> length vs \<and>
        list_all (\<lambda>(k, _). json_object_get_value vs k \<noteq> None \<and>
          json_validate (json_object_get_value ms k) (json_object_get_value vs k)) ms))"
  by (subst json_validate.simps; cases v; simp add: json_value_get_type_def)+

lemma validate_conforms:
  "names_ok s \<Longrightarrow> json_validate (Some s) (Some v) \<longleftrightarrow> conforms s v"
proof (induction s arbitrary: v)
  case (JArray ss)
  show ?case
  proof (cases ss)
    case Nil
    then show ?thesis by (auto simp: validate_leaves)
  next
    case (Cons s0 r)
    then have "json_validate (Some s0) (Some x) \<longleftrightarrow> conforms s0 x" for x
      using JArray.IH[of s0 x] JArray.prems by simp
    then show ?thesis using Cons by (auto simp: validate_containers)
  qed
next
  case (JObject ms)
  have "(ms = [] \<or> length ms \<le> length vs \<and>
        list_all (\<lambda>(k, _). json_object_get_value vs k \<noteq> None \<and>
          json_validate (json_object_get_value ms k) (json_object_get_value vs k)) ms) \<longleftrightarrow>
      (\<forall>k s. map_of ms k = Some s \<longrightarrow> (\<exists>v. map_of vs k = Some v \<and> conforms s v))" (is "?code \<longleftrightarrow> ?spec") for vs
  proof -
    have dist: "distinct (map fst ms)" using JObject.prems by simp
    have member: "json_object_get_value vs k \<noteq> None \<and>
          json_validate (json_object_get_value ms k) (json_object_get_value vs k) \<longleftrightarrow>
        (\<exists>v. map_of vs k = Some v \<and> conforms s v)" if ks: "map_of ms k = Some s" for k s
    proof -
      note mem = map_of_SomeD[OF ks]
      have "json_validate (Some s) (Some v) \<longleftrightarrow> conforms s v" for v
        using JObject.IH[OF mem, of s v] JObject.prems mem by (auto simp: prod_set_simps list_all_iff)
      then show ?thesis using ks by (auto simp: json_object_get_value_map_of)
    qed
    have each: "list_all (\<lambda>(k, _). json_object_get_value vs k \<noteq> None \<and>
          json_validate (json_object_get_value ms k) (json_object_get_value vs k)) ms \<longleftrightarrow> ?spec"
      using member dist by (fastforce simp: list_all_iff dest: map_of_SomeD)
    have "length ms \<le> length vs" if ?spec
    proof -
      have "dom (map_of ms) \<subseteq> dom (map_of vs)" using that by fast
      then have "fst ` set ms \<subseteq> fst ` set vs" by (simp add: dom_map_of_conv_image_fst)
      then have "card (fst ` set ms) \<le> card (fst ` set vs)" by (intro card_mono) auto
      also have "\<dots> \<le> length vs" by (metis card_length length_map list.set_map)
      finally show ?thesis using dist distinct_card by (metis length_map list.set_map)
    qed
    then show ?thesis using each by auto
  qed
  then show ?case by (auto simp: validate_containers)
qed (auto simp: validate_leaves)

section \<open>Properties\<close>

text \<open>C31: \<open>json_value_equals\<close> compares two values, in whose objects no name occurs twice, by
  what they mean: leaves agree (numbers by the comparison \<open>near\<close>), arrays agree item by item, and
  objects agree as finite maps, although the code counts the members and looks up only the names of
  the first object; the order of the members does not matter.\<close>

theorem equals_means_same:
  assumes "names_ok v" and "names_ok w"
  shows "json_value_equals near (Some v) (Some w) \<longleftrightarrow> same_value near v w"
  by (rule equals_same[OF assms])

definition demo_left :: "int json" where
  "demo_left = JObject [(''a'', JNumber 1), (''b'', JArray [JNull, JString ''x''])]"

definition demo_right :: "int json" where
  "demo_right = JObject [(''b'', JArray [JNull, JString ''x'']), (''a'', JNumber 1)]"

theorem equals_means_same_witness:
  "names_ok demo_left \<and> names_ok demo_right \<and>
   json_value_equals (=) (Some demo_left) (Some demo_right) \<and> demo_left \<noteq> demo_right"
proof -
  have ok: "names_ok demo_left" "names_ok demo_right" by (simp_all add: demo_left_def demo_right_def)
  have "same_value (=) demo_left demo_right"
    by (simp add: demo_left_def demo_right_def)
  then show ?thesis using equals_means_same[OF ok] ok by (simp add: demo_left_def demo_right_def)
qed

text \<open>\<open>json_value_deep_copy\<close> gives the value itself, whatever its depth, or nothing when
  an object in it has the same name twice or a number in it is not one JSON can hold.\<close>

theorem deep_copy_exact:
  "json_value_deep_copy N v = (if copyable N v then Some v else None)"
  by (rule deep_copies(1))

text \<open>
  \<open>json_validate\<close> accepts exactly the values that conform to the schema, when no object of the schema has two
  members of one name; that the code first compares the numbers of members then rejects nothing more.
\<close>

theorem validate_admits:
  assumes "names_ok schema"
  shows "json_validate (Some schema) (Some v) \<longleftrightarrow> conforms schema v"
  by (rule validate_conforms[OF assms])

theorem validate_admits_witness:
  "json_validate (Some (JObject [(''id'', JNumber 0), (''any'', JNull)])) (Some (JObject [(''any'', JArray []), (''more'', JNull), (''id'', JNumber (7 :: int))])) \<and>
   \<not> json_validate (Some (JObject [(''id'', JNumber 0), (''any'', JNull)])) (Some (JObject [(''id'', JNumber (7 :: int))]))"
  using validate_admits[of "JObject [(''id'', JNumber (0 :: int)), (''any'', JNull)]"] by (auto split: if_splits)

end
