(* ===== verification/Json_Comments.thy ===== *)
theory Json_Comments
  imports Json_Text
begin

text \<open>
  \<open>src/PCom3/parson.c\<close>: \<open>remove_comments\<close> and \<open>json_parse_string_with_comments\<close>. The copy of the
  text is overwritten in place: a character of a comment becomes a blank, so that the length stays.
\<close>

section \<open>Blanking\<close>

abbreviation (input) "SLASH \<equiv> CHR 0x2F"
abbreviation (input) "STAR \<equiv> CHR 0x2A"
abbreviation (input) "NEWLINE \<equiv> CHR 0x0A"

definition blanks :: "nat \<Rightarrow> string" where
  "blanks n = replicate n CHR '' ''"

text \<open>
  The loop on the rest of the text, with \<open>in_string\<close> and \<open>escaped\<close>; a comment without an end stops it
  behind the start token.
\<close>

function comments_loop :: "string \<Rightarrow> string \<Rightarrow> bool \<Rightarrow> bool \<Rightarrow> string \<Rightarrow> string" where
  "comments_loop start_token end_token in_string escaped [] = []"
| "comments_loop start_token end_token in_string escaped (c # cs) =
     (if c = BACKSLASH \<and> \<not> escaped then c # comments_loop start_token end_token in_string True cs
      else if c = QUOTE \<and> \<not> escaped then c # comments_loop start_token end_token (\<not> in_string) False cs
      else if \<not> in_string \<and> prefix start_token (c # cs)
      then blanks (length start_token) @
        (let r = drop (length start_token) (c # cs)
         in case strstr r end_token of None \<Rightarrow> r
            | Some p \<Rightarrow>
                blanks (length r - length p + length end_token) @
                comments_loop start_token end_token in_string False (tl (drop (length end_token - 1) p)))
      else c # comments_loop start_token end_token in_string False cs)"
  by pat_completeness auto

lemma strstr_length: "strstr r e = Some p \<Longrightarrow> length p \<le> length r"
  by (auto dest!: strstr_Some)

termination comments_loop
proof (relation "measure (\<lambda>(_, _, _, _, s). length s)", goal_cases)
  case (4 st en i esc c cs r p)
  then have "length p \<le> length (c # cs)" using strstr_length[of r en p] by simp
  then show ?case by (cases p) auto
qed auto

definition remove_comments :: "string \<Rightarrow> string \<Rightarrow> string \<Rightarrow> string" where
  "remove_comments s start_token end_token =
     (if length start_token = 0 \<or> length end_token = 0 then s
      else comments_loop start_token end_token False False s)"

text \<open>Behind the two passes the value at the start of the text is read; a byte order mark is not skipped here.\<close>

definition json_parse_string_with_comments :: "'n numbers \<Rightarrow> string \<Rightarrow> 'n json option" where
  "json_parse_string_with_comments N s =
     (let s1 = remove_comments s [SLASH, STAR] [STAR, SLASH];
          s2 = remove_comments s1 [SLASH, SLASH] [NEWLINE]
      in map_option fst (parse_value N s2 0))"

declare comments_loop.simps(2) [simp del]

lemma comment_start:
  assumes "\<not> ((c = BACKSLASH \<or> c = QUOTE) \<and> \<not> esc)" and "prefix st (c # cs)"
  shows "comments_loop st en False esc (c # cs) = blanks (length st) @
    (case strstr (drop (length st) (c # cs)) en of None \<Rightarrow> drop (length st) (c # cs)
     | Some p \<Rightarrow> blanks (length (drop (length st) (c # cs)) - length p + length en) @
         comments_loop st en False False (tl (drop (length en - 1) p)))"
  using assms by (subst comments_loop.simps(2)) (auto simp: Let_def)

text \<open>The text keeps its length.\<close>

lemma comments_loop_length: "end_token \<noteq> [] \<Longrightarrow> length (comments_loop start_token end_token i esc s) = length s"
proof (induction start_token end_token i esc s rule: comments_loop.induct)
  case (2 st en i esc c cs)
  show ?case
  proof (cases "(c = BACKSLASH \<or> c = QUOTE) \<and> \<not> esc \<or> i \<or> \<not> prefix st (c # cs)")
    case True
    then show ?thesis using 2 by (auto simp: comments_loop.simps(2)[of st en i esc c cs])
  next
    case False
    let ?r = "drop (length st) (c # cs)"
    have st: "length st \<le> length (c # cs)" using False prefix_length_le by blast
    show ?thesis
    proof (cases "strstr ?r en")
      case None
      then show ?thesis using False st comment_start[of c esc st cs en] by (auto simp: blanks_def)
    next
      case (Some p)
      have "length p \<le> length ?r" "length en \<le> length p"
        using strstr_length[OF Some] strstr_Some[OF Some] by (auto dest: prefix_length_le)
      moreover have "length (comments_loop st en i False (tl (drop (length en - 1) p))) = length p - length en"
      proof -
        have "0 < length en" using 2(5) by simp
        then show ?thesis using 2(3)[OF _ _ _ refl Some] False 2(5) \<open>length en \<le> length p\<close> by auto
      qed
      ultimately show ?thesis
        using False st Some comment_start[of c esc st cs en] by (auto simp: blanks_def)
    qed
  qed
qed simp

lemma remove_comments_length: "length (remove_comments s start_token end_token) = length s"
  by (simp add: remove_comments_def comments_loop_length)

section \<open>Commented texts\<close>

text \<open>
  A text as a sequence of pieces: a character outside strings and comments, a string as it is written
  between its quotes, a comment between the block tokens, a comment up to the end of the line.
\<close>

datatype piece = Plain char | Quoted string | is_Block: Block string | Line string

fun written :: "piece \<Rightarrow> string" where
  "written (Plain c) = [c]"
| "written (Quoted raw) = QUOTE # raw @ [QUOTE]"
| "written (Block b) = [SLASH, STAR] @ b @ [STAR, SLASH]"
| "written (Line b) = [SLASH, SLASH] @ b @ [NEWLINE]"

fun blanked :: "piece \<Rightarrow> string" where
  "blanked (Block b) = blanks (length b + 4)"
| "blanked (Line b) = blanks (length b + 3)"
| "blanked p = written p"

definition commented_text :: "piece list \<Rightarrow> string" where "commented_text ps = concat (map written ps)"
definition blanked_text :: "piece list \<Rightarrow> string" where "blanked_text ps = concat (map blanked ps)"

text \<open>
  What the pieces may be: the end of a comment is its first one, and, because the two kinds of comments
  are removed one after the other, a comment up to the end of the line may neither contain a quote nor
  what the first pass takes for the start of a block.
\<close>

fun piece_ok :: "piece \<Rightarrow> bool" where
  "piece_ok (Plain c) \<longleftrightarrow> c \<notin> {QUOTE, BACKSLASH, SLASH}"
| "piece_ok (Quoted raw) \<longleftrightarrow> skip_loop (raw @ [QUOTE]) = Some (raw, [])"
| "piece_ok (Block b) \<longleftrightarrow> \<not> sublist [STAR, SLASH] (b @ [STAR])"
| "piece_ok (Line b) \<longleftrightarrow> NEWLINE \<notin> set b \<and> QUOTE \<notin> set b \<and> \<not> sublist [SLASH, STAR] (SLASH # b)"

text \<open>Steps of the loop that keep the character.\<close>

lemma loop_keep:
  "c \<noteq> QUOTE \<Longrightarrow> i \<or> \<not> prefix st (c # r) \<Longrightarrow>
     comments_loop st en i esc (c # r) = c # comments_loop st en i (c = BACKSLASH \<and> \<not> esc) r"
  "comments_loop st en True True (c # r) = c # comments_loop st en True False r"
  "comments_loop st en i False (QUOTE # r) = QUOTE # comments_loop st en (\<not> i) False r"
  by (subst comments_loop.simps(2); auto)+

lemma loop_quoted:
  "skip_loop s = Some (raw, r) \<Longrightarrow>
   comments_loop st en True False s = raw @ QUOTE # comments_loop st en False False r"
proof (induction s arbitrary: raw rule: skip_loop.induct)
  case (2 c cs)
  show ?case
  proof (cases "c = BACKSLASH")
    case True
    then obtain e cs1 raw1 where "cs = e # cs1" "skip_loop cs1 = Some (raw1, r)" "raw = c # e # raw1"
      using 2(3) by (cases cs) auto
    then show ?thesis using True 2(1)[of e cs1 raw1] by (simp add: loop_keep(1,2))
  next
    case False
    then show ?thesis using 2(2)[of "tl raw"] 2(3) by (auto simp: loop_keep(1,3) split: if_splits)
  qed
qed simp

lemma skip_loop_append: "skip_loop s = Some (raw, r) \<Longrightarrow> skip_loop (s @ t) = Some (raw, r @ t)"
proof (induction s arbitrary: raw rule: skip_loop.induct)
  case (2 c cs)
  then show ?case by (cases cs) (auto split: if_splits)
qed simp

lemma loop_string:
  assumes "skip_loop (raw @ [QUOTE]) = Some (raw, [])"
  shows "comments_loop st en False False (QUOTE # raw @ QUOTE # r) =
    QUOTE # raw @ QUOTE # comments_loop st en False False r"
  using loop_quoted[OF skip_loop_append[OF assms(1), of r], of st en]
  by (simp add: loop_keep(3))

text \<open>A token is found behind a text that holds none of it.\<close>

lemma strstr_behind:
  "\<not> sublist needle (b @ butlast needle) \<Longrightarrow> strstr (b @ needle @ r) needle = Some (needle @ r)"
proof (induction b)
  case Nil
  then show ?case by (subst strstr.simps) simp
next
  case (Cons x b)
  have "\<not> prefix needle (x # b @ needle @ r)"
  proof
    assume p: "prefix needle (x # b @ needle @ r)"
    have n: "needle \<noteq> []" using Cons.prems by auto
    then have "length needle \<le> length (x # b @ butlast needle)" by simp
    moreover have "x # b @ needle @ r = (x # b @ butlast needle) @ last needle # r" using n by simp
    ultimately have "prefix needle (x # b @ butlast needle)"
      using p by (metis prefix_length_prefix prefixI)
    then show False using Cons.prems by (simp add: prefix_imp_sublist)
  qed
  moreover have "\<not> sublist needle (b @ butlast needle)"
    using Cons.prems by (auto simp: sublist_Cons_right)
  ultimately show ?case using Cons.IH by (subst strstr.simps) simp
qed

lemma loop_comment:
  assumes "st = a # st'" and "a \<notin> {QUOTE, BACKSLASH}" and "en \<noteq> []" and "\<not> sublist en (b @ butlast en)"
  shows "comments_loop st en False False (st @ b @ en @ r) =
    blanks (length st + length b + length en) @ comments_loop st en False False r"
proof -
  have t: "tl (drop (length en - 1) (en @ r)) = r" using assms(3) by (cases en rule: rev_cases) auto
  have "comments_loop st en False False (a # st' @ b @ en @ r) =
      blanks (length st) @ blanks (length b + length en) @ comments_loop st en False False r"
    using assms(1,2) strstr_behind[OF assms(4), of r] t
    by (subst comment_start) (simp_all add: prefix_def)
  then show ?thesis using assms(1) by (simp add: blanks_def replicate_add[symmetric] add.assoc)
qed

text \<open>The first pass reads over a comment up to the end of the line.\<close>

lemma loop_line:
  "QUOTE \<notin> set b \<Longrightarrow> \<not> sublist [SLASH, STAR] b \<Longrightarrow>
   comments_loop [SLASH, STAR] en False esc (b @ NEWLINE # r) = b @ NEWLINE # comments_loop [SLASH, STAR] en False False r"
proof (induction b arbitrary: esc)
  case Nil
  then show ?case by (simp add: loop_keep(1))
next
  case (Cons c b)
  have b: "QUOTE \<notin> set b" "\<not> sublist [SLASH, STAR] b" using Cons.prems by (auto simp: sublist_Cons_right)
  have np: "\<not> prefix [SLASH, STAR] (c # b @ NEWLINE # r)"
    using Cons.prems(2) by (cases b) (auto simp: sublist_Cons_right)
  moreover have "c \<noteq> QUOTE" using Cons.prems(1) by auto
  ultimately show ?case using Cons.IH[OF b] loop_keep(1)[OF _ disjI2[OF np]] by simp
qed

section \<open>The two passes\<close>

text \<open>What the first pass leaves: a comment between the block tokens has become blanks.\<close>

fun unblocked :: "piece \<Rightarrow> piece list" where
  "unblocked (Block b) = map Plain (blanks (length b + 4))"
| "unblocked p = [p]"

lemma text_plain: "commented_text (map Plain s) = s" "blanked_text (map Plain s) = s"
  by (induction s) (simp_all add: commented_text_def blanked_text_def)

lemma text_Cons [simp]:
  "commented_text (p # ps) = written p @ commented_text ps" "commented_text [] = []" "commented_text (ps @ qs) = commented_text ps @ commented_text qs"
  "blanked_text (p # ps) = blanked p @ blanked_text ps" "blanked_text [] = []"
  "blanked_text (ps @ qs) = blanked_text ps @ blanked_text qs"
  by (simp_all add: commented_text_def blanked_text_def)

lemma first_pass_piece:
  assumes "piece_ok p"
  shows "comments_loop [SLASH, STAR] [STAR, SLASH] False False (written p @ r) =
    commented_text (unblocked p) @ comments_loop [SLASH, STAR] [STAR, SLASH] False False r"
proof (cases p)
  case (Plain c)
  then show ?thesis using assms by (auto simp: loop_keep(1))
next
  case (Quoted raw)
  then show ?thesis using assms loop_string[of raw _ _ r] by simp
next
  case (Block b)
  then show ?thesis
    using assms loop_comment[of "[SLASH, STAR]" SLASH "[STAR]" "[STAR, SLASH]" b r]
    by (simp add: text_plain add.commute numeral_eq_Suc)
next
  case (Line b)
  then have b: "QUOTE \<notin> set b" "\<not> sublist [SLASH, STAR] (SLASH # b)" using assms by simp_all
  then show ?thesis
    using loop_line[of "SLASH # b" "[STAR, SLASH]" False r] Line by (simp add: loop_keep(1))
qed

lemma first_pass:
  "list_all piece_ok ps \<Longrightarrow>
   comments_loop [SLASH, STAR] [STAR, SLASH] False False (commented_text ps @ r) =
     commented_text (concat (map unblocked ps)) @ comments_loop [SLASH, STAR] [STAR, SLASH] False False r"
  by (induction ps) (simp_all add: first_pass_piece)

lemma second_pass_piece:
  assumes "piece_ok p" and "\<not> is_Block p"
  shows "comments_loop [SLASH, SLASH] [NEWLINE] False False (written p @ r) =
    blanked p @ comments_loop [SLASH, SLASH] [NEWLINE] False False r"
proof (cases p)
  case (Plain c)
  then show ?thesis using assms by (auto simp: loop_keep(1))
next
  case (Quoted raw)
  then show ?thesis using assms loop_string[of raw _ _ r] by simp
next
  case (Line b)
  then have "\<not> sublist [NEWLINE] b" using assms by (auto simp: sublist_def)
  then show ?thesis
    using loop_comment[of "[SLASH, SLASH]" SLASH "[SLASH]" "[NEWLINE]" b r] Line by (simp add: add.commute numeral_eq_Suc)
qed (use assms in simp)

lemma second_pass:
  "list_all piece_ok ps \<Longrightarrow> list_all (\<lambda>q. \<not> is_Block q) ps \<Longrightarrow>
   comments_loop [SLASH, SLASH] [NEWLINE] False False (commented_text ps @ r) =
     blanked_text ps @ comments_loop [SLASH, SLASH] [NEWLINE] False False r"
  by (induction ps) (simp_all add: second_pass_piece)

lemma blank_plain: "c \<in> set (blanks n) \<Longrightarrow> c = CHR '' ''"
  by (simp add: blanks_def split: if_splits)

lemma unblocked_ok:
  "piece_ok p \<Longrightarrow> list_all piece_ok (unblocked p)"
  "list_all (\<lambda>q. \<not> is_Block q) (unblocked p)"
  "blanked_text (unblocked p) = blanked p"
proof -
  show "piece_ok p \<Longrightarrow> list_all piece_ok (unblocked p)"
    by (cases p) (auto simp: list_all_iff dest!: blank_plain)
  show "list_all (\<lambda>q. \<not> is_Block q) (unblocked p)" by (cases p) (simp_all add: list_all_iff)
  show "blanked_text (unblocked p) = blanked p" by (cases p) (simp_all add: text_plain)
qed

lemma unblocked_all:
  "list_all piece_ok ps \<Longrightarrow> list_all piece_ok (concat (map unblocked ps))"
  "list_all (\<lambda>q. \<not> is_Block q) (concat (map unblocked ps))"
  "blanked_text (concat (map unblocked ps)) = blanked_text ps"
  by (induction ps) (simp_all add: unblocked_ok)

lemma two_passes:
  assumes "list_all piece_ok ps"
  shows "comments_loop [SLASH, STAR] [STAR, SLASH] False False (commented_text ps @ r) =
      commented_text (concat (map unblocked ps)) @ comments_loop [SLASH, STAR] [STAR, SLASH] False False r"
    and "comments_loop [SLASH, SLASH] [NEWLINE] False False (commented_text (concat (map unblocked ps)) @ r) =
      blanked_text ps @ comments_loop [SLASH, SLASH] [NEWLINE] False False r"
  using first_pass[OF assms] second_pass[OF unblocked_all(1)[OF assms] unblocked_all(2)] unblocked_all(3)[of ps]
  by simp_all

lemma comments_blanked:
  "list_all piece_ok ps \<Longrightarrow>
   json_parse_string_with_comments N (commented_text ps) = map_option fst (parse_value N (blanked_text ps) 0)"
  using two_passes[of ps "[]"] by (simp add: json_parse_string_with_comments_def remove_comments_def Let_def)

section \<open>Printed texts have no comments\<close>

text \<open>
  The text of a value is made of characters and strings: a slash in a string is escaped, and the text of
  a number is none of \<open>QUOTE\<close>, \<open>BACKSLASH\<close> and \<open>SLASH\<close>.
\<close>

definition plain_number :: "'n numbers \<Rightarrow> 'n \<Rightarrow> bool" where
  "plain_number N x \<longleftrightarrow> set (number_text N x) \<inter> {QUOTE, BACKSLASH, SLASH} = {}"

fun pieces_of :: "'n numbers \<Rightarrow> bool \<Rightarrow> nat \<Rightarrow> 'n json \<Rightarrow> piece list"
  and item_pieces :: "'n numbers \<Rightarrow> bool \<Rightarrow> nat \<Rightarrow> 'n json list \<Rightarrow> piece list"
  and member_pieces :: "'n numbers \<Rightarrow> bool \<Rightarrow> nat \<Rightarrow> (string \<times> 'n json) list \<Rightarrow> piece list"
where
  "pieces_of N p level (JArray vs) =
     map Plain (''['' @ (if vs = [] then [] else newline p)) @ item_pieces N p level vs @
     map Plain ((if vs = [] then [] else indent p level) @ '']'')"
| "pieces_of N p level (JObject ms) =
     map Plain (''{'' @ (if ms = [] then [] else newline p)) @ member_pieces N p level ms @
     map Plain ((if ms = [] then [] else indent p level) @ ''}'')"
| "pieces_of N p level (JString s) = [Quoted (concat (map (json_escape (escape_slashes N)) s))]"
| "pieces_of N p level (JBoolean b) = map Plain (if b then ''true'' else ''false'')"
| "pieces_of N p level (JNumber x) = map Plain (number_text N x)"
| "pieces_of N p level JNull = map Plain ''null''"
| "item_pieces N p level [] = []"
| "item_pieces N p level (v # vs) =
     map Plain (indent p (level + 1)) @ pieces_of N p (level + 1) v @ map Plain (comma vs @ newline p) @
     item_pieces N p level vs"
| "member_pieces N p level [] = []"
| "member_pieces N p level ((key, v) # ms) =
     map Plain (indent p (level + 1)) @ [Quoted (concat (map (json_escape (escape_slashes N)) key))] @
     map Plain ('':'' @ (if p then '' '' else [])) @ pieces_of N p (level + 1) v @
     map Plain (comma ms @ newline p) @ member_pieces N p level ms"

lemma pieces_text:
  "commented_text (pieces_of N p level v) = json_serialize_to_buffer_r N p level v \<and> blanked_text (pieces_of N p level v) = json_serialize_to_buffer_r N p level v"
  "commented_text (item_pieces N p level vs) = array_items N p level vs \<and> blanked_text (item_pieces N p level vs) = array_items N p level vs"
  "commented_text (member_pieces N p level ms) = object_items N p level ms \<and> blanked_text (member_pieces N p level ms) = object_items N p level ms"
  by (induction N p level v and N p level vs and N p level ms rule: pieces_of_item_pieces_member_pieces.induct)
    (simp_all add: text_plain json_serialize_string_def del: map_append list.map)

text \<open>White space is plain.\<close>

definition plain_char :: "char \<Rightarrow> bool" where "plain_char c \<longleftrightarrow> c \<notin> {QUOTE, BACKSLASH, SLASH}"

lemma plain_ok: "list_all piece_ok (map Plain s) \<longleftrightarrow> list_all plain_char s"
  by (induction s) (auto simp: plain_char_def)

lemma plain_space: "isspace c \<Longrightarrow> plain_char c"
  by (auto simp: plain_char_def isspace_def)

lemma plain_layout: "list_all plain_char (newline p)" "list_all plain_char (indent p level)" "list_all plain_char (comma xs)"
proof -
  have "list_all isspace s \<Longrightarrow> list_all plain_char s" for s by (simp add: list_all_iff plain_space)
  then show "list_all plain_char (newline p)" "list_all plain_char (indent p level)" by (simp_all add: layout_space)
  show "list_all plain_char (comma xs)" by (simp add: comma_def plain_char_def)
qed

lemma escapes_ok: "piece_ok (Quoted (concat (map (json_escape esc) s)))"
  using escapes_read(1)[of esc s "[]"] by simp

lemma pieces_ok:
  "\<forall>x \<in> set_json v. plain_number N x \<Longrightarrow> list_all piece_ok (pieces_of N p level v)"
  "\<forall>v \<in> set vs. \<forall>x \<in> set_json v. plain_number N x \<Longrightarrow> list_all piece_ok (item_pieces N p level vs)"
  "\<forall>m \<in> set ms. \<forall>x \<in> set_json (snd m). plain_number N x \<Longrightarrow> list_all piece_ok (member_pieces N p level ms)"
proof (induction N p level v and N p level vs and N p level ms rule: pieces_of_item_pieces_member_pieces.induct)
  case (2 N p level ms)
  then have "list_all piece_ok (member_pieces N p level ms)" by fastforce
  then show ?case by (simp add: plain_ok plain_layout del: map_append list.map) (simp add: plain_char_def)
next
  case (5 N p level x)
  then show ?case by (auto simp: plain_ok plain_number_def plain_char_def list_all_iff)
qed (auto simp: plain_ok plain_layout escapes_ok simp del: map_append list.map piece_ok.simps(2), auto simp: plain_char_def)

section \<open>Properties\<close>

text \<open>
  C30: comments are read as blanks. For a text made of characters, strings and comments,
  \<open>json_parse_string_with_comments\<close> gives what parsing gives for the text of the same length in which
  every comment is blank and everything else, what looks like a comment in a string included, is kept;
  this needs that a comment up to the end of the line has no quote in it and no \<open>/*\<close>.
\<close>

theorem comments_are_blanks:
  assumes "list_all piece_ok ps"
  shows "json_parse_string_with_comments N (commented_text ps) = map_option fst (parse_value N (blanked_text ps) 0) \<and>
    length (blanked_text ps) = length (commented_text ps)"
proof
  show "json_parse_string_with_comments N (commented_text ps) = map_option fst (parse_value N (blanked_text ps) 0)"
    by (rule comments_blanked[OF assms])
  have "length (blanked q) = length (written q)" for q by (cases q) (simp_all add: blanks_def)
  then show "length (blanked_text ps) = length (commented_text ps)" by (induction ps) simp_all
qed

definition demo_pieces :: "piece list" where
  "demo_pieces = [Line '' the tags'', Plain CHR ''['', Quoted ''/* no'', Plain CHR '','', Block '' it's // '',
     Plain CHR ''n'', Plain CHR ''u'', Plain CHR ''l'', Plain CHR ''l'', Plain CHR '']'']"

text \<open>The text with comments around it.\<close>

fun layout_piece :: "piece \<Rightarrow> bool" where
  "layout_piece (Plain c) \<longleftrightarrow> isspace c"
| "layout_piece (Quoted raw) \<longleftrightarrow> False"
| "layout_piece _ \<longleftrightarrow> True"

lemma blanked_layout: "list_all layout_piece ps \<Longrightarrow> list_all isspace (blanked_text ps)"
proof -
  have b: "list_all isspace (blanks n)" for n by (induction n) (simp_all add: blanks_def isspace_def)
  have "layout_piece q \<Longrightarrow> list_all isspace (blanked q)" for q by (cases q) (simp_all add: b)
  then show "list_all layout_piece ps \<Longrightarrow> ?thesis" by (induction ps) simp_all
qed

lemma commented_read:
  assumes "json_wf MAX_NESTING v" and "\<forall>x \<in> set_json v. reads_back N x \<and> plain_number N x"
    and "list_all piece_ok (before @ after)" and "list_all layout_piece (before @ after)"
  shows "json_parse_string_with_comments N
     (commented_text before @ json_serialize_to_buffer_r N p 0 v @ commented_text after) = Some v"
proof -
  let ?t = "json_serialize_to_buffer_r N p 0 v"
  have ok: "list_all piece_ok (before @ pieces_of N p 0 v @ after)"
    using assms(2,3) pieces_ok(1)[of v N p 0] by simp
  have ends: "ends_number (blanked_text after)"
    using blanked_layout[of after] assms(4) by (cases "blanked_text after") (auto simp: ends_number_def)
  have sp: "list_all isspace (blanked_text before)" using blanked_layout assms(4) by simp
  have skip: "parse_value N (blanked_text before @ u) 0 = parse_value N u 0" for u
    by (subst (1 2) parse_value.simps) (simp add: skip_space_append[OF sp])
  have "parse_value N (?t @ blanked_text after) 0 = Some (v, blanked_text after)"
    by (rule parse_serialized(1)) (use assms(1,2) ends in auto)
  then show ?thesis using comments_blanked[OF ok, of N] by (simp add: pieces_text skip)
qed

text \<open>
  A printed value is read back from a commented file. White space and comments before
  and behind the text that the library prints, pretty or not, do not change the value that
  \<open>json_parse_string_with_comments\<close> gives, and nothing in the text, whatever its strings contain, is
  taken for a comment.
\<close>

theorem commented_text_is_read:
  assumes "json_wf MAX_NESTING v" and "\<forall>x \<in> set_json v. reads_back N x \<and> plain_number N x"
    and "list_all piece_ok (before @ after)" and "list_all layout_piece (before @ after)"
  shows "json_parse_string_with_comments N
     (commented_text before @ json_serialize_to_buffer_r N p 0 v @ commented_text after) = Some v"
  by (rule commented_read[OF assms])

lemma int_numbers_plain: "plain_number int_numbers x"
proof -
  have "\<forall>c \<in> set (int_text x). isdigit c \<or> c = CHR ''-''"
    by (auto simp: int_text_def dest: nat_text_isdigit)
  moreover have "\<not> isdigit QUOTE" "\<not> isdigit BACKSLASH" "\<not> isdigit SLASH"
    by (simp_all add: isdigit_range less_eq_char_def)
  ultimately show ?thesis by (auto simp: plain_number_def int_numbers_def)
qed

theorem commented_text_is_read_witness:
  "json_parse_string_with_comments int_numbers
     (commented_text [Line '' config'', Block '' v1 '', Plain NEWLINE] @
      json_serialize_to_buffer_r int_numbers True 0 (JArray [JNumber 7, JString ''a/*b*/'']) @
      commented_text [Line '' end'']) = Some (JArray [JNumber 7, JString ''a/*b*/''])"
  by (rule commented_text_is_read)
    (auto simp: MAX_NESTING_def int_numbers_read_back int_numbers_plain isspace_def sublist_Cons_right)

theorem comments_are_blanks_witness:
  "json_parse_string_with_comments int_numbers (commented_text demo_pieces) = Some (JArray [JString ''/* no'', JNull])"
proof -
  have "list_all piece_ok demo_pieces"
    by (simp add: demo_pieces_def sublist_Cons_right)
  then show ?thesis
    using comments_are_blanks[of demo_pieces int_numbers]
    by (simp add: demo_pieces_def blanks_def numeral_eq_Suc parse_value.simps parse_array_value.simps array_loop.simps
        MAX_NESTING_def isspace_def starts_def close_array_def parse_null_value_def less_eq_char_def Let_def
        parse_string_value_def get_quoted_string_def skip_quotes_def process_string.simps)
qed

text \<open>
  What the conditions on a comment up to the end of the line are for: the first pass looks for blocks in
  it too. With a quote in it the pass takes the rest for a string and misses a later block; with a \<open>*\<close>
  behind the slashes it sees a block there, which has no end. Both texts are null behind comments.
\<close>

lemma line_comment_hides_block:
  "json_parse_string_with_comments int_numbers (''// 1'' @ [QUOTE, NEWLINE] @ ''/* x */null'') = None"
  "json_parse_string_with_comments int_numbers (''//* x'' @ [NEWLINE] @ ''null'') = None"
  by (simp_all add: json_parse_string_with_comments_def remove_comments_def Let_def comments_loop.simps(2)
      strstr.simps blanks_def parse_value.simps isspace_def less_eq_char_def MAX_NESTING_def)

end
