(* ===== verification/Json_Buffer.thy ===== *)
theory Json_Buffer
  imports Json_Text
begin

text \<open>
  \<open>src/PCom3/parson.c\<close>: printing as the code does it, in two passes over the value: the first, with
  no buffer, counts the bytes, the second writes them into a buffer of that size. The text of a value in
  \<open>Json_Text\<close> is what the second pass leaves there.
\<close>

section \<open>Where the text goes\<close>

abbreviation (input) "NUL \<equiv> CHR 0x00"

text \<open>
  The printing functions return an \<open>int\<close>, the number of bytes, or -1. Their counters are of that type as well
  and wrap around at 32 bits, as the compiled code does; pointers do not.
\<close>

definition INT_MAX :: int where "INT_MAX = 2147483647"

definition as_C_int :: "int \<Rightarrow> int" where
  "as_C_int n = signed_take_bit 31 n"

lemma as_C_int_id: "0 \<le> n \<Longrightarrow> n \<le> INT_MAX \<Longrightarrow> as_C_int n = n"
  by (simp add: as_C_int_def INT_MAX_def signed_take_bit_int_eq_self)

text \<open>
  A function that prints is called with the buffer, or a null pointer, and the place in it where \<open>buf\<close> points. It gives
  the \<open>int\<close> it returns and the buffer. \<open>None\<close> is a write outside the buffer. \<open>sprintf\<close> writes a NUL behind
  the text; a single character is stored without one.
\<close>

type_synonym printer = "string option \<Rightarrow> nat \<Rightarrow> (int \<times> string option) option"

definition NUM_BUF_SIZE :: nat where "NUM_BUF_SIZE = 64"

definition stored :: "string \<Rightarrow> nat \<Rightarrow> string \<Rightarrow> string" where
  "stored b n s = take n b @ s @ drop (n + length s) b"

definition append_string :: "string \<Rightarrow> printer" where
  "append_string s buf n =
     (case buf of
        None \<Rightarrow> Some (as_C_int (int (length s)), None)
      | Some b \<Rightarrow>
          if n + length s < length b then Some (as_C_int (int (length s)), Some (stored b n (s @ [NUL]))) else None)"

definition append_char :: "char \<Rightarrow> printer" where
  "append_char c buf n =
     (case buf of
        None \<Rightarrow> Some (1, None)
      | Some b \<Rightarrow> if n < length b then Some (1, Some (b[n := c])) else None)"

text \<open>A number is printed into the buffer, or into \<open>num_buf\<close> when its length is all that is asked for.\<close>

definition append_number :: "'n numbers \<Rightarrow> 'n \<Rightarrow> printer" where
  "append_number N x buf n =
     (case buf of
        None \<Rightarrow> if length (number_text N x) < NUM_BUF_SIZE then Some (as_C_int (int (length (number_text N x))), None) else None
      | Some b \<Rightarrow> append_string (number_text N x) buf n)"

text \<open>
  The body of a function that prints one piece after the other: \<open>written_total\<close> is its own counter, a negative
  \<open>written\<close> ends it with -1, and \<open>buf\<close> is moved only when it is not null.
\<close>

fun steps :: "printer list \<Rightarrow> int \<Rightarrow> printer" where
  "steps [] written_total buf n = Some (written_total, buf)"
| "steps (f # fs) written_total buf n =
     (case f buf n of
        None \<Rightarrow> None
      | Some (written, buf') \<Rightarrow>
          if written < 0 then Some (- 1, buf')
          else steps fs (as_C_int (written_total + written)) buf' (if buf' = None then n else n + nat written))"

definition write_indent :: "nat \<Rightarrow> printer" where
  "write_indent level = steps (replicate level (append_string ''    '')) 0"

section \<open>The printer\<close>

definition write_char :: "bool \<Rightarrow> char \<Rightarrow> printer" where
  "write_char esc c = (if json_escape esc c = [c] \<and> c \<noteq> CHR 0x2F then append_char c else append_string (json_escape esc c))"

definition write_string :: "bool \<Rightarrow> string \<Rightarrow> printer" where
  "write_string esc s = steps (append_string [QUOTE] # map (write_char esc) s @ [append_string [QUOTE]]) 0"

definition write_when :: "bool \<Rightarrow> printer \<Rightarrow> printer list" where
  "write_when c f = (if c then [f] else [])"

text \<open>
  The two loops over elements and members run in the function itself, with its counter; they are
  \<open>write_items\<close> and \<open>write_members\<close>.
\<close>

fun write_value :: "'n numbers \<Rightarrow> bool \<Rightarrow> nat \<Rightarrow> 'n json \<Rightarrow> printer"
  and write_items :: "'n numbers \<Rightarrow> bool \<Rightarrow> nat \<Rightarrow> 'n json list \<Rightarrow> printer list"
  and write_members :: "'n numbers \<Rightarrow> bool \<Rightarrow> nat \<Rightarrow> (string \<times> 'n json) list \<Rightarrow> printer list"
where
  "write_value N p level (JArray vs) =
     steps (append_string ''['' # write_when (vs \<noteq> [] \<and> p) (append_string [CHR 0x0A]) @ write_items N p level vs @
       write_when (vs \<noteq> [] \<and> p) (write_indent level) @ [append_string '']'']) 0"
| "write_value N p level (JObject ms) =
     steps (append_string ''{'' # write_when (ms \<noteq> [] \<and> p) (append_string [CHR 0x0A]) @ write_members N p level ms @
       write_when (ms \<noteq> [] \<and> p) (write_indent level) @ [append_string ''}'']) 0"
| "write_value N p level (JString s) = steps [write_string (escape_slashes N) s] 0"
| "write_value N p level (JBoolean b) = steps [append_string (if b then ''true'' else ''false'')] 0"
| "write_value N p level (JNumber x) = steps [append_number N x] 0"
| "write_value N p level JNull = steps [append_string ''null''] 0"
| "write_items N p level [] = []"
| "write_items N p level (v # vs) =
     write_when p (write_indent (level + 1)) @ write_value N p (level + 1) v #
       write_when (vs \<noteq> []) (append_string '','') @ write_when p (append_string [CHR 0x0A]) @
       write_items N p level vs"
| "write_members N p level [] = []"
| "write_members N p level ((key, v) # ms) =
     write_when p (write_indent (level + 1)) @ write_string (escape_slashes N) key # append_string '':'' #
       write_when p (append_string '' '') @ write_value N p (level + 1) v #
       write_when (ms \<noteq> []) (append_string '','') @ write_when p (append_string [CHR 0x0A]) @
       write_members N p level ms"

text \<open>
  The functions without and with \<open>_pretty\<close> in their names are the same up to the flag. A size is one
  more than the number that the first pass returns, as a \<open>size_t\<close>, or 0 when that is negative. \<open>fresh n\<close> is what
  \<open>malloc\<close> of \<open>n\<close> bytes gives; an inner \<open>None\<close> is the null pointer.
\<close>

definition size_of_text :: "'n numbers \<Rightarrow> bool \<Rightarrow> 'n json option \<Rightarrow> nat option" where
  "size_of_text N p value =
     (case value of None \<Rightarrow> Some 0
      | Some v \<Rightarrow> map_option (\<lambda>(res, _). if res < 0 then 0 else nat res + 1) (write_value N p 0 v None 0))"

definition text_to_buffer :: "'n numbers \<Rightarrow> bool \<Rightarrow> 'n json option \<Rightarrow> string \<Rightarrow> nat \<Rightarrow> (bool \<times> string) option" where
  "text_to_buffer N p value buf buf_size_in_bytes =
     (case size_of_text N p value of None \<Rightarrow> None
      | Some needed \<Rightarrow>
          if needed = 0 \<or> buf_size_in_bytes < needed then Some (False, buf)
          else (case value of None \<Rightarrow> Some (False, buf)
                | Some v \<Rightarrow> map_option (\<lambda>(written, b). (0 \<le> written, the b)) (write_value N p 0 v (Some buf) 0)))"

definition text_to_string :: "'n numbers \<Rightarrow> bool \<Rightarrow> (nat \<Rightarrow> string) \<Rightarrow> 'n json option \<Rightarrow> string option option" where
  "text_to_string N p fresh value =
     (case size_of_text N p value of None \<Rightarrow> None
      | Some buf_size \<Rightarrow>
          if buf_size = 0 then Some None
          else map_option (\<lambda>(ok, b). if ok then Some b else None)
                 (text_to_buffer N p value (fresh buf_size) buf_size))"

definition json_serialization_size :: "'n numbers \<Rightarrow> 'n json option \<Rightarrow> nat option" where
  "json_serialization_size N value = size_of_text N False value"

definition json_serialization_size_pretty :: "'n numbers \<Rightarrow> 'n json option \<Rightarrow> nat option" where
  "json_serialization_size_pretty N value = size_of_text N True value"

definition json_serialize_to_buffer :: "'n numbers \<Rightarrow> 'n json option \<Rightarrow> string \<Rightarrow> nat \<Rightarrow> (bool \<times> string) option" where
  "json_serialize_to_buffer N value buf k = text_to_buffer N False value buf k"

definition json_serialize_to_buffer_pretty ::
  "'n numbers \<Rightarrow> 'n json option \<Rightarrow> string \<Rightarrow> nat \<Rightarrow> (bool \<times> string) option" where
  "json_serialize_to_buffer_pretty N value buf k = text_to_buffer N True value buf k"

definition json_serialize_to_string :: "'n numbers \<Rightarrow> (nat \<Rightarrow> string) \<Rightarrow> 'n json option \<Rightarrow> string option option" where
  "json_serialize_to_string N fresh value = text_to_string N False fresh value"

section \<open>What a write does\<close>

text \<open>
  For a text that \<open>INT_MAX\<close> can count: with no buffer the length is returned; with a buffer that has room for the
  text and a NUL the text comes behind what is there, and at most one byte behind it is touched, which is a NUL if \<open>z\<close>.
\<close>

definition puts :: "bool \<Rightarrow> string \<Rightarrow> nat \<Rightarrow> string \<Rightarrow> string \<Rightarrow> bool" where
  "puts z b n t b' \<longleftrightarrow> length b' = length b \<and> take (n + length t) b' = take n b @ t \<and>
     drop (n + length t + 1) b' = drop (n + length t + 1) b \<and> (z \<longrightarrow> b' ! (n + length t) = NUL)"

definition writes_from :: "bool \<Rightarrow> (int \<Rightarrow> printer) \<Rightarrow> string \<Rightarrow> bool" where
  "writes_from z f t \<longleftrightarrow>
     (\<forall>acc n. 0 \<le> acc \<longrightarrow> acc + int (length t) \<le> INT_MAX \<longrightarrow>
        f acc None n = Some (acc + int (length t), None) \<and>
        (\<forall>b. n + length t < length b \<longrightarrow> (\<exists>b'. f acc (Some b) n = Some (acc + int (length t), Some b') \<and> puts z b n t b')))"

definition writes :: "bool \<Rightarrow> printer \<Rightarrow> string \<Rightarrow> bool" where
  "writes z f t \<longleftrightarrow>
     (\<forall>n. int (length t) \<le> INT_MAX \<longrightarrow>
        f None n = Some (int (length t), None) \<and>
        (\<forall>b. n + length t < length b \<longrightarrow> (\<exists>b'. f (Some b) n = Some (int (length t), Some b') \<and> puts z b n t b')))"

lemma writesD:
  assumes "writes z f t" and "int (length t) \<le> INT_MAX"
  shows "f None n = Some (int (length t), None)"
    and "n + length t < length b \<Longrightarrow> \<exists>b'. f (Some b) n = Some (int (length t), Some b') \<and> puts z b n t b'"
  using assms unfolding writes_def by blast+

lemma writes_fromD:
  assumes "writes_from z f t" and "0 \<le> acc" and "acc + int (length t) \<le> INT_MAX"
  shows "f acc None n = Some (acc + int (length t), None)"
    and "n + length t < length b \<Longrightarrow> \<exists>b'. f acc (Some b) n = Some (acc + int (length t), Some b') \<and> puts z b n t b'"
  using assms unfolding writes_from_def by blast+

lemma writes_mono: "writes z f t \<Longrightarrow> writes False f t"
  unfolding writes_def puts_def by blast

lemma writes_append: "writes z (append_string s) s"
  by (auto simp: writes_def puts_def append_string_def stored_def nth_append as_C_int_id)

lemma writes_append_char: "writes False (append_char c) [c]"
  by (auto simp: writes_def puts_def append_char_def take_Suc_conv_app_nth)

lemma puts_trans:
  assumes 1: "puts y b n s b1" and 2: "puts z b1 (n + length s) t b2" 
  shows "puts z b n (s @ t) b2"
proof -
  have "drop (n + length s + length t + 1) b1 = drop (length t) (drop (n + length s + 1) b1)" by (simp add: ac_simps)
  also have "\<dots> = drop (n + length s + length t + 1) b" using 1 by (simp add: puts_def ac_simps)
  finally have "drop (n + length s + length t + 1) b1 = drop (n + length s + length t + 1) b" .
  then show ?thesis using assms by (simp add: puts_def add.assoc[symmetric])
qed

text \<open>A body prints what its pieces print.\<close>

lemma from_nothing: "writes_from False (steps []) []"
  by (auto simp: writes_from_def puts_def)

lemma from_piece:
  assumes f: "writes y f s" and fs: "writes_from z (steps fs) t"
  shows "writes_from z (steps (f # fs)) (s @ t)"
  unfolding writes_from_def
proof (intro allI impI conjI)
  fix acc n assume acc: "0 \<le> acc" "acc + int (length (s @ t)) \<le> INT_MAX"
  then have s: "int (length s) \<le> INT_MAX" and t: "0 \<le> acc + int (length s)" "acc + int (length s) + int (length t) \<le> INT_MAX"
    and c: "as_C_int (acc + int (length s)) = acc + int (length s)"
    by (simp_all add: as_C_int_id)
  show "steps (f # fs) acc None n = Some (acc + int (length (s @ t)), None)"
    using writesD(1)[OF f s] writes_fromD(1)[OF fs t] c by simp
  fix b :: string assume room: "n + length (s @ t) < length b"
  then obtain b1 where b1: "f (Some b) n = Some (int (length s), Some b1)" "puts y b n s b1"
    using writesD(2)[OF f s, of n b] by auto
  have "n + length s + length t < length b1" using room b1(2) by (simp add: puts_def)
  then obtain b2 where b2: "steps fs (acc + int (length s)) (Some b1) (n + length s) = Some (acc + int (length s) + int (length t), Some b2)"
    "puts z b1 (n + length s) t b2"
    using writes_fromD(2)[OF fs t] by blast
  show "\<exists>b'. steps (f # fs) acc (Some b) n = Some (acc + int (length (s @ t)), Some b') \<and> puts z b n (s @ t) b'"
    using b1(1) b2(1) c puts_trans[OF b1(2) b2(2)] by (intro exI[of _ b2]) (simp add: algebra_simps)
qed

lemma from_last:
  assumes f: "writes z f s"
  shows "writes_from z (steps [f]) s"
  unfolding writes_from_def
proof (intro allI impI conjI)
  fix acc n assume acc: "0 \<le> acc" "acc + int (length s) \<le> INT_MAX"
  then have s: "int (length s) \<le> INT_MAX" and c: "as_C_int (acc + int (length s)) = acc + int (length s)"
    by (simp_all add: as_C_int_id)
  show "steps [f] acc None n = Some (acc + int (length s), None)"
    using writesD(1)[OF f s] c by simp
  fix b :: string assume "n + length s < length b"
  then show "\<exists>b'. steps [f] acc (Some b) n = Some (acc + int (length s), Some b') \<and> puts z b n s b'"
    using writesD(2)[OF f s, of n b] c by auto
qed

declare steps.simps [simp del]

lemma body_writes: "writes_from z (steps fs) t \<Longrightarrow> writes z (steps fs 0) t"
  using writes_fromD[of z "steps fs" t 0] unfolding writes_def by simp

lemma from_when:
  "writes y f s \<Longrightarrow> writes_from z (steps fs) t \<Longrightarrow> writes_from z (steps (write_when c f @ fs)) ((if c then s else []) @ t)"
  using from_piece[of y f s z fs t] by (simp add: write_when_def)

lemma writes_indent: "writes False (write_indent level) (append_indent level)"
proof -
  have "writes_from False (steps (replicate level (append_string ''    ''))) (append_indent level)"
    unfolding append_indent_def
    by (induction level) (simp_all only: replicate.simps concat.simps from_nothing from_piece[OF writes_append])
  then show ?thesis unfolding write_indent_def by (rule body_writes)
qed

lemma writes_char: "writes False (write_char esc c) (json_escape esc c)"
  using writes_append_char[of c] by (auto simp: write_char_def writes_append)

lemma writes_string: "writes True (write_string esc s) (json_serialize_string esc s)"
proof -
  have "writes_from True (steps (map (write_char esc) s @ [append_string [QUOTE]])) (concat (map (json_escape esc) s) @ [QUOTE])"
    by (induction s) (simp_all add: from_last[OF writes_append] from_piece[OF writes_char])
  from body_writes[OF from_piece[OF writes_append this, of "[QUOTE]"]] show ?thesis
    by (simp add: write_string_def json_serialize_string_def)
qed

definition short_number :: "'n numbers \<Rightarrow> 'n \<Rightarrow> bool" where
  "short_number N x \<longleftrightarrow> length (number_text N x) < NUM_BUF_SIZE"

lemma writes_number: "short_number N x \<Longrightarrow> writes True (append_number N x) (number_text N x)"
  using writes_append[of True "number_text N x"]
  by (simp add: writes_def append_number_def short_number_def as_C_int_id)

text \<open>A value; and the elements of a container, before the rest \<open>fs\<close> of the body.\<close>

lemmas from_string = from_piece[OF writes_append]
lemmas from_indent = from_when[OF writes_indent]
lemmas from_line = from_when[OF writes_append[of True "[CHR 0x0A]"]]
lemmas from_comma = from_when[OF writes_append[of True "'',''"]]

lemma write_text:
  "\<forall>x \<in> set_json v. short_number N x \<Longrightarrow>
     writes True (write_value N p level v) (json_serialize_to_buffer_r N p level v)"
  "\<forall>v \<in> set vs. \<forall>x \<in> set_json v. short_number N x \<Longrightarrow> \<forall>fs t. writes_from True (steps fs) t \<longrightarrow>
     writes_from True (steps (write_items N p level vs @ fs)) (array_items N p level vs @ t)"
  "\<forall>m \<in> set ms. \<forall>x \<in> set_json (snd m). short_number N x \<Longrightarrow> \<forall>fs t. writes_from True (steps fs) t \<longrightarrow>
     writes_from True (steps (write_members N p level ms @ fs)) (object_items N p level ms @ t)"
proof (induction N p level v and N p level vs and N p level ms
    rule: write_value_write_items_write_members.induct)
  case (1 N p level vs)
  have items: "writes_from True (steps (write_items N p level vs @ fs)) (array_items N p level vs @ t)"
    if "writes_from True (steps fs) t" for fs t
    using 1 that by simp
  have "writes True (write_value N p level (JArray vs))
     (''['' @ (if vs \<noteq> [] \<and> p then [CHR 0x0A] else []) @ array_items N p level vs @
      (if vs \<noteq> [] \<and> p then append_indent level else []) @ '']'')"
    unfolding write_value.simps
    by (intro body_writes from_string from_line items from_indent from_last writes_append)
  then show ?case by (cases "vs = []") (simp_all add: newline_def indent_def)
next
  case (2 N p level ms)
  then have members: "writes_from True (steps (write_members N p level ms @ fs)) (object_items N p level ms @ t)"
    if "writes_from True (steps fs) t" for fs t
    using that by fastforce
  have "writes True (write_value N p level (JObject ms))
     (''{'' @ (if ms \<noteq> [] \<and> p then [CHR 0x0A] else []) @ object_items N p level ms @
      (if ms \<noteq> [] \<and> p then append_indent level else []) @ ''}'')"
    unfolding write_value.simps
    by (intro body_writes from_string from_line members from_indent from_last writes_append)
  then show ?case by (cases "ms = []") (simp_all add: newline_def indent_def)
next
  case (8 N p level v vs)
  then have w: "writes True (write_value N p (level + 1) v) (json_serialize_to_buffer_r N p (level + 1) v)"
    and items: "\<And>fs t. writes_from True (steps fs) t \<Longrightarrow>
      writes_from True (steps (write_items N p level vs @ fs)) (array_items N p level vs @ t)" by simp_all
  show ?case
  proof (intro allI impI)
    fix fs t assume rest: "writes_from True (steps fs) t"
    have "writes_from True (steps (write_when p (write_indent (level + 1)) @ write_value N p (level + 1) v #
        write_when (vs \<noteq> []) (append_string '','') @ write_when p (append_string [CHR 0x0A]) @ write_items N p level vs @ fs))
      ((if p then append_indent (level + 1) else []) @ json_serialize_to_buffer_r N p (level + 1) v @
        (if vs \<noteq> [] then '','' else []) @ (if p then [CHR 0x0A] else []) @ array_items N p level vs @ t)"
      by (intro from_indent from_piece[OF w] from_comma from_line items rest)
    then show "writes_from True (steps (write_items N p level (v # vs) @ fs)) (array_items N p level (v # vs) @ t)"
      by (cases p; cases "vs = []") (simp_all add: newline_def indent_def comma_def)
  qed
next
  case (10 N p level key v ms)
  then have w: "writes True (write_value N p (level + 1) v) (json_serialize_to_buffer_r N p (level + 1) v)"
    and members: "\<And>fs t. writes_from True (steps fs) t \<Longrightarrow>
      writes_from True (steps (write_members N p level ms @ fs)) (object_items N p level ms @ t)" by simp_all
  show ?case
  proof (intro allI impI)
    fix fs t assume rest: "writes_from True (steps fs) t"
    have "writes_from True (steps (write_when p (write_indent (level + 1)) @ write_string (escape_slashes N) key #
        append_string '':'' # write_when p (append_string '' '') @ write_value N p (level + 1) v #
        write_when (ms \<noteq> []) (append_string '','') @ write_when p (append_string [CHR 0x0A]) @ write_members N p level ms @ fs))
      ((if p then append_indent (level + 1) else []) @ json_serialize_string (escape_slashes N) key @ '':'' @
        (if p then '' '' else []) @ json_serialize_to_buffer_r N p (level + 1) v @
        (if ms \<noteq> [] then '','' else []) @ (if p then [CHR 0x0A] else []) @ object_items N p level ms @ t)"
      by (intro from_indent from_piece[OF writes_string] from_string from_when[OF writes_append[of True]] from_piece[OF w]
          from_comma from_line members rest)
    then show "writes_from True (steps (write_members N p level ((key, v) # ms) @ fs)) (object_items N p level ((key, v) # ms) @ t)"
      by (cases p; cases "ms = []") (simp_all add: newline_def indent_def comma_def)
  qed
next
  case (3 N p level s)
  show ?case using body_writes[OF from_last[OF writes_string[of "escape_slashes N" s]]] by simp
next
  case (4 N p level b)
  show ?case using body_writes[OF from_last[OF writes_append[of True "if b then ''true'' else ''false''"]]] by simp
next
  case (5 N p level x)
  then show ?case using body_writes[OF from_last[OF writes_number[of N x]]] by simp
next
  case (6 N p level)
  show ?case using body_writes[OF from_last[OF writes_append[of True "''null''"]]] by simp
qed simp_all

section \<open>A text that an int cannot count\<close>

text \<open>
  The counters wrap around: a string of \<open>2 ^ 32\<close> plain characters, which a \<open>size_t\<close> can count, is given a buffer of three
  bytes, and the second pass writes behind it.
\<close>

definition plain :: "bool \<Rightarrow> char \<Rightarrow> bool" where
  "plain esc c \<longleftrightarrow> write_char esc c = append_char c"

lemma plain_letter: "plain esc CHR ''a''"
  by (simp add: plain_def write_char_def json_escape_def)

lemma as_C_int_plus: "as_C_int (as_C_int m + n) = as_C_int (m + n)"
proof -
  have "as_C_int (as_C_int m + n) = as_C_int (as_C_int (as_C_int m) + as_C_int n)"
    unfolding as_C_int_def by (rule signed_take_bit_add[symmetric])
  also have "as_C_int (as_C_int m) = as_C_int m" by (simp add: as_C_int_def)
  also have "as_C_int (as_C_int m + as_C_int n) = as_C_int (m + n)"
    unfolding as_C_int_def by (rule signed_take_bit_add)
  finally show ?thesis .
qed

lemma plain_counted:
  "list_all (plain esc) s \<Longrightarrow>
   steps (map (write_char esc) s @ [append_string [QUOTE]]) acc None n = Some (as_C_int (acc + int (length s) + 1), None)"
proof (induction s arbitrary: acc)
  case Nil
  show ?case by (simp add: steps.simps append_string_def as_C_int_id[of 1] INT_MAX_def)
next
  case (Cons c s)
  have "steps (map (write_char esc) (c # s) @ [append_string [QUOTE]]) acc None n
      = steps (map (write_char esc) s @ [append_string [QUOTE]]) (as_C_int (acc + 1)) None n"
    using Cons.prems by (simp add: steps.simps plain_def append_char_def)
  also have "\<dots> = Some (as_C_int (as_C_int (acc + 1) + (int (length s) + 1)), None)"
    using Cons by (simp add: add.assoc)
  also have "as_C_int (as_C_int (acc + 1) + (int (length s) + 1)) = as_C_int (acc + int (length (c # s)) + 1)"
    unfolding as_C_int_plus by (simp add: ac_simps)
  finally show ?case .
qed

lemma long_text_overruns:
  assumes s: "list_all (plain (escape_slashes N)) s" "length s = 2 ^ 32" and fresh: "\<And>k. length (fresh k) = k"
  shows "size_of_text N p (Some (JString s)) = Some 3" and "text_to_string N p fresh (Some (JString s)) = None"
proof -
  have "as_C_int (1 + 2 ^ 32 + 1) = 2" by (simp add: as_C_int_def signed_take_bit_eq_take_bit_shift take_bit_eq_mod)
  then have "write_string (escape_slashes N) s None 0 = Some (2, None)"
    using plain_counted[OF s(1), of 1 0] s(2)
    by (simp add: write_string_def steps.simps append_string_def as_C_int_id INT_MAX_def)
  then show size: "size_of_text N p (Some (JString s)) = Some 3"
    by (simp add: size_of_text_def steps.simps as_C_int_id INT_MAX_def)
  obtain c0 c1 c2 r where r: "s = c0 # c1 # c2 # r"
    using s(2) by (cases s; cases "tl s"; cases "tl (tl s)") auto
  have "write_string (escape_slashes N) s (Some b) 0 = None" if b: "length b = 3" for b
    using s(1) b by (simp add: write_string_def r steps.simps plain_def append_string_def append_char_def stored_def as_C_int_id INT_MAX_def)
  then show "text_to_string N p fresh (Some (JString s)) = None"
    using fresh by (simp add: text_to_string_def text_to_buffer_def size steps.simps)
qed

section \<open>Properties\<close>

definition text_counted :: "'n numbers \<Rightarrow> 'n json \<Rightarrow> bool" where
  "text_counted N v \<longleftrightarrow> (\<forall>p. int (length (json_serialize_to_buffer_r N p 0 v)) \<le> INT_MAX)"

lemma buffered_text:
  assumes "\<forall>x \<in> set_json v. short_number N x" and "text_counted N v" and "\<And>k. length (fresh k) = k"
  shows "size_of_text N p (Some v) = Some (length (json_serialize_to_buffer_r N p 0 v) + 1)"
    and "text_to_string N p fresh (Some v) = Some (Some (json_serialize_to_buffer_r N p 0 v @ [NUL]))"
proof -
  let ?t = "json_serialize_to_buffer_r N p 0 v"
  have len: "int (length ?t) \<le> INT_MAX" using assms(2) by (simp add: text_counted_def)
  note w = writesD[OF write_text(1)[OF assms(1)] len]
  show size: "size_of_text N p (Some v) = Some (length ?t + 1)" using w(1)[of 0] by (simp add: size_of_text_def)
  define k where "k = length ?t + 1"
  have "0 + length ?t < length (fresh k)" using assms(3) by (simp add: k_def)
  from w(2)[OF this] obtain b where b: "write_value N p 0 v (Some (fresh k)) 0 = Some (int (length ?t), Some b)"
    "puts True (fresh k) 0 ?t b" by blast
  then have "length b = k" "take (length ?t) b = ?t" "b ! length ?t = NUL" using assms(3) by (simp_all add: puts_def)
  then have "b = ?t @ [NUL]"
    using take_Suc_conv_app_nth[of "length ?t" b] unfolding k_def by simp
  then show "text_to_string N p fresh (Some v) = Some (Some (?t @ [NUL]))"
    using size b(1) by (simp add: text_to_string_def text_to_buffer_def k_def)
qed

text \<open>
  C29: printing into a buffer is safe and complete for every value whose text an \<open>int\<close> can count. When moreover no
  number's text is as long as \<open>num_buf\<close>, the first pass counts
  exactly the bytes of the text; the second pass, in a buffer that \<open>malloc\<close> gave for that size, whatever was in it,
  never writes outside and leaves the text with a NUL behind it; a buffer of the caller is refused, untouched,
  when it is too small, and otherwise keeps what is behind the text. (For a longer text none of this holds:
  \<open>long_text_overruns\<close>.)
\<close>

theorem buffer_holds_text:
  assumes "\<forall>x \<in> set_json v. short_number N x" and "text_counted N v" and "\<And>k. length (fresh k) = k"
  shows "json_serialization_size N (Some v) = Some (length (json_serialize_to_buffer_r N False 0 v) + 1) \<and>
    json_serialize_to_string N fresh (Some v) = Some (Some (json_serialize_to_buffer_r N False 0 v @ [NUL])) \<and>
    map_option (map_option (takeWhile (\<lambda>c. c \<noteq> NUL))) (text_to_string N True fresh (Some v)) =
      Some (map_option (takeWhile (\<lambda>c. c \<noteq> NUL)) (json_serialize_to_string_pretty N (Some v))) \<and>
    (\<forall>buf. let t = json_serialize_to_buffer_r N False 0 v in
       if length buf \<le> length t then json_serialize_to_buffer N (Some v) buf (length buf) = Some (False, buf)
       else json_serialize_to_buffer N (Some v) buf (length buf) = Some (True, t @ [NUL] @ drop (length t + 1) buf))"
proof -
  let ?t = "json_serialize_to_buffer_r N False 0 v"
  have size: "size_of_text N False (Some v) = Some (length ?t + 1)" by (rule buffered_text(1)[OF assms])
  have len: "int (length ?t) \<le> INT_MAX" using assms(2) by (simp add: text_counted_def)
  have big: "json_serialize_to_buffer N (Some v) buf (length buf) = Some (True, ?t @ [NUL] @ drop (length ?t + 1) buf)"
    if "\<not> length buf \<le> length ?t" for buf
  proof -
    have "0 + length ?t < length buf" using that by simp
    from writesD(2)[OF write_text(1)[OF assms(1)] len this] obtain b where
      b: "write_value N False 0 v (Some buf) 0 = Some (int (length ?t), Some b)" "puts True buf 0 ?t b" by blast
    then have p: "length b = length buf" "take (length ?t) b = ?t" "drop (length ?t + 1) b = drop (length ?t + 1) buf"
      "b ! length ?t = NUL" by (simp_all add: puts_def)
    then have "b = take (length ?t) b @ b ! length ?t # drop (length ?t + 1) b"
      using that by (metis Suc_eq_plus1 id_take_nth_drop not_le)
    then have "b = ?t @ [NUL] @ drop (length ?t + 1) buf" using p by simp
    then show ?thesis using b(1) size that by (simp add: json_serialize_to_buffer_def text_to_buffer_def)
  qed
  have small: "json_serialize_to_buffer N (Some v) buf (length buf) = Some (False, buf)"
    if "length buf \<le> length ?t" for buf
    using that size by (simp add: json_serialize_to_buffer_def text_to_buffer_def)
  have c: "takeWhile (\<lambda>c. c \<noteq> NUL) (t @ [NUL]) = takeWhile (\<lambda>c. c \<noteq> NUL) t" for t :: string
    by (induction t) simp_all
  show ?thesis
    using buffered_text[OF assms, of False] buffered_text[OF assms, of True] big small
    by (simp add: json_serialization_size_def json_serialize_to_string_def json_serialize_to_string_pretty_def Let_def c)
qed

lemma int_numbers_short: "\<bar>x\<bar> < 10 \<Longrightarrow> short_number int_numbers x"
  by (auto simp: short_number_def int_numbers_def int_text_def NUM_BUF_SIZE_def nat_text.simps)

lemma int_numbers_fit: "text_counted int_numbers (JArray [JNumber 7, JString ''a''])"
  by (simp add: text_counted_def INT_MAX_def newline_def indent_def comma_def append_indent_def json_serialize_string_def json_escape_def
      int_numbers_def int_text_def nat_text.simps)

theorem buffer_holds_text_witness:
  "json_serialize_to_string int_numbers (\<lambda>k. replicate k CHR ''?'') (Some (JArray [JNumber 7, JString ''a'']))
     = Some (Some (''[7,'' @ [QUOTE, CHR ''a'', QUOTE, CHR '']'', NUL]))"
  using buffer_holds_text[of "JArray [JNumber 7, JString ''a'']" int_numbers "\<lambda>k. replicate k CHR ''?''", OF _ int_numbers_fit]
  by (simp add: int_numbers_short newline_def indent_def comma_def json_serialize_string_def json_escape_def)
    (simp add: int_numbers_def int_text_def nat_text.simps digit_char_def)

end
