(* ===== verification/Json_File.thy ===== *)
theory Json_File
  imports Json_Buffer Json_Comments
begin

text \<open>
  \<open>src/PCom3/parson.c\<close>: reading a value from a file and writing one to a file. The files are those of
  the operating system, named by their paths.
\<close>

section \<open>Files\<close>

text \<open>
  The contents of the files, and what the calls of the C library do on this occasion: whether \<open>fopen\<close>
  for writing succeeds, whether \<open>fputs\<close> or \<open>fclose\<close> reports an error, and how much has then reached
  the file.
\<close>

record disk =
  contents :: "string \<Rightarrow> string option"
  opens :: bool
  fputs_fails :: bool
  fclose_fails :: bool
  reached :: nat

text \<open>A file that does not exist or is empty gives a null pointer; the string ends at the first NUL.\<close>

definition read_file :: "disk \<Rightarrow> string \<Rightarrow> string option" where
  "read_file d filename =
     (case contents d filename of None \<Rightarrow> None
      | Some s \<Rightarrow> if length s = 0 then None else Some (takeWhile (\<lambda>c. c \<noteq> NUL) s))"

definition json_parse_file :: "'n numbers \<Rightarrow> disk \<Rightarrow> string \<Rightarrow> 'n json option" where
  "json_parse_file N d filename =
     (case read_file d filename of None \<Rightarrow> None | Some s \<Rightarrow> json_parse_string N s)"

definition json_parse_file_with_comments :: "'n numbers \<Rightarrow> disk \<Rightarrow> string \<Rightarrow> 'n json option" where
  "json_parse_file_with_comments N d filename =
     (case read_file d filename of None \<Rightarrow> None | Some s \<Rightarrow> json_parse_string_with_comments N s)"

text \<open>What \<open>fopen\<close>, \<open>fputs\<close> and \<open>fclose\<close> do to the file, and the status.\<close>

definition write_file :: "disk \<Rightarrow> string \<Rightarrow> string \<Rightarrow> bool \<times> disk" where
  "write_file d filename buf =
     (if \<not> opens d then (False, d)
      else let s = takeWhile (\<lambda>c. c \<noteq> NUL) buf;
               ok = (\<not> fputs_fails d \<and> \<not> fclose_fails d)
           in (ok, d\<lparr>contents := (contents d)(filename \<mapsto> (if ok then s else take (reached d) s))\<rparr>))"

definition json_serialize_to_file ::
  "'n numbers \<Rightarrow> (nat \<Rightarrow> string) \<Rightarrow> disk \<Rightarrow> 'n json option \<Rightarrow> string \<Rightarrow> (bool \<times> disk) option" where
  "json_serialize_to_file N fresh d value filename =
     map_option (\<lambda>s. case s of None \<Rightarrow> (False, d) | Some buf \<Rightarrow> write_file d filename buf)
       (json_serialize_to_string N fresh value)"

definition json_serialize_to_file_pretty ::
  "'n numbers \<Rightarrow> (nat \<Rightarrow> string) \<Rightarrow> disk \<Rightarrow> 'n json option \<Rightarrow> string \<Rightarrow> (bool \<times> disk) option" where
  "json_serialize_to_file_pretty N fresh d value filename =
     map_option (\<lambda>s. case s of None \<Rightarrow> (False, d) | Some buf \<Rightarrow> write_file d filename buf)
       (text_to_string N True fresh value)"

section \<open>Texts have no NUL\<close>

lemma escape_no_NUL: "NUL \<notin> set (json_escape esc c)"
proof (cases "of_char c < (32 :: nat)")
  case True
  then have "hex_digit (of_char c div 16) \<noteq> NUL" "hex_digit (of_char c mod 16) \<noteq> NUL"
    using hex_digit_all[of "of_char c div 16"] hex_digit_all[of "of_char c mod 16"] by auto
  then show ?thesis using True by (simp add: json_escape_def del: of_char_eq_iff)
next
  case False
  then have "c \<noteq> NUL" by auto
  then show ?thesis using False by (simp add: json_escape_def)
qed

lemma string_no_NUL: "NUL \<notin> set (json_serialize_string esc s)"
  by (simp add: json_serialize_string_def escape_no_NUL)

lemma space_no_NUL: "list_all isspace s \<Longrightarrow> NUL \<notin> set s"
proof -
  have "\<not> isspace NUL" by (simp add: isspace_def)
  then show "list_all isspace s \<Longrightarrow> ?thesis" by (auto simp: list_all_iff)
qed

lemmas layout_no_NUL = space_no_NUL[OF layout_space(1)] space_no_NUL[OF layout_space(2)]

lemma comma_no_NUL: "NUL \<notin> set (comma xs)"
  by (simp add: comma_def)

lemma text_no_NUL:
  "\<forall>x \<in> set_json v. NUL \<notin> set (number_text N x) \<Longrightarrow> NUL \<notin> set (json_serialize_to_buffer_r N p level v)"
  "\<forall>v \<in> set vs. \<forall>x \<in> set_json v. NUL \<notin> set (number_text N x) \<Longrightarrow> NUL \<notin> set (array_items N p level vs)"
  "\<forall>m \<in> set ms. \<forall>x \<in> set_json (snd m). NUL \<notin> set (number_text N x) \<Longrightarrow> NUL \<notin> set (object_items N p level ms)"
proof (induction N p level v and N p level vs and N p level ms
    rule: json_serialize_to_buffer_r_array_items_object_items.induct)
  case (2 N p level ms)
  then have "NUL \<notin> set (object_items N p level ms)" by fastforce
  then show ?case by (simp add: layout_no_NUL)
qed (simp_all add: layout_no_NUL comma_no_NUL string_no_NUL)

section \<open>Properties\<close>

lemma written_then_read:
  assumes "json_wf MAX_NESTING v" and "\<forall>x \<in> set_json v. reads_back N x \<and> plain_number N x"
    and "t = json_serialize_to_buffer_r N p 0 v" and "write_file d f (t @ [NUL]) = (True, d')"
  shows "json_parse_file N d' f = Some v" and "json_parse_file_with_comments N d' f = Some v"
proof -
  have "\<forall>x \<in> set_json v. NUL \<notin> set (number_text N x)"
    using assms(2) by (auto simp: reads_back_def is_decimal_def list_all_iff)
  then have "NUL \<notin> set t" using text_no_NUL(1) assms(3) by fast
  then have c: "takeWhile (\<lambda>c. c \<noteq> NUL) (t @ [NUL]) = t" "takeWhile (\<lambda>c. c \<noteq> NUL) t = t"
    by (induction t) auto
  have h: "t \<noteq> []" "value_head (hd t)" using serialized_head[of v N p 0] assms(2,3) by simp_all
  have "d' = d\<lparr>contents := (contents d)(f \<mapsto> t)\<rparr>"
    using assms(4) by (simp add: write_file_def Let_def c(1) del: append.simps split: if_splits)
  then have read: "read_file d' f = Some t"
    using h(1) by (simp add: read_file_def c(2))
  have "parse_value N (t @ []) 0 = Some (v, [])"
    unfolding assms(3) by (rule parse_serialized(1)) (use assms(1,2) in \<open>auto simp: ends_number_def\<close>)
  moreover have "take 3 t \<noteq> [CHR 0xEF, CHR 0xBB, CHR 0xBF]"
    using h by (cases t) (auto simp: value_head_def less_eq_char_def)
  ultimately show "json_parse_file N d' f = Some v"
    by (simp add: json_parse_file_def json_parse_string_def read)
  show "json_parse_file_with_comments N d' f = Some v"
    using commented_read[of v N "[]" "[]" p] assms(1-3) by (simp add: json_parse_file_with_comments_def read)
qed

text \<open>
  C28: a value that has been written to a file is read back from it. When the numbers are printed
  so that \<open>strtod\<close> reads them back and fit \<open>num_buf\<close>, and an \<open>int\<close> can count the text, writing a well-formed value, pretty or not, never
  goes outside a buffer; it succeeds exactly when the file is opened, written and closed without an error, and then
  both ways of reading the file, with and without comments, give the value.
\<close>

theorem file_roundtrip:
  assumes "json_wf MAX_NESTING v"
    and "\<forall>x \<in> set_json v. reads_back N x \<and> plain_number N x \<and> short_number N x"
    and "text_counted N v" and "\<And>k. length (fresh k) = k"
  shows "\<forall>save \<in> {json_serialize_to_file N fresh d (Some v) f, json_serialize_to_file_pretty N fresh d (Some v) f}.
    \<exists>ok d'. save = Some (ok, d') \<and>
      (ok \<longleftrightarrow> opens d \<and> \<not> fputs_fails d \<and> \<not> fclose_fails d) \<and>
      (ok \<longrightarrow> json_parse_file N d' f = Some v \<and> json_parse_file_with_comments N d' f = Some v)"
proof -
  have w: "\<exists>ok d'. write_file d f (json_serialize_to_buffer_r N p 0 v @ [NUL]) = (ok, d') \<and>
      (ok \<longleftrightarrow> opens d \<and> \<not> fputs_fails d \<and> \<not> fclose_fails d) \<and>
      (ok \<longrightarrow> json_parse_file N d' f = Some v \<and> json_parse_file_with_comments N d' f = Some v)" for p
  proof -
    obtain ok d' where "write_file d f (json_serialize_to_buffer_r N p 0 v @ [NUL]) = (ok, d')" by fastforce
    moreover from this have "ok \<longleftrightarrow> opens d \<and> \<not> fputs_fails d \<and> \<not> fclose_fails d"
      by (auto simp: write_file_def Let_def split: if_splits)
    moreover have "\<forall>x \<in> set_json v. reads_back N x \<and> plain_number N x" using assms(2) by blast
    ultimately show ?thesis using written_then_read[OF assms(1) _ refl, of N d f p d'] by auto
  qed
  have short: "\<forall>x \<in> set_json v. short_number N x" using assms(2) by blast
  show ?thesis
    using w[of False] w[of True] buffered_text(2)[OF short assms(3,4)]
    by (simp add: json_serialize_to_file_def json_serialize_to_string_def json_serialize_to_file_pretty_def)
qed

lemma slashes_counted: "text_counted int_numbers (JArray [JNumber 7, JString ''//''])"
  by (simp add: text_counted_def INT_MAX_def newline_def indent_def comma_def append_indent_def json_serialize_string_def json_escape_def
      int_numbers_def int_text_def nat_text.simps)

theorem file_roundtrip_witness:
  "json_parse_file int_numbers
     (snd (the (json_serialize_to_file int_numbers (\<lambda>k. replicate k CHR ''?'')
       \<lparr>contents = (\<lambda>_. None), opens = True, fputs_fails = False, fclose_fails = False, reached = 0\<rparr>
       (Some (JArray [JNumber 7, JString ''//''])) ''conf''))) ''conf'' = Some (JArray [JNumber 7, JString ''//''])"
  using file_roundtrip[of "JArray [JNumber 7, JString ''//'']" int_numbers "\<lambda>k. replicate k CHR ''?''"
      "\<lparr>contents = (\<lambda>_. None), opens = True, fputs_fails = False, fclose_fails = False, reached = 0\<rparr>" "''conf''"] slashes_counted
  by (auto simp: MAX_NESTING_def int_numbers_read_back int_numbers_plain int_numbers_short)

end
