(* ===== verification/Json_Growth.thy ===== *)
theory Json_Growth
  imports Growable Json
begin

text \<open>
  \<open>src/PCom3/parson.c\<close>: the arrays behind the elements of an array and the members of an object.
  They start as null pointers with no capacity, double when an element does not fit, and are trimmed to their size when
  the parser has read the closing bracket. Both meet the contract \<open>growable\<close>, which is why lists stand
  for them in the other theories.
\<close>

definition STARTING_CAPACITY :: nat where "STARTING_CAPACITY = 16"

text \<open>\<open>memcpy\<close> of the first slots of one array into another.\<close>

definition copy_slots :: "nat \<Rightarrow> 'a slots \<Rightarrow> 'a slots \<Rightarrow> 'a slots res" where
  "copy_slots n old new =
     (if n \<le> length old \<and> n \<le> length new then Inr (take n old @ drop n new) else Inl OutOfBounds)"

section \<open>Arrays\<close>

record 'v json_array =
  items :: "'v slots"
  arr_count :: nat
  arr_capacity :: nat

definition json_array_init :: "'v json_array" where
  "json_array_init = \<lparr>items = [], arr_count = 0, arr_capacity = 0\<rparr>"

definition json_array_resize :: "'v json_array \<Rightarrow> nat \<Rightarrow> (bool \<times> 'v json_array) res" where
  "json_array_resize a new_capacity =
     (if new_capacity = 0 then Inr (False, a)
      else bindE (if items a \<noteq> [] \<and> 0 < arr_count a then copy_slots (arr_count a) (items a) (malloc_array new_capacity)
                  else Inr (malloc_array new_capacity))
             (\<lambda>new_items. Inr (True, a\<lparr>items := new_items, arr_capacity := new_capacity\<rparr>)))"

definition json_array_add :: "'v \<Rightarrow> 'v json_array \<Rightarrow> (bool \<times> 'v json_array) res" where
  "json_array_add v a =
     bindE (if arr_capacity a \<le> arr_count a
            then json_array_resize a (max (arr_capacity a * 2) STARTING_CAPACITY) else Inr (True, a))
       (\<lambda>(ok, a1). if \<not> ok then Inr (False, a1)
          else bindE (array_store (arr_count a1) v (items a1)) (\<lambda>its.
            Inr (True, a1\<lparr>items := its, arr_count := arr_count a1 + 1\<rparr>)))"

section \<open>Objects\<close>

record 'v json_obj =
  names :: "string slots"
  vals :: "'v slots"
  obj_count :: nat
  obj_capacity :: nat

definition json_object_init :: "'v json_obj" where
  "json_object_init = \<lparr>names = [], vals = [], obj_count = 0, obj_capacity = 0\<rparr>"

definition json_object_resize :: "'v json_obj \<Rightarrow> nat \<Rightarrow> (bool \<times> 'v json_obj) res" where
  "json_object_resize ob new_capacity =
     (if (names ob = [] \<and> vals ob \<noteq> []) \<or> (names ob \<noteq> [] \<and> vals ob = []) \<or> new_capacity = 0
      then Inr (False, ob)
      else if names ob \<noteq> [] \<and> vals ob \<noteq> [] \<and> 0 < obj_count ob
      then bindE (copy_slots (obj_count ob) (names ob) (malloc_array new_capacity)) (\<lambda>ns.
           bindE (copy_slots (obj_count ob) (vals ob) (malloc_array new_capacity)) (\<lambda>vs.
             Inr (True, ob\<lparr>names := ns, vals := vs, obj_capacity := new_capacity\<rparr>)))
      else Inr (True, ob\<lparr>names := malloc_array new_capacity, vals := malloc_array new_capacity,
             obj_capacity := new_capacity\<rparr>))"

text \<open>\<open>json_object_getn_value\<close> over the arrays, and the addition of a member whose name is new.\<close>

fun find_name :: "string \<Rightarrow> nat \<Rightarrow> 'v json_obj \<Rightarrow> 'v option res" where
  "find_name name 0 ob = Inr None"
| "find_name name (Suc k) ob =
     bindE (array_load (obj_count ob - Suc k) (names ob)) (\<lambda>nm.
       if nm = name then bindE (array_load (obj_count ob - Suc k) (vals ob)) (\<lambda>v. Inr (Some v))
       else find_name name k ob)"

definition json_object_addn :: "string \<Rightarrow> 'v \<Rightarrow> 'v json_obj \<Rightarrow> (bool \<times> 'v json_obj) res" where
  "json_object_addn name v ob =
     bindE (find_name name (obj_count ob) ob) (\<lambda>found.
       if found \<noteq> None then Inr (False, ob)
       else bindE (if obj_capacity ob \<le> obj_count ob
                   then json_object_resize ob (max (obj_capacity ob * 2) STARTING_CAPACITY) else Inr (True, ob))
         (\<lambda>(ok, o1). if \<not> ok then Inr (False, o1)
            else bindE (array_store (obj_count o1) name (names o1)) (\<lambda>ns.
                 bindE (array_store (obj_count o1) v (vals o1)) (\<lambda>vs.
                   Inr (True, o1\<lparr>names := ns, vals := vs, obj_count := obj_count o1 + 1\<rparr>)))))"

section \<open>The contract\<close>

definition packed :: "'a slots \<Rightarrow> nat \<Rightarrow> nat \<Rightarrow> 'a list \<Rightarrow> bool" where
  "packed es n cap xs \<longleftrightarrow> n = length xs \<and> cap = length es \<and> n \<le> cap \<and> take n es = map Some xs"

lemma packed_store:
  assumes "packed es n cap xs" and "n < cap"
  shows "\<exists>es'. array_store n x es = Inr es' \<and> packed es' (n + 1) cap (xs @ [x])"
  using assms by (auto simp: packed_def array_store_def take_Suc_conv_app_nth)

lemma packed_copy:
  assumes "packed es n cap xs" and "n \<le> k"
  shows "\<exists>es'. copy_slots n es (malloc_array k) = Inr es' \<and> packed es' n k xs"
  using assms by (auto simp: packed_def copy_slots_def malloc_array_def)

lemma packed_load: "packed es n cap xs \<Longrightarrow> i < n \<Longrightarrow> array_load i es = Inr (xs ! i)"
proof -
  assume p: "packed es n cap xs" and i: "i < n"
  then have "take n es = map Some xs" unfolding packed_def by blast
  then have t: "take n es ! i = map Some xs ! i" by simp
  have "i < length xs" using p i by (simp add: packed_def)
  have "es ! i = take n es ! i" using i by simp
  also have "\<dots> = Some (xs ! i)" unfolding t using \<open>i < length xs\<close> by simp
  finally show "array_load i es = Inr (xs ! i)" using p i by (auto simp: array_load_def packed_def)
qed

definition array_holds :: "'v json_array \<Rightarrow> 'v list \<Rightarrow> bool" where
  "array_holds a xs \<longleftrightarrow> packed (items a) (arr_count a) (arr_capacity a) xs"

lemma array_resized:
  assumes "array_holds a xs" and "length xs \<le> k" and "0 < k"
  shows "\<exists>a'. json_array_resize a k = Inr (True, a') \<and> array_holds a' xs \<and> arr_capacity a' = k"
proof (cases "xs = []")
  case True
  then show ?thesis using assms
    by (simp add: array_holds_def packed_def json_array_resize_def malloc_array_def)
next
  case False
  then show ?thesis using assms packed_copy[of "items a" "arr_count a" "arr_capacity a" xs k]
    by (auto simp: array_holds_def json_array_resize_def) (auto simp: packed_def)
qed

lemma array_added:
  assumes "array_holds a xs"
  shows "\<exists>a'. json_array_add v a = Inr (True, a') \<and> array_holds a' (xs @ [v])"
proof -
  obtain a1 where a1: "(if arr_capacity a \<le> arr_count a
      then json_array_resize a (max (arr_capacity a * 2) STARTING_CAPACITY) else Inr (True, a)) = Inr (True, a1)"
    "array_holds a1 xs" "length xs < arr_capacity a1"
  proof (cases "arr_capacity a \<le> arr_count a")
    case True
    let ?k = "max (arr_capacity a * 2) STARTING_CAPACITY"
    have "length xs < ?k" using True assms by (auto simp: array_holds_def packed_def STARTING_CAPACITY_def)
    then obtain a' where "json_array_resize a ?k = Inr (True, a')" "array_holds a' xs" "arr_capacity a' = ?k"
      using array_resized[OF assms, of ?k] by auto
    with True \<open>length xs < ?k\<close> show thesis using that by simp
  next
    case False
    then show thesis using that assms by (auto simp: array_holds_def packed_def)
  qed
  then obtain its where "array_store (arr_count a1) v (items a1) = Inr its"
    "packed its (arr_count a1 + 1) (arr_capacity a1) (xs @ [v])"
    using packed_store[of "items a1" "arr_count a1" "arr_capacity a1" xs v]
    by (auto simp: array_holds_def packed_def)
  then show ?thesis using a1(1) by (simp add: json_array_add_def array_holds_def)
qed

text \<open>The trimming at the end of parsing fails exactly for an array without elements.\<close>

lemma array_trimmed:
  assumes "array_holds a xs"
  shows "\<exists>ok a'. json_array_resize a (arr_count a) = Inr (ok, a') \<and> (ok \<longleftrightarrow> xs \<noteq> []) \<and> array_holds a' xs"
proof (cases "xs = []")
  case True
  then show ?thesis using assms by (intro exI[of _ False] exI[of _ a]) (simp add: json_array_resize_def array_holds_def packed_def)
next
  case False
  then show ?thesis using array_resized[OF assms, of "length xs"] assms by (auto simp: array_holds_def packed_def)
qed

definition item_push :: "'v \<Rightarrow> 'v json_array \<Rightarrow> 'v json_array res" where
  "item_push v a = bindE (json_array_add v a) (\<lambda>(ok, a1). if ok then Inr a1 else Inl Exited)"

interpretation json_items: growable json_array_init item_push array_holds
proof
  show "array_holds json_array_init []"
    by (simp add: array_holds_def packed_def json_array_init_def)
next
  fix s :: "'v json_array" and xs x
  assume "array_holds s xs"
  then show "\<exists>s'. item_push x s = Inr s' \<and> array_holds s' (xs @ [x])"
    using array_added[of s xs x] by (auto simp: item_push_def)
qed

definition object_holds :: "'v json_obj \<Rightarrow> (string \<times> 'v) list \<Rightarrow> bool" where
  "object_holds ob ms \<longleftrightarrow> packed (names ob) (obj_count ob) (obj_capacity ob) (map fst ms) \<and>
     packed (vals ob) (obj_count ob) (obj_capacity ob) (map snd ms)"

lemma object_resized:
  assumes "object_holds ob ms" and "length ms \<le> k" and "0 < k"
  shows "\<exists>ob'. json_object_resize ob k = Inr (True, ob') \<and> object_holds ob' ms \<and> obj_capacity ob' = k"
proof -
  have same: "names ob = [] \<longleftrightarrow> vals ob = []"
    using assms(1) by (auto simp: object_holds_def packed_def)
  show ?thesis
  proof (cases "names ob \<noteq> [] \<and> 0 < obj_count ob")
    case True
    obtain ns where ns: "copy_slots (obj_count ob) (names ob) (malloc_array k) = Inr ns"
      "packed ns (obj_count ob) k (map fst ms)"
      using assms(1,2) packed_copy[of "names ob" "obj_count ob" "obj_capacity ob" "map fst ms" k]
      by (auto simp: object_holds_def packed_def)
    obtain vs where vs: "copy_slots (obj_count ob) (vals ob) (malloc_array k) = Inr vs"
      "packed vs (obj_count ob) k (map snd ms)"
      using assms(1,2) packed_copy[of "vals ob" "obj_count ob" "obj_capacity ob" "map snd ms" k]
      by (auto simp: object_holds_def packed_def)
    show ?thesis using True same ns vs assms(3) by (simp add: json_object_resize_def object_holds_def)
  next
    case False
    then have "ms = []" "obj_count ob = 0" using assms(1) by (auto simp: object_holds_def packed_def)
    then show ?thesis using same assms(3)
      by (simp add: json_object_resize_def object_holds_def packed_def malloc_array_def)
  qed
qed

text \<open>The search over the arrays is the search over the list of members.\<close>

lemma found_name:
  assumes "object_holds ob ms" and "k \<le> length ms"
  shows "find_name name k ob = Inr (map_of (drop (length ms - k) ms) name)"
  using assms(2)
proof (induction k)
  case (Suc k)
  let ?i = "length ms - Suc k"
  have n: "obj_count ob = length ms" "?i < length ms" using assms(1) Suc.prems by (auto simp: object_holds_def packed_def)
  have load: "array_load ?i (names ob) = Inr (fst (ms ! ?i))" "array_load ?i (vals ob) = Inr (snd (ms ! ?i))"
    using packed_load[of "names ob" "length ms" "obj_capacity ob" "map fst ms" ?i]
      packed_load[of "vals ob" "length ms" "obj_capacity ob" "map snd ms" ?i] assms(1) n
    by (auto simp: object_holds_def)
  have "drop ?i ms = ms ! ?i # drop (length ms - k) ms"
    using Cons_nth_drop_Suc[OF n(2)] Suc.prems by (simp add: Suc_diff_Suc)
  then show ?case using Suc n load by (cases "ms ! ?i") simp
qed simp

lemma object_added:
  assumes "object_holds ob ms"
  shows "if name \<in> fst ` set ms then json_object_addn name v ob = Inr (False, ob)
    else \<exists>ob'. json_object_addn name v ob = Inr (True, ob') \<and> object_holds ob' (ms @ [(name, v)])"
proof -
  have find: "find_name name (obj_count ob) ob = Inr (map_of ms name)"
    using found_name[OF assms, of "length ms"] assms by (auto simp: object_holds_def packed_def)
  show ?thesis
  proof (cases "name \<in> fst ` set ms")
    case True
    then have "map_of ms name \<noteq> None" by (simp add: map_of_eq_None_iff)
    then show ?thesis using True find by (simp add: json_object_addn_def)
  next
    case False
    then have new: "map_of ms name = None" by (simp add: map_of_eq_None_iff)
    obtain o1 where o1: "(if obj_capacity ob \<le> obj_count ob
        then json_object_resize ob (max (obj_capacity ob * 2) STARTING_CAPACITY) else Inr (True, ob)) = Inr (True, o1)"
      "object_holds o1 ms" "length ms < obj_capacity o1"
    proof (cases "obj_capacity ob \<le> obj_count ob")
      case True
      let ?k = "max (obj_capacity ob * 2) STARTING_CAPACITY"
      have "length ms < ?k" using True assms by (auto simp: object_holds_def packed_def STARTING_CAPACITY_def)
      then obtain ob' where "json_object_resize ob ?k = Inr (True, ob')" "object_holds ob' ms" "obj_capacity ob' = ?k"
        using object_resized[OF assms, of ?k] by auto
      with True \<open>length ms < ?k\<close> show thesis using that by simp
    next
      case False
      then show thesis using that assms by (auto simp: object_holds_def packed_def)
    qed
    then have n: "obj_count o1 = length ms" by (auto simp: object_holds_def packed_def)
    obtain ns where ns: "array_store (obj_count o1) name (names o1) = Inr ns"
      "packed ns (obj_count o1 + 1) (obj_capacity o1) (map fst ms @ [name])"
      using packed_store[of "names o1" "obj_count o1" "obj_capacity o1" "map fst ms" name] o1(2,3) n
      by (auto simp: object_holds_def)
    obtain vs where vs: "array_store (obj_count o1) v (vals o1) = Inr vs"
      "packed vs (obj_count o1 + 1) (obj_capacity o1) (map snd ms @ [v])"
      using packed_store[of "vals o1" "obj_count o1" "obj_capacity o1" "map snd ms" v] o1(2,3) n
      by (auto simp: object_holds_def)
    show ?thesis using False new find o1(1) ns vs by (simp add: json_object_addn_def object_holds_def)
  qed
qed

text \<open>
  The members in the two arrays are the list of the theory \<open>Json\<close>: adding and finding agree with the
  functions there.
\<close>

theorem object_arrays_refine:
  fixes ms :: "(string \<times> 'n json) list"
  assumes "object_holds ob ms"
  shows "find_name name (obj_count ob) ob = Inr (json_object_get_value ms name)"
    and "\<exists>ok ob'. json_object_addn name v ob = Inr (ok, ob') \<and> (ok \<longleftrightarrow> json_object_add ms name v \<noteq> None) \<and>
      object_holds ob' (case json_object_add ms name v of None \<Rightarrow> ms | Some ms' \<Rightarrow> ms')"
proof -
  show "find_name name (obj_count ob) ob = Inr (json_object_get_value ms name)"
    using found_name[OF assms, of "length ms"] assms
    by (auto simp: object_holds_def packed_def json_object_get_value_map_of)
  show "\<exists>ok ob'. json_object_addn name v ob = Inr (ok, ob') \<and> (ok \<longleftrightarrow> json_object_add ms name v \<noteq> None) \<and>
      object_holds ob' (case json_object_add ms name v of None \<Rightarrow> ms | Some ms' \<Rightarrow> ms')"
  proof (cases "name \<in> fst ` set ms")
    case True
    then have "json_object_add ms name v = None"
      using json_object_add_Some[of ms name v] by (cases "json_object_add ms name v") auto
    then show ?thesis using object_added[OF assms, of name v] True assms by auto
  next
    case False
    then have "json_object_add ms name v = Some (ms @ [(name, v)])" by (simp add: json_object_add_Some)
    then show ?thesis using object_added[OF assms, of name v] False by auto
  qed
qed

end
