(* ===== verification/Json_Heap.thy ===== *)
theory Json_Heap
  imports Json_Array
begin

text \<open>
  \<open>src/PCom3/parson.c\<close>: the values of the library as objects on the heap, with the pointers that other theories
  leave out: the parent of a value, the elements and members it owns, and \<open>json_value_free\<close>. A
  \<open>JSON_Value\<close> and the \<open>JSON_Array\<close> or \<open>JSON_Object\<close> it wraps, which are made and freed together, are one
  object; the arrays inside are those of \<open>Json_Growth\<close>.
\<close>

section \<open>Values on the heap\<close>

datatype 'n content =
    HNull
  | HBoolean bool
  | HNumber 'n
  | HString string
  | HArray "addr list"
  | HObject "(string \<times> addr) list"

record 'n json_cell =
  parent :: "addr option"
  content :: "'n content"

type_synonym 'n json_heap = "'n json_cell heap"

fun children :: "'n content \<Rightarrow> addr list" where
  "children (HArray as) = as"
| "children (HObject ms) = map snd ms"
| "children _ = []"

text \<open>The functions \<open>json_value_init_...\<close> make a value without a parent.\<close>

definition init_value :: "'n content \<Rightarrow> 'n json_heap \<Rightarrow> addr \<times> 'n json_heap" where
  "init_value c h = h_alloc \<lparr>parent = None, content = c\<rparr> h"

definition json_value_get_parent :: "'n json_heap \<Rightarrow> addr option \<Rightarrow> addr option res" where
  "json_value_get_parent h value =
     (case value of None \<Rightarrow> Inr None | Some a \<Rightarrow> bindE (h_read h a) (\<lambda>c. Inr (parent c)))"

section \<open>Freeing\<close>

text \<open>
  The elements first, then the value. The recursion of the code is not bounded by anything but the tree: fuel;
  \<open>None\<close> is a call that has not returned.
\<close>

type_synonym 'n action = "'n json_heap res option"

fun free_each :: "(addr \<Rightarrow> 'n json_heap \<Rightarrow> 'n action) \<Rightarrow> addr list \<Rightarrow> 'n json_heap \<Rightarrow> 'n action" where
  "free_each f [] h = Some (Inr h)"
| "free_each f (a # as) h =
     (case f a h of Some (Inr h1) \<Rightarrow> free_each f as h1 | r \<Rightarrow> r)"

primrec json_value_free :: "nat \<Rightarrow> addr \<Rightarrow> 'n json_heap \<Rightarrow> 'n action" where
  "json_value_free 0 a h = None"
| "json_value_free (Suc n) a h =
     (case h_read h a of Inl e \<Rightarrow> Some (Inl e)
      | Inr c \<Rightarrow>
          (case free_each (json_value_free n) (children (content c)) h of
             Some (Inr h1) \<Rightarrow> Some (h_free a h1)
           | r \<Rightarrow> r))"

section \<open>Owning and disowning\<close>

text \<open>The status and the heap; a fault; or no return.\<close>

type_synonym 'n outcome = "(bool \<times> 'n json_heap) res option"

definition refused :: "'n json_heap \<Rightarrow> 'n outcome" where
  "refused h = Some (Inr (False, h))"

definition and_then :: "'n action \<Rightarrow> ('n json_heap \<Rightarrow> 'n outcome) \<Rightarrow> 'n outcome" where
  "and_then r f = (case r of None \<Rightarrow> None | Some (Inl e) \<Rightarrow> Some (Inl e) | Some (Inr h) \<Rightarrow> f h)"

definition with_cell :: "addr \<Rightarrow> 'n json_heap \<Rightarrow> ('n json_cell \<Rightarrow> 'n outcome) \<Rightarrow> 'n outcome" where
  "with_cell a h f = (case h_read h a of Inl e \<Rightarrow> Some (Inl e) | Inr c \<Rightarrow> f c)"

text \<open>\<open>value->parent = ...\<close> and a change of the elements.\<close>

definition set_parent :: "addr \<Rightarrow> addr \<Rightarrow> 'n json_heap \<Rightarrow> 'n action" where
  "set_parent v a h = Some (bindE (h_read h v) (\<lambda>c. h_write v (c\<lparr>parent := Some a\<rparr>) h))"

definition set_content :: "addr \<Rightarrow> ('n content \<Rightarrow> 'n content) \<Rightarrow> 'n json_heap \<Rightarrow> 'n outcome" where
  "set_content a f h = Some (bindE (h_read h a) (\<lambda>c.
     bindE (h_write a (c\<lparr>content := f (content c)\<rparr>) h) (\<lambda>h1. Inr (True, h1))))"

fun on_items :: "(addr list \<Rightarrow> addr list) \<Rightarrow> 'n content \<Rightarrow> 'n content" where
  "on_items f (HArray as) = HArray (f as)"
| "on_items f c = c"

fun on_members :: "((string \<times> addr) list \<Rightarrow> (string \<times> addr) list) \<Rightarrow> 'n content \<Rightarrow> 'n content" where
  "on_members f (HObject ms) = HObject (f ms)"
| "on_members f c = c"

definition heap_array_append :: "addr \<Rightarrow> addr \<Rightarrow> 'n json_heap \<Rightarrow> 'n outcome" where
  "heap_array_append a v h =
     with_cell a h (\<lambda>ca. case content ca of
        HArray as \<Rightarrow> with_cell v h (\<lambda>cv.
          if parent cv \<noteq> None then refused h
          else and_then (set_parent v a h) (set_content a (on_items (\<lambda>as. as @ [v]))))
      | _ \<Rightarrow> refused h)"

definition heap_array_replace :: "nat \<Rightarrow> addr \<Rightarrow> nat \<Rightarrow> addr \<Rightarrow> 'n json_heap \<Rightarrow> 'n outcome" where
  "heap_array_replace n a ix v h =
     with_cell a h (\<lambda>ca. case content ca of
        HArray as \<Rightarrow> with_cell v h (\<lambda>cv.
          if parent cv \<noteq> None \<or> length as \<le> ix then refused h
          else and_then (json_value_free n (as ! ix) h) (\<lambda>h1.
               and_then (set_parent v a h1) (set_content a (on_items (\<lambda>as. as[ix := v])))))
      | _ \<Rightarrow> refused h)"

definition heap_array_remove :: "nat \<Rightarrow> addr \<Rightarrow> nat \<Rightarrow> 'n json_heap \<Rightarrow> 'n outcome" where
  "heap_array_remove n a ix h =
     with_cell a h (\<lambda>ca. case content ca of
        HArray as \<Rightarrow>
          if length as \<le> ix then refused h
          else and_then (json_value_free n (as ! ix) h)
                 (set_content a (on_items (\<lambda>as. take ix as @ drop (ix + 1) as)))
      | _ \<Rightarrow> refused h)"

definition heap_array_clear :: "nat \<Rightarrow> addr \<Rightarrow> 'n json_heap \<Rightarrow> 'n outcome" where
  "heap_array_clear n a h =
     with_cell a h (\<lambda>ca. case content ca of
        HArray as \<Rightarrow> and_then (free_each (json_value_free n) as h) (set_content a (on_items (\<lambda>_. [])))
      | _ \<Rightarrow> refused h)"

text \<open>The index of the first member of a name.\<close>

fun name_index :: "(string \<times> addr) list \<Rightarrow> string \<Rightarrow> nat" where
  "name_index [] name = 0"
| "name_index ((nm, b) # ms) name = (if nm = name then 0 else Suc (name_index ms name))"

definition heap_object_set :: "nat \<Rightarrow> addr \<Rightarrow> string \<Rightarrow> addr \<Rightarrow> 'n json_heap \<Rightarrow> 'n outcome" where
  "heap_object_set n a name v h =
     with_cell a h (\<lambda>ca. case content ca of
        HObject ms \<Rightarrow> with_cell v h (\<lambda>cv.
          if parent cv \<noteq> None then refused h
          else case map_of ms name of
              Some old \<Rightarrow>
                and_then (json_value_free n old h) (\<lambda>h1.
                and_then (set_parent v a h1)
                  (set_content a (on_members (\<lambda>ms. ms[name_index ms name := (name, v)]))))
            | None \<Rightarrow> and_then (set_parent v a h) (set_content a (on_members (\<lambda>ms. ms @ [(name, v)]))))
      | _ \<Rightarrow> refused h)"

definition heap_object_remove :: "nat \<Rightarrow> addr \<Rightarrow> string \<Rightarrow> 'n json_heap \<Rightarrow> 'n outcome" where
  "heap_object_remove n a name h =
     with_cell a h (\<lambda>ca. case content ca of
        HObject ms \<Rightarrow>
          (case map_of ms name of None \<Rightarrow> refused h
           | Some old \<Rightarrow>
               and_then (json_value_free n old h)
                 (set_content a (on_members (\<lambda>ms. butlast (ms[name_index ms name := last ms])))))
      | _ \<Rightarrow> refused h)"

definition heap_object_clear :: "nat \<Rightarrow> addr \<Rightarrow> 'n json_heap \<Rightarrow> 'n outcome" where
  "heap_object_clear n a h =
     with_cell a h (\<lambda>ca. case content ca of
        HObject ms \<Rightarrow> and_then (free_each (json_value_free n) (map snd ms) h) (set_content a (on_members (\<lambda>_. [])))
      | _ \<Rightarrow> refused h)"

section \<open>The tree at an address\<close>

text \<open>
  The value at \<open>a\<close> with parent \<open>p\<close> is the tree \<open>v\<close> and lies in the addresses \<open>A\<close>; likewise for a list of
  values with one parent. No address is used twice.
\<close>

inductive val_at :: "'n json_heap \<Rightarrow> addr option \<Rightarrow> addr \<Rightarrow> 'n json \<Rightarrow> addr set \<Rightarrow> bool"
  and vals_at :: "'n json_heap \<Rightarrow> addr \<Rightarrow> addr list \<Rightarrow> 'n json list \<Rightarrow> addr set \<Rightarrow> bool"
  for h :: "'n json_heap"
where
  null_at: "h_read h a = Inr \<lparr>parent = p, content = HNull\<rparr> \<Longrightarrow> val_at h p a JNull {a}"
| boolean_at: "h_read h a = Inr \<lparr>parent = p, content = HBoolean b\<rparr> \<Longrightarrow> val_at h p a (JBoolean b) {a}"
| number_at: "h_read h a = Inr \<lparr>parent = p, content = HNumber x\<rparr> \<Longrightarrow> val_at h p a (JNumber x) {a}"
| string_at: "h_read h a = Inr \<lparr>parent = p, content = HString s\<rparr> \<Longrightarrow> val_at h p a (JString s) {a}"
| array_at: "h_read h a = Inr \<lparr>parent = p, content = HArray as\<rparr> \<Longrightarrow> vals_at h a as vs A \<Longrightarrow> a \<notin> A \<Longrightarrow>
    val_at h p a (JArray vs) (insert a A)"
| object_at: "h_read h a = Inr \<lparr>parent = p, content = HObject (zip ks as)\<rparr> \<Longrightarrow> vals_at h a as vs A \<Longrightarrow> a \<notin> A \<Longrightarrow>
    length ks = length vs \<Longrightarrow> length as = length vs \<Longrightarrow> val_at h p a (JObject (zip ks vs)) (insert a A)"
| none_at: "vals_at h q [] [] {}"
| more_at: "val_at h (Some q) a v A \<Longrightarrow> vals_at h q as vs B \<Longrightarrow> A \<inter> B = {} \<Longrightarrow> vals_at h q (a # as) (v # vs) (A \<union> B)"

inductive_simps vals_at_simps: "vals_at h q [] vs A" "vals_at h q (a # as) vs A" "vals_at h q as [] A"

lemma vals_at_length: "vals_at h q as vs A \<Longrightarrow> length as = length vs"
  by (induction as arbitrary: vs A) (auto simp: vals_at_simps)

text \<open>Only the addresses of a tree matter.\<close>

lemma tree_frame:
  "val_at h p a v A \<Longrightarrow> (\<forall>x \<in> A. h_read h' x = h_read h x) \<Longrightarrow> val_at h' p a v A"
  "vals_at h q as vs A \<Longrightarrow> (\<forall>x \<in> A. h_read h' x = h_read h x) \<Longrightarrow> vals_at h' q as vs A"
  by (induction rule: val_at_vals_at.inducts) (auto intro: val_at_vals_at.intros)

lemma root_in: "val_at h p a v A \<Longrightarrow> a \<in> A \<and> (\<exists>c. h_read h a = Inr c \<and> parent c = p)"
  by (erule val_at.cases) auto

text \<open>A tree is handed to another parent by a change of its root alone.\<close>

lemma reparent:
  assumes "val_at h p a v A" and "\<forall>x \<in> A - {a}. h_read h' x = h_read h x"
    and "\<And>c. h_read h a = Inr c \<Longrightarrow> h_read h' a = Inr (c\<lparr>parent := q\<rparr>)"
  shows "val_at h' q a v A"
  using assms(1)
proof cases
  case (array_at as vs B)
  then have "vals_at h' a as vs B" using tree_frame(2)[of h a as vs B h'] assms(2) by auto
  then show ?thesis
    unfolding array_at(1,2) using assms(3)[OF array_at(3)] array_at(5)
    by (intro val_at_vals_at.array_at) simp_all
next
  case (object_at ks as vs B)
  then have "vals_at h' a as vs B" using tree_frame(2)[of h a as vs B h'] assms(2) by auto
  then show ?thesis
    unfolding object_at(1,2) using assms(3)[OF object_at(3)] object_at(5,6,7)
    by (intro val_at_vals_at.object_at) simp_all
next
  case null_at
  then show ?thesis using assms(3)[OF null_at(3)] by (simp add: val_at_vals_at.null_at)
next
  case (boolean_at b)
  then show ?thesis using assms(3)[OF boolean_at(3)] by (simp add: val_at_vals_at.boolean_at)
next
  case (number_at x)
  then show ?thesis using assms(3)[OF number_at(3)] by (simp add: val_at_vals_at.number_at)
next
  case (string_at s)
  then show ?thesis using assms(3)[OF string_at(3)] by (simp add: val_at_vals_at.string_at)
qed

lemma vals_at_append:
  "vals_at h q (as @ bs) vs C \<longleftrightarrow>
     (\<exists>vs1 vs2 A B. vs = vs1 @ vs2 \<and> C = A \<union> B \<and> A \<inter> B = {} \<and> vals_at h q as vs1 A \<and> vals_at h q bs vs2 B)"
proof (induction as arbitrary: vs C)
  case Nil
  then show ?case by (auto simp: vals_at_simps)
next
  case (Cons a as)
  show ?case
  proof
    assume "vals_at h q ((a # as) @ bs) vs C"
    then obtain v vs' A D where c: "vs = v # vs'" "C = A \<union> D" "A \<inter> D = {}" "val_at h (Some q) a v A" "vals_at h q (as @ bs) vs' D"
      unfolding append.simps vals_at_simps by blast
    then obtain vs1 vs2 A1 B where d: "vs' = vs1 @ vs2" "D = A1 \<union> B" "A1 \<inter> B = {}" "vals_at h q as vs1 A1" "vals_at h q bs vs2 B"
      using iffD1[OF Cons.IH c(5)] by blast
    have "A \<inter> A1 = {}" using c(3) d(2) by auto
    from more_at[OF c(4) d(4) this] have "vals_at h q (a # as) (v # vs1) (A \<union> A1)" .
    moreover have "vs = (v # vs1) @ vs2" "C = (A \<union> A1) \<union> B" "(A \<union> A1) \<inter> B = {}" using c(1-3) d(1-3) by auto
    ultimately show "\<exists>vs1 vs2 A B. vs = vs1 @ vs2 \<and> C = A \<union> B \<and> A \<inter> B = {} \<and> vals_at h q (a # as) vs1 A \<and> vals_at h q bs vs2 B"
      using d(5) by blast
  next
    assume "\<exists>vs1 vs2 A B. vs = vs1 @ vs2 \<and> C = A \<union> B \<and> A \<inter> B = {} \<and> vals_at h q (a # as) vs1 A \<and> vals_at h q bs vs2 B"
    then obtain v vs1 vs2 A A1 B where c: "vs = v # vs1 @ vs2" "C = A \<union> A1 \<union> B" "(A \<union> A1) \<inter> B = {}" "A \<inter> A1 = {}"
      "val_at h (Some q) a v A" "vals_at h q as vs1 A1" "vals_at h q bs vs2 B"
      unfolding vals_at_simps by auto
    then have "vals_at h q (as @ bs) (vs1 @ vs2) (A1 \<union> B)" by (intro iffD2[OF Cons.IH]) blast
    moreover have "A \<inter> (A1 \<union> B) = {}" using c(3,4) by auto
    ultimately have "vals_at h q (a # as @ bs) (v # vs1 @ vs2) (A \<union> (A1 \<union> B))" using c(5) by (intro more_at)
    then show "vals_at h q ((a # as) @ bs) vs C" using c(1,2) by (simp add: Un_assoc)
  qed
qed

section \<open>Freeing a tree\<close>

lemma freed_frame: "freed A h h' \<Longrightarrow> A \<inter> B = {} \<Longrightarrow> \<forall>x \<in> B. h_read h' x = h_read h x"
  by (auto simp: freed_def)

lemma freed_root:
  assumes "h_read h a = Inr c" and "freed A h h1" and "a \<notin> A"
  shows "\<exists>h'. h_free a h1 = Inr h' \<and> freed (insert a A) h h'"
proof -
  have "h_read h1 a = Inr c" using assms by (simp add: freed_def)
  then obtain h' where h': "h_free a h1 = Inr h'" by (simp add: h_free_def)
  then show ?thesis using h_free_read[OF h'] assms(2) by (auto simp: freed_def)
qed

lemma leaf_freed:
  assumes "h_read h a = Inr c" and "children (content c) = []"
  shows "\<forall>n h0. size v < n \<longrightarrow> (\<forall>x \<in> {a}. h_read h0 x = h_read h x) \<longrightarrow>
    (\<exists>h'. json_value_free n a h0 = Some (Inr h') \<and> freed {a} h0 h')"
proof (intro allI impI)
  fix n and h0 :: "'a json_heap"
  assume n: "size v < n" and "\<forall>x \<in> {a}. h_read h0 x = h_read h x"
  then have c: "h_read h0 a = Inr c" using assms(1) by simp
  moreover have "freed {} h0 h0" by (simp add: freed_def)
  ultimately obtain h' where "h_free a h0 = Inr h'" "freed {a} h0 h'" using freed_root[OF c] by blast
  moreover obtain k where "n = Suc k" using n by (cases n) auto
  ultimately show "\<exists>h'. json_value_free n a h0 = Some (Inr h') \<and> freed {a} h0 h'"
    using c assms(2) by simp
qed

lemma tree_freed:
  "val_at h p a v A \<Longrightarrow> \<forall>n h0. size v < n \<longrightarrow> (\<forall>x \<in> A. h_read h0 x = h_read h x) \<longrightarrow>
     (\<exists>h'. json_value_free n a h0 = Some (Inr h') \<and> freed A h0 h')"
  "vals_at h q as vs A \<Longrightarrow> \<forall>n h0. size_list size vs \<le> n \<longrightarrow> (\<forall>x \<in> A. h_read h0 x = h_read h x) \<longrightarrow>
     (\<exists>h'. free_each (json_value_free n) as h0 = Some (Inr h') \<and> freed A h0 h')"
proof (induction rule: val_at_vals_at.inducts)
  case (array_at a p as vs A)
  show ?case
  proof (intro allI impI)
    fix n and h0 :: "'a json_heap"
    assume n: "size (JArray vs) < n" and same: "\<forall>x \<in> insert a A. h_read h0 x = h_read h x"
    then obtain k where k: "n = Suc k" "size_list size vs \<le> k" by (cases n) auto
    obtain h1 where h1: "free_each (json_value_free k) as h0 = Some (Inr h1)" "freed A h0 h1"
      using array_at(3)[rule_format, OF k(2), of h0] same by auto
    have c: "h_read h0 a = Inr \<lparr>parent = p, content = HArray as\<rparr>" using same array_at by simp
    obtain h' where "h_free a h1 = Inr h'" "freed (insert a A) h0 h'"
      using freed_root[OF c h1(2) array_at(4)] by blast
    then show "\<exists>h'. json_value_free n a h0 = Some (Inr h') \<and> freed (insert a A) h0 h'"
      using k(1) c h1(1) by simp
  qed
next
  case (object_at a p ks as vs A)
  show ?case
  proof (intro allI impI)
    fix n and h0 :: "'a json_heap"
    assume n: "size (JObject (zip ks vs)) < n" and same: "\<forall>x \<in> insert a A. h_read h0 x = h_read h x"
    have "size_list size (map snd (zip ks vs)) \<le> size_list (size_prod (\<lambda>x. 0) size) (zip ks vs)"
      unfolding size_list_map comp_def by (rule size_list_pointwise) (auto simp: size_prod_simp)
    moreover have "map snd (zip ks vs) = vs" "map snd (zip ks as) = as" using object_at by simp_all
    ultimately obtain k where k: "n = Suc k" "size_list size vs \<le> k" using n by (cases n) auto
    obtain h1 where h1: "free_each (json_value_free k) as h0 = Some (Inr h1)" "freed A h0 h1"
      using object_at(3)[rule_format, OF k(2), of h0] same by auto
    have c: "h_read h0 a = Inr \<lparr>parent = p, content = HObject (zip ks as)\<rparr>" using same object_at by simp
    obtain h' where "h_free a h1 = Inr h'" "freed (insert a A) h0 h'"
      using freed_root[OF c h1(2) object_at(4)] by blast
    then show "\<exists>h'. json_value_free n a h0 = Some (Inr h') \<and> freed (insert a A) h0 h'"
      using k(1) c h1(1) \<open>map snd (zip ks as) = as\<close> by simp
  qed
next
  case (more_at q a v A as vs B)
  show ?case
  proof (intro allI impI)
    fix n and h0 :: "'a json_heap"
    assume n: "size_list size (v # vs) \<le> n" and same: "\<forall>x \<in> A \<union> B. h_read h0 x = h_read h x"
    obtain h1 where h1: "json_value_free n a h0 = Some (Inr h1)" "freed A h0 h1"
      using more_at(2)[rule_format, of n h0] n same by auto
    have "\<forall>x \<in> B. h_read h1 x = h_read h x" using freed_frame[OF h1(2) more_at(5)] same by auto
    then obtain h2 where "free_each (json_value_free n) as h1 = Some (Inr h2)" "freed B h1 h2"
      using more_at(4)[rule_format, of n h1] n by auto
    then show "\<exists>h'. free_each (json_value_free n) (a # as) h0 = Some (Inr h') \<and> freed (A \<union> B) h0 h'"
      using h1(1) freed_trans[OF h1(2)] by auto
  qed
next
  case (none_at q)
  then show ?case by (simp add: freed_def)
qed (rule leaf_freed, assumption, simp)+

section \<open>Editing the list of elements\<close>

definition cut_out :: "nat \<Rightarrow> 'a list \<Rightarrow> 'a list" where
  "cut_out i xs = take i xs @ drop (i + 1) xs"

definition swap_out :: "nat \<Rightarrow> 'a list \<Rightarrow> 'a list" where
  "swap_out i xs = butlast (xs[i := last xs])"

lemma swap_out_last: "swap_out (length l) (l @ [c]) = l"
  by (simp add: swap_out_def list_update_append)

lemma swap_out_middle: "swap_out (length l) (l @ c # m @ [z]) = l @ z # m"
proof -
  have "(l @ c # m @ [z])[length l := last (l @ c # m @ [z])] = (l @ z # m) @ [z]"
    by (simp add: list_update_append)
  then show ?thesis unfolding swap_out_def by (simp only: butlast_snoc)
qed

lemma vals_at_join:
  "vals_at h q as vs A \<Longrightarrow> vals_at h q bs ws B \<Longrightarrow> A \<inter> B = {} \<Longrightarrow> vals_at h q (as @ bs) (vs @ ws) (A \<union> B)"
  by (intro iffD2[OF vals_at_append] exI[of _ vs] exI[of _ ws] exI[of _ A] exI[of _ B]) simp

lemma vals_at_three:
  assumes "vals_at h q l vl B" and "vals_at h q m vm C" and "vals_at h q r vr D"
    and "B \<inter> C = {}" and "B \<inter> D = {}" and "C \<inter> D = {}"
  shows "vals_at h q (l @ m @ r) (vl @ vm @ vr) (B \<union> C \<union> D)"
proof -
  have "B \<inter> (C \<union> D) = {}" using assms(4,5) by auto
  from vals_at_join[OF assms(1) vals_at_join[OF assms(2,3,6)] this] show ?thesis by (simp add: Un_assoc)
qed

lemma vals_at_one: "vals_at h q [a] vs A \<longleftrightarrow> (\<exists>v. vs = [v] \<and> val_at h (Some q) a v A)"
  by (auto simp: vals_at_simps)

text \<open>
  One element leaves the list, its place closed, or taken by the last element, or by another value:
  in any heap that agrees on the others.
\<close>

lemma take_element:
  assumes "vals_at h q as vs A" and "i < length as"
  obtains B C where "val_at h (Some q) (as ! i) (vs ! i) C" and "A = B \<union> C" and "B \<inter> C = {}"
    and "\<And>h'. \<forall>x \<in> B. h_read h' x = h_read h x \<Longrightarrow> vals_at h' q (cut_out i as) (cut_out i vs) B"
    and "\<And>h'. \<forall>x \<in> B. h_read h' x = h_read h x \<Longrightarrow> vals_at h' q (swap_out i as) (swap_out i vs) B"
    and "\<And>h' b w E. \<forall>x \<in> B. h_read h' x = h_read h x \<Longrightarrow> val_at h' (Some q) b w E \<Longrightarrow> B \<inter> E = {} \<Longrightarrow>
      vals_at h' q (as[i := b]) (vs[i := w]) (B \<union> E)"
proof -
  let ?l = "take i as" and ?c = "as ! i" and ?r = "drop (i + 1) as"
  have as: "as = ?l @ [?c] @ ?r" and li: "length ?l = i" using assms(2) by (simp_all add: Cons_nth_drop_Suc)
  have "vals_at h q (?l @ [?c] @ ?r) vs A" using assms(1) as by simp
  then obtain vl X L Y where s1: "vs = vl @ X" "A = L \<union> Y" "L \<inter> Y = {}" "vals_at h q ?l vl L" "vals_at h q ([?c] @ ?r) X Y"
    unfolding vals_at_append[of h q ?l] by blast
  then obtain v vr C R where s2: "X = [v] @ vr" "Y = C \<union> R" "C \<inter> R = {}" "val_at h (Some q) ?c v C" "vals_at h q ?r vr R"
    unfolding vals_at_append[of h q "[?c]"] vals_at_one by blast
  have lv: "length vl = i" using vals_at_length[OF s1(4)] li by simp
  have vs: "vs = vl @ v # vr" "vs ! i = v" "cut_out i vs = vl @ vr" using s1(1) s2(1) lv by (simp_all add: nth_append cut_out_def)
  let ?B = "L \<union> R"
  have dis: "L \<inter> R = {}" "L \<inter> C = {}" using s1(2,3) s2(2) by auto
  have "val_at h (Some q) ?c (vs ! i) C" "A = ?B \<union> C" "?B \<inter> C = {}"
    using s2 s1(2) dis vs(2) by auto
  moreover have keep: "vals_at h' q ?l vl L" "vals_at h' q ?r vr R" if "\<forall>x \<in> ?B. h_read h' x = h_read h x" for h'
    using tree_frame(2)[OF s1(4), of h'] tree_frame(2)[OF s2(5), of h'] that by auto
  have "vals_at h' q (cut_out i as) (cut_out i vs) ?B" if "\<forall>x \<in> ?B. h_read h' x = h_read h x" for h'
    unfolding vs(3) cut_out_def[of i as] by (rule vals_at_join[OF keep[OF that] dis(1)])
  moreover have "vals_at h' q (swap_out i as) (swap_out i vs) ?B" if h': "\<forall>x \<in> ?B. h_read h' x = h_read h x" for h'
  proof (cases ?r rule: rev_cases)
    case Nil
    then have "vr = []" "R = {}" using keep(2)[OF h'] by (simp_all add: vals_at_simps)
    then have "swap_out i as = ?l" "swap_out i vs = vl"
      using swap_out_last[of ?l ?c] swap_out_last[of vl v] as Nil vs(1) li lv by simp_all
    then show ?thesis using keep(1)[OF h'] \<open>R = {}\<close> by simp
  next
    case (snoc m z)
    then have "vals_at h' q (m @ [z]) vr R" using keep(2)[OF h'] by simp
    then obtain vm vz M Z where s3: "vr = vm @ [vz]" "R = M \<union> Z" "M \<inter> Z = {}" "vals_at h' q m vm M" "vals_at h' q [z] [vz] Z"
      unfolding vals_at_append vals_at_one by blast
    have "swap_out i as = ?l @ [z] @ m" "swap_out i vs = vl @ [vz] @ vm"
      using swap_out_middle[of ?l ?c m z] swap_out_middle[of vl v vm vz] as snoc vs(1) s3(1) li lv by simp_all
    moreover have "vals_at h' q (?l @ [z] @ m) (vl @ [vz] @ vm) (L \<union> Z \<union> M)"
      by (rule vals_at_three[OF keep(1)[OF h'] s3(5,4)]) (use dis(1) s3(2,3) in auto)
    moreover have "L \<union> Z \<union> M = ?B" using s3(2) by auto
    ultimately show ?thesis by simp
  qed
  moreover have "vals_at h' q (as[i := b]) (vs[i := w]) (?B \<union> E)"
    if h': "\<forall>x \<in> ?B. h_read h' x = h_read h x" and b: "val_at h' (Some q) b w E" "?B \<inter> E = {}" for h' b w E
  proof -
    have "as[i := b] = ?l @ [b] @ ?r" using assms(2) by (simp add: upd_conv_take_nth_drop)
    moreover have "vs[i := w] = vl @ [w] @ vr" using vs(1) lv by (simp add: list_update_append)
    moreover have "vals_at h' q (?l @ [b] @ ?r) (vl @ [w] @ vr) (L \<union> E \<union> R)"
      by (rule vals_at_three[OF keep(1)[OF h'] _ keep(2)[OF h']]) (use b dis(1) in \<open>auto simp: vals_at_one\<close>)
    moreover have "L \<union> E \<union> R = ?B \<union> E" by auto
    ultimately show ?thesis by simp
  qed
  ultimately show thesis by (rule that)
qed

lemma add_element:
  assumes "vals_at h q as vs A" and "val_at h (Some q) b w E" and "A \<inter> E = {}"
  shows "vals_at h q (as @ [b]) (vs @ [w]) (A \<union> E)"
  using vals_at_join[OF assms(1) _ assms(3), of "[b]" "[w]"] assms(2) by (simp add: vals_at_one)

section \<open>What the operations do to a tree\<close>

text \<open>Arrays and objects as one kind of container: with names or without.\<close>

definition held :: "string list option \<Rightarrow> addr list \<Rightarrow> 'n content" where
  "held ks as = (case ks of None \<Rightarrow> HArray as | Some k \<Rightarrow> HObject (zip k as))"

definition tree :: "string list option \<Rightarrow> 'n json list \<Rightarrow> 'n json" where
  "tree ks vs = (case ks of None \<Rightarrow> JArray vs | Some k \<Rightarrow> JObject (zip k vs))"

definition names_fit :: "string list option \<Rightarrow> nat \<Rightarrow> bool" where
  "names_fit ks n \<longleftrightarrow> (case ks of None \<Rightarrow> True | Some k \<Rightarrow> length k = n)"

definition container :: "'n json_heap \<Rightarrow> addr option \<Rightarrow> addr \<Rightarrow> string list option \<Rightarrow> addr list \<Rightarrow> 'n json list \<Rightarrow> addr set \<Rightarrow> bool" where
  "container h p a ks as vs A \<longleftrightarrow>
     h_read h a = Inr \<lparr>parent = p, content = held ks as\<rparr> \<and> vals_at h a as vs A \<and> a \<notin> A \<and> names_fit ks (length vs)"

lemma container_tree: "container h p a ks as vs A \<Longrightarrow> val_at h p a (tree ks vs) (insert a A)"
  by (cases ks) (auto simp: container_def held_def tree_def names_fit_def vals_at_length
      intro: array_at object_at)

lemma tree_container:
  "val_at h p a (JArray vs) A \<Longrightarrow> \<exists>as B. A = insert a B \<and> container h p a None as vs B"
  "val_at h p a (JObject ms) A \<Longrightarrow> \<exists>as B. A = insert a B \<and> container h p a (Some (map fst ms)) as (map snd ms) B"
proof -
  assume "val_at h p a (JArray vs) A"
  then show "\<exists>as B. A = insert a B \<and> container h p a None as vs B"
    by cases (auto simp: container_def held_def names_fit_def)
next
  assume "val_at h p a (JObject ms) A"
  then show "\<exists>as B. A = insert a B \<and> container h p a (Some (map fst ms)) as (map snd ms) B"
  proof cases
    case (object_at ks as vs B)
    then show ?thesis
      by (intro exI[of _ as] exI[of _ B]) (simp add: container_def held_def names_fit_def)
  qed
qed

text \<open>
  The heap from \<open>h\<close> to \<open>h'\<close> differs in the addresses \<open>D\<close> only, and of these \<open>A\<close> are in use afterwards.
\<close>

definition becomes :: "'n json_heap \<Rightarrow> 'n json_heap \<Rightarrow> addr set \<Rightarrow> addr set \<Rightarrow> bool" where
  "becomes h h' D A \<longleftrightarrow> A \<subseteq> D \<and> (\<forall>x. x \<notin> D \<longrightarrow> h_read h' x = h_read h x) \<and>
     (\<forall>x \<in> D - A. h_read h' x = Inl UseAfterFree)"

lemma content_set:
  assumes "h_read h a = Inr \<lparr>parent = p, content = k\<rparr>" and "f k = k'"
  shows "\<exists>h'. set_content a f h = Some (Inr (True, h')) \<and>
    (\<forall>x. h_read h' x = (if x = a then Inr \<lparr>parent = p, content = k'\<rparr> else h_read h x))"
proof -
  obtain h' where h': "h_write a \<lparr>parent = p, content = k'\<rparr> h = Inr h'" using assms(1) by (simp add: h_write_def)
  then show ?thesis using assms h_write_read[OF h'] by (simp add: set_content_def)
qed

lemma parent_set:
  assumes "h_read h v = Inr c"
  shows "\<exists>h'. set_parent v a h = Some (Inr h') \<and>
    (\<forall>x. h_read h' x = (if x = v then Inr (c\<lparr>parent := Some a\<rparr>) else h_read h x))"
proof -
  obtain h' where h': "h_write v (c\<lparr>parent := Some a\<rparr>) h = Inr h'" using assms by (simp add: h_write_def)
  then show ?thesis using assms h_write_read[OF h'] by (simp add: set_parent_def)
qed

text \<open>An element is freed and leaves the list.\<close>

lemma element_dropped:
  assumes c: "container h p a ks as vs A" and i: "i < length as" and n: "size (vs ! i) < n"
    and f: "f (held ks as) = held ks' as'"
    and edit: "as' = cut_out i as \<and> vs' = cut_out i vs \<or> as' = swap_out i as \<and> vs' = swap_out i vs"
    and fit: "names_fit ks' (length vs')"
  shows "\<exists>h' A'. and_then (json_value_free n (as ! i) h) (set_content a f) = Some (Inr (True, h')) \<and>
    val_at h' p a (tree ks' vs') A' \<and> becomes h h' (insert a A) A'"
proof -
  have cell: "h_read h a = Inr \<lparr>parent = p, content = held ks as\<rparr>" and vals: "vals_at h a as vs A" and a: "a \<notin> A"
    using c by (simp_all add: container_def)
  obtain B C where t: "val_at h (Some a) (as ! i) (vs ! i) C" "A = B \<union> C" "B \<inter> C = {}"
    and k1: "\<And>h'. \<forall>x \<in> B. h_read h' x = h_read h x \<Longrightarrow> vals_at h' a (cut_out i as) (cut_out i vs) B"
    and k2: "\<And>h'. \<forall>x \<in> B. h_read h' x = h_read h x \<Longrightarrow> vals_at h' a (swap_out i as) (swap_out i vs) B"
    using take_element[OF vals i] by metis
  obtain h1 where h1: "json_value_free n (as ! i) h = Some (Inr h1)" "freed C h h1"
    using tree_freed(1)[OF t(1)] n by blast
  have "h_read h1 a = Inr \<lparr>parent = p, content = held ks as\<rparr>" using h1(2) cell a t(2) by (simp add: freed_def)
  from content_set[of h1 a p "held ks as" f "held ks' as'", OF this f]
  obtain h2 where h2: "set_content a f h1 = Some (Inr (True, h2))"
    "\<And>x. h_read h2 x = (if x = a then Inr \<lparr>parent = p, content = held ks' as'\<rparr> else h_read h1 x)" by blast
  have same: "\<forall>x \<in> B. h_read h2 x = h_read h x" using h2(2) h1(2) a t(2,3) by (auto simp: freed_def)
  have "vals_at h2 a as' vs' B" using edit k1[OF same] k2[OF same] by blast
  then have "container h2 p a ks' as' vs' B" using h2(2) a t(2) fit by (simp add: container_def)
  then have "val_at h2 p a (tree ks' vs') (insert a B)" by (rule container_tree)
  moreover have "becomes h h2 (insert a A) (insert a B)"
    using h2(2) h1(2) t(2) by (auto simp: becomes_def freed_def)
  ultimately show ?thesis using h1(1) h2(1) by (auto simp: and_then_def)
qed

text \<open>Another value, with no parent, takes the place of an element, which is freed.\<close>

lemma element_replaced:
  assumes c: "container h p a ks as vs A" and i: "i < length as" and n: "size (vs ! i) < n"
    and b: "val_at h None b w E" and dis: "insert a A \<inter> E = {}"
    and f: "f (held ks as) = held ks (as[i := b])"
  shows "\<exists>h' A'. and_then (json_value_free n (as ! i) h) (\<lambda>h1. and_then (set_parent b a h1) (set_content a f)) = Some (Inr (True, h')) \<and>
    val_at h' p a (tree ks (vs[i := w])) A' \<and> becomes h h' (insert a A \<union> E) A'"
proof -
  have cell: "h_read h a = Inr \<lparr>parent = p, content = held ks as\<rparr>" and vals: "vals_at h a as vs A" and a: "a \<notin> A" "a \<notin> E"
    using c dis by (auto simp: container_def)
  obtain B C where t: "val_at h (Some a) (as ! i) (vs ! i) C" "A = B \<union> C" "B \<inter> C = {}"
    and k: "\<And>h' b w E. \<forall>x \<in> B. h_read h' x = h_read h x \<Longrightarrow> val_at h' (Some a) b w E \<Longrightarrow> B \<inter> E = {} \<Longrightarrow>
      vals_at h' a (as[i := b]) (vs[i := w]) (B \<union> E)"
    using take_element[OF vals i] by metis
  obtain h1 where h1: "json_value_free n (as ! i) h = Some (Inr h1)" "freed C h h1"
    using tree_freed(1)[OF t(1)] n by blast
  obtain cb where cb: "h_read h b = Inr cb" "b \<in> E" using root_in[OF b] by blast
  have CE: "C \<inter> E = {}" "B \<inter> E = {}" using dis t(2) by auto
  then have "h_read h1 b = Inr cb" using h1(2) cb by (auto simp: freed_def)
  from parent_set[OF this, of a] obtain h2 where h2: "set_parent b a h1 = Some (Inr h2)"
    "\<And>x. h_read h2 x = (if x = b then Inr (cb\<lparr>parent := Some a\<rparr>) else h_read h1 x)" by blast
  have "h_read h2 a = Inr \<lparr>parent = p, content = held ks as\<rparr>"
    using h2(2) h1(2) cell a t(2) cb(2) by (auto simp: freed_def)
  from content_set[of h2 a p "held ks as" f "held ks (as[i := b])", OF this f]
  obtain h3 where h3: "set_content a f h2 = Some (Inr (True, h3))"
    "\<And>x. h_read h3 x = (if x = a then Inr \<lparr>parent = p, content = held ks (as[i := b])\<rparr> else h_read h2 x)" by blast
  have same: "\<forall>x \<in> B. h_read h3 x = h_read h x"
    using h3(2) h2(2) h1(2) a(1) t(2,3) CE(2) cb(2) by (auto simp: freed_def)
  have "val_at h3 (Some a) b w E"
  proof (rule reparent[OF b])
    show "\<forall>x \<in> E - {b}. h_read h3 x = h_read h x"
      using h3(2) h2(2) h1(2) a(2) CE(1) by (auto simp: freed_def)
    show "h_read h3 b = Inr (c\<lparr>parent := Some a\<rparr>)" if "h_read h b = Inr c" for c
      using that cb h3(2) h2(2) a(2) by auto
  qed
  from k[OF same this CE(2)] have "vals_at h3 a (as[i := b]) (vs[i := w]) (B \<union> E)" .
  then have "container h3 p a ks (as[i := b]) (vs[i := w]) (B \<union> E)"
    using h3(2) a t(2) c by (simp add: container_def)
  then have "val_at h3 p a (tree ks (vs[i := w])) (insert a (B \<union> E))" by (rule container_tree)
  moreover have "becomes h h3 (insert a A \<union> E) (insert a (B \<union> E))"
    using h3(2) h2(2) h1(2) t(2) cb(2) CE(1) by (auto simp: becomes_def freed_def)
  ultimately show ?thesis using h1(1) h2(1) h3(1) by (auto simp: and_then_def)
qed

text \<open>A value without a parent is added at the end.\<close>

lemma element_added:
  assumes c: "container h p a ks as vs A" and b: "val_at h None b w E" and dis: "insert a A \<inter> E = {}"
    and f: "f (held ks as) = held ks' (as @ [b])" and fit: "names_fit ks' (length vs + 1)"
  shows "\<exists>h' A'. and_then (set_parent b a h) (set_content a f) = Some (Inr (True, h')) \<and>
    val_at h' p a (tree ks' (vs @ [w])) A' \<and> becomes h h' (insert a A \<union> E) A'"
proof -
  have cell: "h_read h a = Inr \<lparr>parent = p, content = held ks as\<rparr>" and vals: "vals_at h a as vs A" and a: "a \<notin> A" "a \<notin> E"
    using c dis by (auto simp: container_def)
  obtain cb where cb: "h_read h b = Inr cb" "b \<in> E" using root_in[OF b] by blast
  from parent_set[OF cb(1), of a] obtain h2 where h2: "set_parent b a h = Some (Inr h2)"
    "\<And>x. h_read h2 x = (if x = b then Inr (cb\<lparr>parent := Some a\<rparr>) else h_read h x)" by blast
  have "h_read h2 a = Inr \<lparr>parent = p, content = held ks as\<rparr>" using h2(2) cell a cb(2) by auto
  from content_set[of h2 a p "held ks as" f "held ks' (as @ [b])", OF this f]
  obtain h3 where h3: "set_content a f h2 = Some (Inr (True, h3))"
    "\<And>x. h_read h3 x = (if x = a then Inr \<lparr>parent = p, content = held ks' (as @ [b])\<rparr> else h_read h2 x)" by blast
  have AE: "A \<inter> E = {}" using dis by auto
  have "val_at h3 (Some a) b w E"
  proof (rule reparent[OF b])
    show "\<forall>x \<in> E - {b}. h_read h3 x = h_read h x" using h3(2) h2(2) a(2) by auto
    show "h_read h3 b = Inr (c\<lparr>parent := Some a\<rparr>)" if "h_read h b = Inr c" for c
      using that cb h3(2) h2(2) a(2) by auto
  qed
  moreover have "vals_at h3 a as vs A"
    by (rule tree_frame(2)[OF vals]) (use h3(2) h2(2) a(1) AE cb(2) in auto)
  ultimately have "vals_at h3 a (as @ [b]) (vs @ [w]) (A \<union> E)" using add_element AE by blast
  then have "container h3 p a ks' (as @ [b]) (vs @ [w]) (A \<union> E)"
    using h3(2) a fit by (simp add: container_def)
  then have "val_at h3 p a (tree ks' (vs @ [w])) (insert a (A \<union> E))" by (rule container_tree)
  moreover have "becomes h h3 (insert a A \<union> E) (insert a (A \<union> E))"
    using h3(2) h2(2) cb(2) by (auto simp: becomes_def)
  ultimately show ?thesis using h2(1) h3(1) by (auto simp: and_then_def)
qed

text \<open>All elements are freed.\<close>

lemma elements_cleared:
  assumes c: "container h p a ks as vs A" and n: "size_list size vs \<le> n"
    and f: "f (held ks as) = held ks' []" and fit: "names_fit ks' 0"
  shows "\<exists>h' A'. and_then (free_each (json_value_free n) as h) (set_content a f) = Some (Inr (True, h')) \<and>
    val_at h' p a (tree ks' []) A' \<and> becomes h h' (insert a A) A'"
proof -
  have cell: "h_read h a = Inr \<lparr>parent = p, content = held ks as\<rparr>" and vals: "vals_at h a as vs A" and a: "a \<notin> A"
    using c by (simp_all add: container_def)
  obtain h1 where h1: "free_each (json_value_free n) as h = Some (Inr h1)" "freed A h h1"
    using tree_freed(2)[OF vals] n by blast
  have "h_read h1 a = Inr \<lparr>parent = p, content = held ks as\<rparr>" using h1(2) cell a by (simp add: freed_def)
  from content_set[of h1 a p "held ks as" f "held ks' []", OF this f]
  obtain h2 where h2: "set_content a f h1 = Some (Inr (True, h2))"
    "\<And>x. h_read h2 x = (if x = a then Inr \<lparr>parent = p, content = held ks' []\<rparr> else h_read h1 x)" by blast
  have "container h2 p a ks' [] [] {}" using h2(2) fit by (simp add: container_def none_at)
  then have "val_at h2 p a (tree ks' []) {a}" using container_tree by fastforce
  moreover have "becomes h h2 (insert a A) {a}" using h2(2) h1(2) by (auto simp: becomes_def freed_def)
  ultimately show ?thesis using h1(1) h2(1) by (auto simp: and_then_def)
qed

section \<open>The operations refine those on trees\<close>

text \<open>The calls that change a container; the address is that of the value handed in.\<close>

datatype call =
    Append addr
  | Replace nat addr
  | RemoveItem nat
  | ClearItems
  | SetMember string addr
  | RemoveMember string
  | ClearMembers

fun heap_call :: "nat \<Rightarrow> addr \<Rightarrow> call \<Rightarrow> 'n json_heap \<Rightarrow> 'n outcome" where
  "heap_call n a (Append b) = heap_array_append a b"
| "heap_call n a (Replace ix b) = heap_array_replace n a ix b"
| "heap_call n a (RemoveItem ix) = heap_array_remove n a ix"
| "heap_call n a ClearItems = heap_array_clear n a"
| "heap_call n a (SetMember k b) = heap_object_set n a k b"
| "heap_call n a (RemoveMember k) = heap_object_remove n a k"
| "heap_call n a ClearMembers = heap_object_clear n a"

fun call_arg :: "call \<Rightarrow> addr option" where
  "call_arg (Append b) = Some b"
| "call_arg (Replace ix b) = Some b"
| "call_arg (SetMember k b) = Some b"
| "call_arg _ = None"

definition on_array :: "'n json \<Rightarrow> ('n json list option \<Rightarrow> bool \<times> 'n json list option) \<Rightarrow> bool \<times> 'n json" where
  "on_array v f = (case v of JArray vs \<Rightarrow> (case f (Some vs) of (st, r) \<Rightarrow> (st, JArray (the r))) | _ \<Rightarrow> (False, v))"

definition on_object :: "'n json \<Rightarrow> ('n members \<Rightarrow> bool \<times> 'n members) \<Rightarrow> bool \<times> 'n json" where
  "on_object v f = (case v of JObject ms \<Rightarrow> (case f ms of (st, r) \<Rightarrow> (st, JObject r)) | _ \<Rightarrow> (False, v))"

text \<open>The same call on trees, with the tree of the value handed in.\<close>

fun tree_call :: "call \<Rightarrow> 'n json \<Rightarrow> 'n json \<Rightarrow> bool \<times> 'n json" where
  "tree_call (Append b) w v = on_array v (\<lambda>vs. json_array_append_value vs (Some w))"
| "tree_call (Replace ix b) w v = on_array v (\<lambda>vs. json_array_replace_value vs ix (Some w))"
| "tree_call (RemoveItem ix) w v = on_array v (\<lambda>vs. json_array_remove vs ix)"
| "tree_call ClearItems w v = on_array v json_array_clear"
| "tree_call (SetMember k b) w v = on_object v (\<lambda>ms. json_object_set_value ms k (Some w))"
| "tree_call (RemoveMember k) w v = on_object v (\<lambda>ms. json_object_remove ms k)"
| "tree_call ClearMembers w v = on_object v (\<lambda>ms. case json_object_clear (Some ms) of (st, r) \<Rightarrow> (st, the r))"

definition refines :: "'n outcome \<Rightarrow> bool \<times> 'n json \<Rightarrow> 'n json_heap \<Rightarrow> addr option \<Rightarrow> addr \<Rightarrow> addr set \<Rightarrow> bool" where
  "refines r t h p a D \<longleftrightarrow>
     (case t of
        (False, v) \<Rightarrow> r = Some (Inr (False, h))
      | (True, v') \<Rightarrow> \<exists>h' A'. r = Some (Inr (True, h')) \<and> val_at h' p a v' A' \<and> becomes h h' D A')"

text \<open>Which kind of container an address holds is seen from its cell.\<close>

lemma value_cell:
  assumes "val_at h p a v A"
  obtains c where "h_read h a = Inr c" and "parent c = p"
    and "(\<exists>as. content c = HArray as) \<longleftrightarrow> (\<exists>vs. v = JArray vs)"
    and "(\<exists>ms. content c = HObject ms) \<longleftrightarrow> (\<exists>ms. v = JObject ms)"
  using assms by cases (auto intro: that)

lemma container_cell:
  "container h p a ks as vs A \<Longrightarrow> h_read h a = Inr \<lparr>parent = p, content = held ks as\<rparr>"
  "container h p a ks as vs A \<Longrightarrow> length as = length vs"
  by (auto simp: container_def vals_at_length)

lemma item_size: "i < length vs \<Longrightarrow> size (vs ! i) < size (JArray vs)"
  using size_list_estimation'[of "vs ! i" vs "size (vs ! i)" size] by (simp add: less_Suc_eq_le)

lemma edit_lengths: "i < length xs \<Longrightarrow> length (cut_out i xs) = length xs - 1"
  "i < length xs \<Longrightarrow> length (swap_out i xs) = length xs - 1"
  by (simp_all add: cut_out_def swap_out_def)

lemma append_refines:
  assumes v: "val_at h p a (JArray vs) A" and b: "val_at h None b w E" and dis: "A \<inter> E = {}"
  shows "refines (heap_array_append a b h) (tree_call (Append b) w (JArray vs)) h p a (A \<union> E)"
proof -
  obtain as B where c: "A = insert a B" "container h p a None as vs B" using tree_container(1)[OF v] by blast
  obtain cb where cb: "h_read h b = Inr cb" "parent cb = None" using root_in[OF b] by blast
  from element_added[OF c(2) b, of "on_items (\<lambda>as. as @ [b])" None] dis c(1)
  show ?thesis
    using container_cell(1)[OF c(2)] cb
    by (auto simp: heap_array_append_def with_cell_def refines_def on_array_def json_array_append_value_def
        held_def tree_def names_fit_def)
qed

lemma replace_refines:
  assumes v: "val_at h p a (JArray vs) A" and b: "val_at h None b w E" and dis: "A \<inter> E = {}" and n: "size (JArray vs) \<le> n"
  shows "refines (heap_array_replace n a ix b h) (tree_call (Replace ix b) w (JArray vs)) h p a (A \<union> E)"
proof -
  obtain as B where c: "A = insert a B" "container h p a None as vs B" using tree_container(1)[OF v] by blast
  obtain cb where cb: "h_read h b = Inr cb" "parent cb = None" using root_in[OF b] by blast
  note cell = container_cell[OF c(2)]
  show ?thesis
  proof (cases "ix < length vs")
    case True
    from element_replaced[OF c(2) _ _ b, of ix n "on_items (\<lambda>as. as[ix := b])"] item_size[OF True] dis c(1) cell(2) n True
    show ?thesis
      using cell cb by (auto simp: heap_array_replace_def with_cell_def refines_def on_array_def json_array_replace_value_def
        held_def tree_def names_fit_def)
  next
    case False
    then show ?thesis using cell cb
      by (simp add: heap_array_replace_def with_cell_def refines_def on_array_def json_array_replace_value_def held_def refused_def)
  qed
qed

lemma remove_refines:
  assumes v: "val_at h p a (JArray vs) A" and n: "size (JArray vs) \<le> n"
  shows "refines (heap_array_remove n a ix h) (tree_call (RemoveItem ix) w (JArray vs)) h p a A"
proof -
  obtain as B where c: "A = insert a B" "container h p a None as vs B" using tree_container(1)[OF v] by blast
  note cell = container_cell[OF c(2)]
  show ?thesis
  proof (cases "ix < length vs")
    case True
    from element_dropped[OF c(2), of ix n "on_items (\<lambda>as. take ix as @ drop (ix + 1) as)" None "cut_out ix as" "cut_out ix vs"]
      item_size[OF True] c(1) cell(2) n True
    show ?thesis
      using cell by (auto simp: heap_array_remove_def with_cell_def refines_def on_array_def json_array_remove_def
        held_def tree_def names_fit_def cut_out_def)
  next
    case False
    then show ?thesis using cell
      by (simp add: heap_array_remove_def with_cell_def refines_def on_array_def json_array_remove_def held_def refused_def)
  qed
qed

lemma clear_refines:
  assumes v: "val_at h p a (JArray vs) A" and n: "size (JArray vs) \<le> n"
  shows "refines (heap_array_clear n a h) (tree_call ClearItems w (JArray vs)) h p a A"
proof -
  obtain as B where c: "A = insert a B" "container h p a None as vs B" using tree_container(1)[OF v] by blast
  from elements_cleared[OF c(2), of n "on_items (\<lambda>_. [])" None] c(1) n
  show ?thesis
    using container_cell[OF c(2)]
    by (auto simp: heap_array_clear_def with_cell_def refines_def on_array_def json_array_clear_def
        held_def tree_def names_fit_def)
qed

text \<open>Members by their names, in the two lists that make them up.\<close>

fun key_index :: "string list \<Rightarrow> string \<Rightarrow> nat" where
  "key_index [] name = 0"
| "key_index (k # ks) name = (if k = name then 0 else Suc (key_index ks name))"

lemma key_index_found: "name \<in> set ks \<Longrightarrow> key_index ks name < length ks \<and> ks ! key_index ks name = name"
  by (induction ks) auto

lemma name_index_zip: "length ks = length as \<Longrightarrow> name_index (zip ks as) name = key_index ks name"
  by (induction ks as rule: list_induct2) auto

lemma member_index_zip: "length ks = length vs \<Longrightarrow> member_index (zip ks vs) name = key_index ks name"
  by (induction ks vs rule: list_induct2) auto

lemmas index_of_zip = name_index_zip member_index_zip

lemma map_of_zip_index:
  "length ks = length as \<Longrightarrow> map_of (zip ks as) name = (if name \<in> set ks then Some (as ! key_index ks name) else None)"
  by (induction ks as rule: list_induct2) auto

lemma replace_zip:
  "length ks = length vs \<Longrightarrow> name \<in> set ks \<Longrightarrow> replace_value (zip ks vs) name w = zip ks (vs[key_index ks name := w])"
  by (induction ks vs rule: list_induct2) auto

lemma update_member_zip:
  "name \<in> set ks \<Longrightarrow> (zip ks as)[key_index ks name := (name, b)] = zip ks (as[key_index ks name := b])"
  using key_index_found[of name ks] list_update_id[of ks "key_index ks name"] by (simp add: update_zip)

lemma last_zip: "length ks = length as \<Longrightarrow> ks \<noteq> [] \<Longrightarrow> last (zip ks as) = (last ks, last as)"
  by (induction ks as rule: list_induct2) auto

lemma butlast_zip: "length ks = length as \<Longrightarrow> butlast (zip ks as) = zip (butlast ks) (butlast as)"
  by (simp add: butlast_conv_take take_zip)

lemma swap_zip:
  "length ks = length as \<Longrightarrow> ks \<noteq> [] \<Longrightarrow> butlast ((zip ks as)[i := last (zip ks as)]) = zip (swap_out i ks) (swap_out i as)"
  by (simp add: swap_out_def last_zip butlast_zip update_zip)

lemma object_refines_start:
  assumes v: "val_at h p a (JObject ms) A"
  obtains ks as vs B where "ms = zip ks vs" "length ks = length as" "length ks = length vs" "A = insert a B"
    "container h p a (Some ks) as vs B" "h_read h a = Inr \<lparr>parent = p, content = HObject (zip ks as)\<rparr>"
proof -
  obtain as B where c: "A = insert a B" "container h p a (Some (map fst ms)) as (map snd ms) B"
    using tree_container(2)[OF v] by blast
  show thesis
    by (rule that[of "map fst ms" "map snd ms" as B])
      (use c container_cell[OF c(2)] in \<open>simp_all add: zip_map_fst_snd held_def\<close>)
qed

lemma member_size: "i < length vs \<Longrightarrow> length ks = length vs \<Longrightarrow> size (vs ! i) < size (JObject (zip ks vs))"
proof -
  assume i: "i < length vs" and l: "length ks = length vs"
  then have "(ks ! i, vs ! i) \<in> set (zip ks vs)" by (auto simp: in_set_zip)
  then have "size_prod (\<lambda>x. 0) size (ks ! i, vs ! i) \<le> size_list (size_prod (\<lambda>x. 0) size) (zip ks vs)"
    by (intro size_list_estimation') auto
  moreover have "size_prod (\<lambda>x. 0) size (ks ! i, vs ! i) = Suc (size (vs ! i))" by (simp add: size_prod_simp)
  moreover have "size (JObject (zip ks vs)) = Suc (size_list (size_prod (\<lambda>x. 0) size) (zip ks vs))" by simp
  ultimately show ?thesis by linarith
qed

lemma set_refines:
  assumes v: "val_at h p a (JObject ms) A" and b: "val_at h None b w E" and dis: "A \<inter> E = {}" and n: "size (JObject ms) \<le> n"
  shows "refines (heap_object_set n a name b h) (tree_call (SetMember name b) w (JObject ms)) h p a (A \<union> E)"
proof -
  obtain ks as vs B where m: "ms = zip ks vs" "length ks = length as" "length ks = length vs" "A = insert a B"
    "container h p a (Some ks) as vs B" "h_read h a = Inr \<lparr>parent = p, content = HObject (zip ks as)\<rparr>"
    using object_refines_start[OF v] by metis
  obtain cb where cb: "h_read h b = Inr cb" "parent cb = None" using root_in[OF b] by blast
  show ?thesis
  proof (cases "name \<in> set ks")
    case True
    let ?i = "key_index ks name"
    have i: "?i < length as" using key_index_found[OF True] m(2) by simp
    have sz: "size (vs ! ?i) < n" using member_size[of ?i vs ks] i m(1-3) n by simp
    have f: "on_members (\<lambda>ms. ms[name_index ms name := (name, b)]) (held (Some ks) as) = held (Some ks) (as[?i := b])"
      using update_member_zip[OF True] m(2) by (simp add: held_def index_of_zip)
    have ex: "insert a B \<inter> E = {}" using dis m(4) by simp
    from element_replaced[of h p a "Some ks" as vs B ?i n b w E "on_members (\<lambda>ms. ms[name_index ms name := (name, b)])",
        OF m(5) i sz b ex f] m(4) obtain h' A' where
      r: "and_then (json_value_free n (as ! ?i) h) (\<lambda>h1. and_then (set_parent b a h1)
           (set_content a (on_members (\<lambda>ms. ms[name_index ms name := (name, b)])))) = Some (Inr (True, h'))"
         "val_at h' p a (JObject (zip ks (vs[?i := w]))) A'" "becomes h h' (A \<union> E) A'"
      by (auto simp: tree_def)
    have "json_object_set_value ms name (Some w) = (True, zip ks (vs[?i := w]))"
      using True m(1,3) by (simp add: json_object_set_value_def json_object_get_value_map_of map_of_zip_index replace_zip)
    then show ?thesis using r True m(2,6) cb
      by (auto simp: heap_object_set_def with_cell_def refines_def on_object_def map_of_zip_index)
  next
    case False
    have f: "on_members (\<lambda>ms. ms @ [(name, b)]) (held (Some ks) as) = held (Some (ks @ [name])) (as @ [b])"
      using m(2) by (simp add: held_def)
    have ex: "insert a B \<inter> E = {}" using dis m(4) by simp
    have fit: "names_fit (Some (ks @ [name])) (length vs + 1)" using m(3) by (simp add: names_fit_def)
    from element_added[of h p a "Some ks" as vs B b w E "on_members (\<lambda>ms. ms @ [(name, b)])", OF m(5) b ex f fit] m(3,4) obtain h' A' where
      r: "and_then (set_parent b a h) (set_content a (on_members (\<lambda>ms. ms @ [(name, b)]))) = Some (Inr (True, h'))"
         "val_at h' p a (JObject (zip ks vs @ [(name, w)])) A'" "becomes h h' (A \<union> E) A'"
      by (auto simp: tree_def names_fit_def)
    have "json_object_add ms name w = Some (ms @ [(name, w)])"
      using False m(1,3) by (simp add: json_object_add_Some) (metis in_set_zipE surj_pair fst_conv imageE)
    moreover have "map_of ms name = None" using False m(1,3) by (simp add: map_of_zip_index)
    ultimately have "json_object_set_value ms name (Some w) = (True, zip ks vs @ [(name, w)])"
      using m(1) by (simp add: json_object_set_value_def json_object_get_value_map_of)
    then show ?thesis using r False m(2,6) cb
      by (auto simp: heap_object_set_def with_cell_def refines_def on_object_def map_of_zip_index)
  qed
qed

lemma member_removed_refines:
  assumes v: "val_at h p a (JObject ms) A" and n: "size (JObject ms) \<le> n"
  shows "refines (heap_object_remove n a name h) (tree_call (RemoveMember name) w (JObject ms)) h p a A"
proof -
  obtain ks as vs B where m: "ms = zip ks vs" "length ks = length as" "length ks = length vs" "A = insert a B"
    "container h p a (Some ks) as vs B" "h_read h a = Inr \<lparr>parent = p, content = HObject (zip ks as)\<rparr>"
    using object_refines_start[OF v] by metis
  show ?thesis
  proof (cases "name \<in> set ks")
    case True
    let ?i = "key_index ks name"
    have i: "?i < length as" "ks \<noteq> []" using key_index_found[OF True] m(2) True by auto
    have sz: "size (vs ! ?i) < n" using member_size[of ?i vs ks] i m(1-3) n by simp
    have f: "on_members (\<lambda>ms. butlast (ms[name_index ms name := last ms])) (held (Some ks) as)
        = held (Some (swap_out ?i ks)) (swap_out ?i as)"
      using swap_zip[OF m(2) i(2)] m(2) by (simp add: held_def index_of_zip)
    have fit: "names_fit (Some (swap_out ?i ks)) (length (swap_out ?i vs))"
      using m(3) by (simp add: names_fit_def swap_out_def)
    from element_dropped[of h p a "Some ks" as vs B ?i n "on_members (\<lambda>ms. butlast (ms[name_index ms name := last ms]))"
        "Some (swap_out ?i ks)" "swap_out ?i as" "swap_out ?i vs", OF m(5) i(1) sz f disjI2[OF conjI[OF refl refl]] fit] m(4) obtain h' A' where
      r: "and_then (json_value_free n (as ! ?i) h) (set_content a (on_members (\<lambda>ms. butlast (ms[name_index ms name := last ms]))))
            = Some (Inr (True, h'))"
         "val_at h' p a (JObject (zip (swap_out ?i ks) (swap_out ?i vs))) A'" "becomes h h' A A'"
      by (auto simp: tree_def)
    have "json_object_remove ms name = (True, zip (swap_out ?i ks) (swap_out ?i vs))"
      using True m(1,3) swap_zip[OF m(3) i(2), of ?i]
      by (simp add: json_object_remove_def json_object_remove_internal_def json_object_get_value_map_of map_of_zip_index index_of_zip)
    then show ?thesis using r True m(2,6)
      by (auto simp: heap_object_remove_def with_cell_def refines_def on_object_def map_of_zip_index)
  next
    case False
    then have "json_object_remove ms name = (False, ms)"
      using m(1,3) by (simp add: json_object_remove_def json_object_remove_internal_def json_object_get_value_map_of map_of_zip_index)
    then show ?thesis using False m(2,6)
      by (simp add: heap_object_remove_def with_cell_def refines_def on_object_def map_of_zip_index refused_def)
  qed
qed

lemma members_cleared_refines:
  assumes v: "val_at h p a (JObject ms) A" and n: "size (JObject ms) \<le> n"
  shows "refines (heap_object_clear n a h) (tree_call ClearMembers w (JObject ms)) h p a A"
proof -
  obtain ks as vs B where m: "ms = zip ks vs" "length ks = length as" "length ks = length vs" "A = insert a B"
    "container h p a (Some ks) as vs B" "h_read h a = Inr \<lparr>parent = p, content = HObject (zip ks as)\<rparr>"
    using object_refines_start[OF v] by metis
  have "size_list size (map snd (zip ks vs)) \<le> size_list (size_prod (\<lambda>x. 0) size) (zip ks vs)"
    unfolding size_list_map comp_def by (rule size_list_pointwise) (auto simp: size_prod_simp)
  then have sz: "size_list size vs \<le> n" using n m(1,3) by simp
  from elements_cleared[OF m(5) sz, of "on_members (\<lambda>_. [])" "Some []"] m(4)
  show ?thesis using m(2,6)
    by (auto simp: heap_object_clear_def with_cell_def refines_def on_object_def json_object_clear_def
        held_def tree_def names_fit_def)
qed

lemma wrong_kind:
  assumes "val_at h p a v A"
  shows "\<nexists>vs. v = JArray vs \<Longrightarrow> heap_array_append a b h = refused h \<and> heap_array_replace n a ix b h = refused h \<and>
      heap_array_remove n a ix h = refused h \<and> heap_array_clear n a h = refused h"
    and "\<nexists>ms. v = JObject ms \<Longrightarrow> heap_object_set n a k b h = refused h \<and>
      heap_object_remove n a k h = refused h \<and> heap_object_clear n a h = refused h"
proof -
  obtain c where c: "h_read h a = Inr c" "(\<exists>as. content c = HArray as) \<longleftrightarrow> (\<exists>vs. v = JArray vs)"
    "(\<exists>ms. content c = HObject ms) \<longleftrightarrow> (\<exists>ms. v = JObject ms)"
    using value_cell[OF assms] by metis
  show "\<nexists>vs. v = JArray vs \<Longrightarrow> heap_array_append a b h = refused h \<and> heap_array_replace n a ix b h = refused h \<and>
      heap_array_remove n a ix h = refused h \<and> heap_array_clear n a h = refused h"
    using c(1,2) by (auto simp: heap_array_append_def heap_array_replace_def heap_array_remove_def heap_array_clear_def
        with_cell_def split: content.splits)
  show "\<nexists>ms. v = JObject ms \<Longrightarrow> heap_object_set n a k b h = refused h \<and>
      heap_object_remove n a k h = refused h \<and> heap_object_clear n a h = refused h"
    using c(1,3) by (auto simp: heap_object_set_def heap_object_remove_def heap_object_clear_def
        with_cell_def split: content.splits)
qed

fun array_call :: "call \<Rightarrow> bool" where
  "array_call (SetMember k b) \<longleftrightarrow> False"
| "array_call (RemoveMember k) \<longleftrightarrow> False"
| "array_call ClearMembers \<longleftrightarrow> False"
| "array_call c \<longleftrightarrow> True"

lemma call_refines:
  assumes v: "val_at h p a v A" and n: "size v \<le> n"
    and arg: "case call_arg c of None \<Rightarrow> E = {} | Some b \<Rightarrow> val_at h None b w E \<and> A \<inter> E = {}"
  shows "refines (heap_call n a c h) (tree_call c w v) h p a (A \<union> E)"
proof (cases "if array_call c then \<exists>vs. v = JArray vs else \<exists>ms. v = JObject ms")
  case True
  then show ?thesis
    using assms append_refines replace_refines remove_refines clear_refines set_refines member_removed_refines members_cleared_refines
    by (cases c) (auto simp del: tree_call.simps)
next
  case False
  have "tree_call c w v = (False, v)" using False by (cases c; cases v) (auto simp: on_array_def on_object_def)
  moreover have "heap_call n a c h = refused h" using False wrong_kind[OF v] by (cases c) auto
  ultimately show ?thesis by (simp add: refines_def refused_def)
qed

text \<open>A value that has a parent, or is no value any more, is not taken.\<close>

lemma owned_refused:
  assumes v: "val_at h p a v A" and b: "call_arg c = Some b" and cb: "h_read h b = Inr cb" "parent cb \<noteq> None"
  shows "heap_call n a c h = Some (Inr (False, h))"
proof -
  obtain ca where "h_read h a = Inr ca" using value_cell[OF v] by metis
  then show ?thesis using b cb
    by (cases c) (auto simp: heap_array_append_def heap_array_replace_def heap_object_set_def with_cell_def refused_def
        split: content.splits)
qed

section \<open>Properties\<close>

text \<open>
  C22: the operations on the heap refine those on trees. On a container whose tree lies in \<open>A\<close>, with enough fuel and with a value
  that has no parent and lies in \<open>E\<close>, apart from \<open>A\<close>, every call that appends, replaces, sets, removes or clears
  terminates without a fault, with the status that the function on trees has; refused, it leaves the heap as it
  is; done, the container is the tree that function gives, the value handed in belongs to it, what it replaced is freed, and
  nothing outside \<open>A\<close> and \<open>E\<close> has changed.
\<close>

theorem heap_call_refines_tree:
  assumes "val_at h p a v A" and "size v \<le> n"
    and "case call_arg c of None \<Rightarrow> E = {} | Some b \<Rightarrow> val_at h None b w E \<and> A \<inter> E = {}"
  shows "case tree_call c w v of
      (False, _) \<Rightarrow> heap_call n a c h = Some (Inr (False, h))
    | (True, v') \<Rightarrow> \<exists>h' A'. heap_call n a c h = Some (Inr (True, h')) \<and> val_at h' p a v' A' \<and> A' \<subseteq> A \<union> E \<and>
        (\<forall>x. x \<notin> A \<union> E \<longrightarrow> h_read h' x = h_read h x) \<and> (\<forall>x \<in> A \<union> E - A'. h_read h' x = Inl UseAfterFree)"
  using call_refines[OF assms] unfolding refines_def becomes_def .

definition demo_heap :: "int json_heap" where
  "demo_heap =
     [Some \<lparr>parent = None, content = HObject [(''a'', 1), (''b'', 2)]\<rparr>, Some \<lparr>parent = Some 0, content = HNull\<rparr>,
      Some \<lparr>parent = Some 0, content = HArray []\<rparr>, Some \<lparr>parent = None, content = HNumber 7\<rparr>]"

lemma demo_trees:
  "val_at demo_heap None 0 (JObject [(''a'', JNull), (''b'', JArray [])]) {0, 1, 2}"
  "val_at demo_heap None 3 (JNumber 7) {3}"
proof -
  have reads: "h_read demo_heap 0 = Inr \<lparr>parent = None, content = HObject (zip [''a'', ''b''] [1, 2])\<rparr>"
    "h_read demo_heap 1 = Inr \<lparr>parent = Some 0, content = HNull\<rparr>"
    "h_read demo_heap 2 = Inr \<lparr>parent = Some 0, content = HArray []\<rparr>"
    "h_read demo_heap 3 = Inr \<lparr>parent = None, content = HNumber 7\<rparr>"
    by (simp_all add: demo_heap_def h_read_def)
  have n: "val_at demo_heap (Some 0) 1 JNull {1}" by (rule null_at[OF reads(2)])
  have e: "val_at demo_heap (Some 0) 2 (JArray []) {2}" using array_at[OF reads(3) none_at] by simp
  have "vals_at demo_heap 0 [1, 2] [JNull, JArray []] {1, 2}"
    using more_at[OF n more_at[OF e none_at]] by (simp add: insert_commute)
  from object_at[OF reads(1) this]
  show "val_at demo_heap None 0 (JObject [(''a'', JNull), (''b'', JArray [])]) {0, 1, 2}" by simp
  show "val_at demo_heap None 3 (JNumber 7) {3}" by (rule number_at[OF reads(4)])
qed

lemma heap_call_refines_tree_witness:
  "\<exists>h' A'. heap_call 9 0 (SetMember ''b'' 3) demo_heap = Some (Inr (True, h')) \<and>
     val_at h' None 0 (JObject [(''a'', JNull), (''b'', JNumber 7)]) A' \<and> A' \<subseteq> {0, 1, 2, 3}"
  using heap_call_refines_tree[OF demo_trees(1), where n = 9 and c = "SetMember ''b'' 3" and E = "{3}" and w = "JNumber 7"]
    demo_trees(2)
  by (auto simp: on_object_def json_object_set_value_def json_object_get_value_map_of insert_commute)

end
