(* ===== verification/Json_Copy.thy ===== *)
theory Json_Copy
  imports Json_Heap Json_Compare
begin

text \<open>
  \<open>src/PCom3/parson.c\<close>: \<open>json_value_deep_copy\<close> on the heap. The copy is a tree of new objects that has the
  value which the function on trees gives; a copy that fails frees what it has made.
\<close>

section \<open>Copying\<close>

text \<open>The copy, if there is one, and the heap; a fault; or no return.\<close>

type_synonym 'n copied = "(addr option \<times> 'n json_heap) res option"

definition heap_array_add :: "addr \<Rightarrow> addr \<Rightarrow> 'n json_heap \<Rightarrow> 'n outcome" where
  "heap_array_add a v h =
     with_cell a h (\<lambda>ca. case content ca of
        HArray as \<Rightarrow> and_then (set_parent v a h) (set_content a (on_items (\<lambda>as. as @ [v])))
      | _ \<Rightarrow> refused h)"

definition heap_object_add :: "string \<Rightarrow> addr \<Rightarrow> addr \<Rightarrow> 'n json_heap \<Rightarrow> 'n outcome" where
  "heap_object_add name a v h =
     with_cell a h (\<lambda>ca. case content ca of
        HObject ms \<Rightarrow>
          if map_of ms name \<noteq> None then refused h
          else and_then (set_parent v a h) (set_content a (on_members (\<lambda>ms. ms @ [(name, v)])))
      | _ \<Rightarrow> refused h)"

text \<open>A copy is given up: the values made so far are freed.\<close>

definition give_up :: "nat \<Rightarrow> addr list \<Rightarrow> 'n json_heap \<Rightarrow> 'n copied" where
  "give_up n as h = map_option (map_sum id (Pair None)) (free_each (json_value_free n) as h)"

text \<open>
  The loop over the elements: each is copied and added to the copy at \<open>r\<close>. The new objects lie apart from the
  original, so its elements are taken once, before the loop.
\<close>

fun copy_each :: "(addr option \<Rightarrow> 'n json_heap \<Rightarrow> 'n copied) \<Rightarrow> nat \<Rightarrow> addr \<Rightarrow>
    ((addr \<Rightarrow> addr \<Rightarrow> 'n json_heap \<Rightarrow> 'n outcome) \<times> addr option) list \<Rightarrow> 'n json_heap \<Rightarrow> 'n copied" where
  "copy_each f n r [] h = Some (Inr (Some r, h))"
| "copy_each f n r ((add, v) # todo) h =
     (case f v h of
        Some (Inr (None, h1)) \<Rightarrow> give_up n [r] h1
      | Some (Inr (Some b, h1)) \<Rightarrow>
          (case add r b h1 of
             Some (Inr (True, h2)) \<Rightarrow> copy_each f n r todo h2
           | Some (Inr (False, h2)) \<Rightarrow> give_up n [r, b] h2
           | Some (Inl e) \<Rightarrow> Some (Inl e)
           | None \<Rightarrow> None)
      | res \<Rightarrow> res)"

definition made :: "'n content \<Rightarrow> 'n json_heap \<Rightarrow> 'n copied" where
  "made k h = (case init_value k h of (a, h') \<Rightarrow> Some (Inr (Some a, h')))"

primrec heap_deep_copy :: "nat \<Rightarrow> 'n numbers \<Rightarrow> addr option \<Rightarrow> 'n json_heap \<Rightarrow> 'n copied" where
  "heap_deep_copy 0 N value h = None"
| "heap_deep_copy (Suc n) N value h =
     (case value of None \<Rightarrow> Some (Inr (None, h))
      | Some a \<Rightarrow>
         (case h_read h a of Inl e \<Rightarrow> Some (Inl e)
          | Inr c \<Rightarrow>
             (case content c of
                HArray as \<Rightarrow>
                  (let (r, h1) = init_value (HArray []) h
                   in copy_each (heap_deep_copy n N) n r (map (\<lambda>v. (heap_array_add, Some v)) as) h1)
              | HObject ms \<Rightarrow>
                  (let (r, h1) = init_value (HObject []) h
                   in copy_each (heap_deep_copy n N) n r (map (\<lambda>k. (heap_object_add k, map_of ms k)) (map fst ms)) h1)
              | HNumber x \<Rightarrow> if number_invalid N x then Some (Inr (None, h)) else made (HNumber x) h
              | k \<Rightarrow> made k h)))"

section \<open>The loop on trees\<close>

text \<open>The two loops of the function on trees as one: what to copy, and how it is added.\<close>

fun copied_tree :: "'n numbers \<Rightarrow> ('n json \<times> ('n json \<Rightarrow> 'n json \<Rightarrow> 'n json option)) list \<Rightarrow> 'n json \<Rightarrow> 'n json option" where
  "copied_tree N [] V = Some V"
| "copied_tree N ((v, g) # todo) V =
     (case json_value_deep_copy N v of None \<Rightarrow> None
      | Some w \<Rightarrow> (case g w V of None \<Rightarrow> None | Some V' \<Rightarrow> copied_tree N todo V'))"

definition add_item :: "'n json \<Rightarrow> 'n json \<Rightarrow> 'n json option" where
  "add_item w V = (case V of JArray vs \<Rightarrow> Some (JArray (vs @ [w])) | _ \<Rightarrow> None)"

definition add_member :: "string \<Rightarrow> 'n json \<Rightarrow> 'n json \<Rightarrow> 'n json option" where
  "add_member k w V = (case V of JObject ms \<Rightarrow> map_option JObject (json_object_add ms k w) | _ \<Rightarrow> None)"

lemma copied_items: "copy_items N vs acc = copied_tree N (map (\<lambda>v. (v, add_item)) vs) (JArray acc)"
  by (induction vs arbitrary: acc) (auto simp: add_item_def split: option.splits)

lemma copied_members:
  "(\<And>k. k \<in> set ks \<Longrightarrow> json_object_get_value ms k = Some (get k)) \<Longrightarrow>
   copy_members N ms ks acc = copied_tree N (map (\<lambda>k. (get k, add_member k)) ks) (JObject acc)"
proof (induction ks arbitrary: acc)
  case (Cons k ks)
  have "json_object_get_value ms k = Some (get k)" using Cons.prems by simp
  then show ?case using Cons.IH Cons.prems by (auto simp: add_member_def split: option.splits)
qed simp

section \<open>New objects beside the old\<close>

text \<open>From \<open>h\<close> to \<open>h'\<close> the addresses \<open>B\<close> came into use, and nothing else changed.\<close>

definition extends :: "'n json_heap \<Rightarrow> 'n json_heap \<Rightarrow> addr set \<Rightarrow> bool" where
  "extends h h' B \<longleftrightarrow> (\<forall>x \<in> B. h_read h x = Inl UseAfterFree) \<and> (\<forall>x. x \<notin> B \<longrightarrow> h_read h' x = h_read h x)"

lemma extends_apart: "extends h h' B \<Longrightarrow> \<forall>x \<in> A. \<exists>c. h_read h x = Inr c \<Longrightarrow> A \<inter> B = {}"
  by (force simp: extends_def)

lemma extends_same:
  assumes "extends h h' B" and "\<forall>x \<in> A. \<exists>c. h_read h x = Inr c"
  shows "\<forall>x \<in> A. h_read h' x = h_read h x"
  using extends_apart[OF assms] assms(1) by (auto simp: extends_def)

lemma extends_freed:
  assumes e: "extends h h1 B" and f: "freed B h1 h2"
  shows "extends h h2 {}"
  unfolding extends_def
proof (intro conjI ballI allI impI)
  show "h_read h2 x = h_read h x" for x using e f by (cases "x \<in> B") (simp_all add: extends_def freed_def)
qed simp

lemma extends_trans: "extends h h1 B \<Longrightarrow> extends h1 h2 E \<Longrightarrow> B \<inter> E = {} \<Longrightarrow> extends h h2 (B \<union> E)"
  unfolding extends_def by (metis IntI UnE UnI1 UnI2 emptyE)

lemma extends_becomes:
  assumes e: "extends h h1 D" and b: "becomes h1 h2 D A"
  shows "extends h h2 A"
  unfolding extends_def
proof (intro conjI ballI allI impI)
  show "h_read h x = Inl UseAfterFree" if "x \<in> A" for x
    using that e b by (auto simp: extends_def becomes_def)
  show "h_read h2 x = h_read h x" if "x \<notin> A" for x
    using that e b by (cases "x \<in> D") (auto simp: extends_def becomes_def)
qed

lemma extends_init: "init_value k h = (a, h') \<Longrightarrow> extends h h' {a}"
  using h_alloc_fresh[of _ h a h'] h_alloc_read[of _ h a h'] unfolding init_value_def extends_def by simp

lemma extends_none: "extends h h {}"
  by (simp add: extends_def)

lemma tree_all_live:
  "val_at h p a v A \<Longrightarrow> \<forall>x \<in> A. \<exists>c. h_read h x = Inr c"
  "vals_at h q as vs A \<Longrightarrow> \<forall>x \<in> A. \<exists>c. h_read h x = Inr c"
  by (induction rule: val_at_vals_at.inducts) auto

section \<open>The copy refines the copy of trees\<close>

definition copy_result :: "'n json_heap \<Rightarrow> 'n json option \<Rightarrow> 'n copied \<Rightarrow> bool" where
  "copy_result h t res \<longleftrightarrow>
     (case t of
        None \<Rightarrow> \<exists>h'. res = Some (Inr (None, h')) \<and> extends h h' {}
      | Some w \<Rightarrow> \<exists>b h' B. res = Some (Inr (Some b, h')) \<and> val_at h' None b w B \<and> extends h h' B)"

definition copies_at :: "'n numbers \<Rightarrow> 'n json_heap \<Rightarrow> addr \<Rightarrow> 'n json \<Rightarrow> addr set \<Rightarrow> bool" where
  "copies_at N h a v A \<longleftrightarrow> (\<exists>m. \<forall>n \<ge> m. \<forall>h0. (\<forall>x \<in> A. h_read h0 x = h_read h x) \<longrightarrow>
     copy_result h0 (json_value_deep_copy N v) (heap_deep_copy n N (Some a) h0))"

definition adds :: "(addr \<Rightarrow> addr \<Rightarrow> 'n json_heap \<Rightarrow> 'n outcome) \<Rightarrow> ('n json \<Rightarrow> 'n json \<Rightarrow> 'n json option) \<Rightarrow> bool" where
  "adds f g \<longleftrightarrow> (\<forall>h r V B b w E. val_at h None r V B \<longrightarrow> val_at h None b w E \<longrightarrow> B \<inter> E = {} \<longrightarrow>
     (case g w V of
        None \<Rightarrow> f r b h = Some (Inr (False, h))
      | Some V' \<Rightarrow> \<exists>h' A. f r b h = Some (Inr (True, h')) \<and> val_at h' None r V' A \<and> becomes h h' (B \<union> E) A))"

lemma array_adds: "adds heap_array_add add_item"
  unfolding adds_def
proof (intro allI impI)
  fix h :: "'a json_heap" and r V B b w E
  assume v: "val_at h None r V B" and b: "val_at h None b w E" and dis: "B \<inter> E = {}"
  show "case add_item w V of None \<Rightarrow> heap_array_add r b h = Some (Inr (False, h))
    | Some V' \<Rightarrow> \<exists>h' A. heap_array_add r b h = Some (Inr (True, h')) \<and> val_at h' None r V' A \<and> becomes h h' (B \<union> E) A"
  proof (cases "\<exists>vs. V = JArray vs")
    case True
    then obtain vs where V: "V = JArray vs" by blast
    obtain cb where cb: "h_read h b = Inr cb" "parent cb = None" using root_in[OF b] by blast
    obtain c where c: "h_read h r = Inr c" "\<exists>as. content c = HArray as" using value_cell[OF v] V by metis
    have "heap_array_append r b h = heap_array_add r b h"
      using c cb by (auto simp: heap_array_append_def heap_array_add_def with_cell_def)
    then show ?thesis using append_refines[OF v[unfolded V] b dis] V
      by (simp add: refines_def on_array_def json_array_append_value_def add_item_def)
  next
    case False
    obtain c where "h_read h r = Inr c" "(\<exists>as. content c = HArray as) \<longleftrightarrow> (\<exists>vs. V = JArray vs)"
      using value_cell[OF v] by metis
    then show ?thesis using False
      by (auto simp: heap_array_add_def with_cell_def add_item_def refused_def split: content.splits json.splits)
  qed
qed

lemma member_names:
  assumes "val_at h p a (JObject ms) A"
  obtains ns where "h_read h a = Inr \<lparr>parent = p, content = HObject ns\<rparr>" and "\<And>k. map_of ns k = None \<longleftrightarrow> map_of ms k = None"
proof -
  obtain ks as vs B where "ms = zip ks vs" "length ks = length as" "length ks = length vs"
    "h_read h a = Inr \<lparr>parent = p, content = HObject (zip ks as)\<rparr>"
    using object_refines_start[OF assms] by metis
  then show thesis using that[of "zip ks as"] by (simp add: map_of_zip_index)
qed

lemma object_adds: "adds (heap_object_add k) (add_member k)"
  unfolding adds_def
proof (intro allI impI)
  fix h :: "'a json_heap" and r V B b w E
  assume v: "val_at h None r V B" and b: "val_at h None b w E" and dis: "B \<inter> E = {}"
  show "case add_member k w V of None \<Rightarrow> heap_object_add k r b h = Some (Inr (False, h))
    | Some V' \<Rightarrow> \<exists>h' A. heap_object_add k r b h = Some (Inr (True, h')) \<and> val_at h' None r V' A \<and> becomes h h' (B \<union> E) A"
  proof (cases "\<exists>ms. V = JObject ms")
    case True
    then obtain ms where V: "V = JObject ms" by blast
    obtain ns where ns: "h_read h r = Inr \<lparr>parent = None, content = HObject ns\<rparr>" "map_of ns k = None \<longleftrightarrow> map_of ms k = None"
      using member_names[OF v[unfolded V]] by metis
    show ?thesis
    proof (cases "map_of ms k")
      case None
      obtain cb where cb: "h_read h b = Inr cb" "parent cb = None" using root_in[OF b] by blast
      have "heap_object_set (size V) r k b h = heap_object_add k r b h"
        using ns cb None by (simp add: heap_object_set_def heap_object_add_def with_cell_def)
      moreover have "json_object_add ms k w = Some (ms @ [(k, w)])"
        using None by (simp add: json_object_add_Some map_of_eq_None_iff)
      ultimately show ?thesis using set_refines[OF v[unfolded V] b dis, of "size V" k] V None
        by (simp add: refines_def on_object_def json_object_set_value_def json_object_get_value_map_of add_member_def)
    next
      case (Some x)
      then have "json_object_add ms k w = None"
        using json_object_get_value_map_of[of ms k] by (simp add: json_object_add_def json_object_get_value_def)
      then show ?thesis using ns V Some by (simp add: heap_object_add_def with_cell_def add_member_def refused_def)
    qed
  next
    case False
    obtain c where "h_read h r = Inr c" "(\<exists>ms. content c = HObject ms) \<longleftrightarrow> (\<exists>ms. V = JObject ms)"
      using value_cell[OF v] by metis
    then show ?thesis using False
      by (auto simp: heap_object_add_def with_cell_def add_member_def refused_def split: content.splits json.splits)
  qed
qed

text \<open>What was made is freed again, with the copy that could not be added.\<close>

lemma one_freed:
  assumes v: "val_at h p a v A" and n: "size v < n"
  shows "\<exists>h'. free_each (json_value_free n) [a] h = Some (Inr h') \<and> freed A h h'"
  using tree_freed(1)[OF v, rule_format, OF n, of h] by auto

lemma two_freed:
  assumes v: "val_at h p a v A" and w: "val_at h q b w B" and AB: "A \<inter> B = {}" and n: "size v < n" "size w < n"
  shows "\<exists>h'. free_each (json_value_free n) [a, b] h = Some (Inr h') \<and> freed (A \<union> B) h h'"
proof -
  obtain h1 where h1: "json_value_free n a h = Some (Inr h1)" "freed A h h1"
    using tree_freed(1)[OF v, rule_format, OF n(1), of h] by auto
  have "val_at h1 q b w B" by (rule tree_frame(1)[OF w freed_frame[OF h1(2) AB]])
  from one_freed[OF this n(2)] obtain h2 where "free_each (json_value_free n) [b] h1 = Some (Inr h2)" "freed B h1 h2" by blast
  then show ?thesis using h1 freed_trans[OF h1(2)] by (intro exI[of _ h2]) simp
qed

lemma loop_copies:
  assumes live: "\<forall>x \<in> A. \<exists>c. h_read h x = Inr c"
  shows "list_all2 (\<lambda>(add, a) (v, g). adds add g \<and> (\<exists>x. a = Some x \<and> copies_at N h x v A)) todo spec \<Longrightarrow>
    \<exists>m. \<forall>n \<ge> m. \<forall>h0 h1 r B. (\<forall>x \<in> A. h_read h0 x = h_read h x) \<longrightarrow> val_at h1 None r V B \<longrightarrow> extends h0 h1 B \<longrightarrow>
      copy_result h0 (copied_tree N spec V) (copy_each (heap_deep_copy n N) n r todo h1)"
proof (induction todo spec arbitrary: V rule: list_all2_induct)
  case Nil
  then show ?case by (auto simp: copy_result_def)
next
  case (Cons t todo s spec)
  obtain add x v g where ts: "t = (add, Some x)" "s = (v, g)" "adds add g" "copies_at N h x v A"
    using Cons(1) by (cases t; cases s) auto
  obtain m1 where m1: "\<And>n h0. m1 \<le> n \<Longrightarrow> \<forall>y \<in> A. h_read h0 y = h_read h y \<Longrightarrow>
      copy_result h0 (json_value_deep_copy N v) (heap_deep_copy n N (Some x) h0)"
    using ts(4) unfolding copies_at_def by blast
  define w where "w = (case json_value_deep_copy N v of None \<Rightarrow> v | Some w \<Rightarrow> w)"
  define V' where "V' = (case g w V of None \<Rightarrow> V | Some V' \<Rightarrow> V')"
  obtain m2 where m2: "\<And>n h0 h1 r B. m2 \<le> n \<Longrightarrow> \<forall>x \<in> A. h_read h0 x = h_read h x \<Longrightarrow> val_at h1 None r V' B \<Longrightarrow>
      extends h0 h1 B \<Longrightarrow> copy_result h0 (copied_tree N spec V') (copy_each (heap_deep_copy n N) n r todo h1)"
    using Cons.IH[of V'] by blast
  have "copy_result h0 (copied_tree N (s # spec) V) (copy_each (heap_deep_copy n N) n r (t # todo) h1)"
    if n: "m1 + m2 + Suc (size V) + Suc (size w) \<le> n" and h0: "\<forall>x \<in> A. h_read h0 x = h_read h x"
      and r: "val_at h1 None r V B" and e: "extends h0 h1 B" for n h0 h1 r B
  proof -
    have l0: "\<forall>x \<in> A. \<exists>c. h_read h0 x = Inr c" using live h0 by simp
    have h1: "\<forall>x \<in> A. h_read h1 x = h_read h x" using extends_same[OF e l0] h0 by simp
    have res: "copy_result h1 (json_value_deep_copy N v) (heap_deep_copy n N (Some x) h1)"
      using m1[OF _ h1] n by simp
    show ?thesis
    proof (cases "json_value_deep_copy N v")
      case None
      then obtain h2 where h2: "heap_deep_copy n N (Some x) h1 = Some (Inr (None, h2))" "extends h1 h2 {}"
        using res by (auto simp: copy_result_def)
      have "val_at h2 None r V B" by (rule tree_frame(1)[OF r]) (use h2(2) in \<open>simp add: extends_def\<close>)
      from one_freed[OF this, of n] n obtain h3 where
        h3: "free_each (json_value_free n) [r] h2 = Some (Inr h3)" "freed B h2 h3" by auto
      have "extends h0 h2 B" using extends_trans[OF e h2(2)] by simp
      from extends_freed[OF this h3(2)] show ?thesis
        using h2(1) h3(1) None by (simp add: ts copy_result_def give_up_def)
    next
      case (Some w')
      then have w: "w' = w" by (simp add: w_def)
      obtain b h2 E where h2: "heap_deep_copy n N (Some x) h1 = Some (Inr (Some b, h2))" "val_at h2 None b w E" "extends h1 h2 E"
        using res Some w by (auto simp: copy_result_def)
      have BE: "B \<inter> E = {}" by (rule extends_apart[OF h2(3) tree_all_live(1)[OF r]])
      have e2: "extends h0 h2 (B \<union> E)" by (rule extends_trans[OF e h2(3) BE])
      have r2: "val_at h2 None r V B" by (rule tree_frame(1)[OF r extends_same[OF h2(3) tree_all_live(1)[OF r]]])
      note add = ts(3)[unfolded adds_def, rule_format, OF r2 h2(2) BE]
      show ?thesis
      proof (cases "g w V")
        case None
        have "add r b h2 = Some (Inr (False, h2))" using add None by simp
        moreover obtain h3 where h3: "free_each (json_value_free n) [r, b] h2 = Some (Inr h3)" "freed (B \<union> E) h2 h3"
          using two_freed[OF r2 h2(2) BE, of n] n by auto
        ultimately show ?thesis using extends_freed[OF e2 h3(2)] Some w None h2(1)
          by (simp add: ts copy_result_def give_up_def)
      next
        case (Some V1)
        then have V1: "V1 = V'" by (simp add: V'_def)
        obtain h3 C where h3: "add r b h2 = Some (Inr (True, h3))" "val_at h3 None r V' C" "becomes h2 h3 (B \<union> E) C"
          using add Some V1 by auto
        have "copy_result h0 (copied_tree N spec V') (copy_each (heap_deep_copy n N) n r todo h3)"
          by (rule m2[OF _ h0 h3(2) extends_becomes[OF e2 h3(3)]]) (use n in simp)
        then show ?thesis using h2(1) h3(1) Some V1 \<open>json_value_deep_copy N v = Some w'\<close> w by (simp add: ts)
      qed
    qed
  qed
  then show ?case by blast
qed

text \<open>The value at an address, and the values in a list.\<close>

lemma copies_leaf:
  assumes c: "h_read h a = Inr c" and k: "children (content c) = []" "\<nexists>as. content c = HArray as" "\<nexists>ms. content c = HObject ms"
    and t: "json_value_deep_copy N v =
      (case content c of HNumber x \<Rightarrow> if number_invalid N x then None else Some v | _ \<Rightarrow> Some v)"
    and new: "\<And>h' b. h_read h' b = Inr \<lparr>parent = None, content = content c\<rparr> \<Longrightarrow> val_at h' None b v {b}"
  shows "copies_at N h a v {a}"
  unfolding copies_at_def
proof (intro exI[of _ 1] allI impI)
  fix n :: nat and h0 :: "'a json_heap"
  assume "1 \<le> n" and h0: "\<forall>x \<in> {a}. h_read h0 x = h_read h x"
  then obtain m where m: "n = Suc m" by (cases n) auto
  have made: "copy_result h0 (Some v) (made (content c) h0)"
  proof -
    obtain b h1 where i: "init_value (content c) h0 = (b, h1)" by fastforce
    have "h_read h1 b = Inr \<lparr>parent = None, content = content c\<rparr>"
      using i[unfolded init_value_def] h_alloc_read[of _ h0 b h1 b] by simp
    then have "val_at h1 None b v {b}" by (rule new)
    then show ?thesis using i extends_init[OF i] by (auto simp: copy_result_def made_def)
  qed
  moreover have "copy_result h0 None (Some (Inr (None, h0)))" by (simp add: copy_result_def extends_none)
  ultimately show "copy_result h0 (json_value_deep_copy N v) (heap_deep_copy n N (Some a) h0)"
    using c h0 k t m by (cases "content c") auto
qed

lemma container_copies:
  assumes loop: "\<exists>m. \<forall>n \<ge> m. \<forall>h0 h1 r B. (\<forall>x \<in> A. h_read h0 x = h_read h x) \<longrightarrow> val_at h1 None r V B \<longrightarrow> extends h0 h1 B \<longrightarrow>
      copy_result h0 (json_value_deep_copy N v) (copy_each (heap_deep_copy n N) n r todo h1)"
    and c: "h_read h a = Inr c"
    and step: "\<And>n h0. h_read h0 a = Inr c \<Longrightarrow>
      heap_deep_copy (Suc n) N (Some a) h0 = (case init_value k h0 of (r, h1) \<Rightarrow> copy_each (heap_deep_copy n N) n r todo h1)"
    and new: "\<And>h' r. h_read h' r = Inr \<lparr>parent = None, content = k\<rparr> \<Longrightarrow> val_at h' None r V {r}"
  shows "copies_at N h a v (insert a A)"
proof -
  obtain m where m: "\<And>n h0 h1 r B. m \<le> n \<Longrightarrow> \<forall>x \<in> A. h_read h0 x = h_read h x \<Longrightarrow> val_at h1 None r V B \<Longrightarrow> extends h0 h1 B \<Longrightarrow>
      copy_result h0 (json_value_deep_copy N v) (copy_each (heap_deep_copy n N) n r todo h1)"
    using loop by blast
  have "copy_result h0 (json_value_deep_copy N v) (heap_deep_copy n N (Some a) h0)"
    if n: "Suc m \<le> n" and h0: "\<forall>x \<in> insert a A. h_read h0 x = h_read h x" for n h0
  proof -
    obtain n' where n': "n = Suc n'" "m \<le> n'" using n by (cases n) auto
    obtain r h1 where i: "init_value k h0 = (r, h1)" by fastforce
    have "h_read h1 r = Inr \<lparr>parent = None, content = k\<rparr>"
      using i[unfolded init_value_def] h_alloc_read[of _ h0 r h1 r] by simp
    from m[OF n'(2) _ new[OF this] extends_init[OF i]] h0
    have "copy_result h0 (json_value_deep_copy N v) (copy_each (heap_deep_copy n' N) n' r todo h1)" by simp
    then show ?thesis using step[of h0 n'] h0 c n'(1) i by simp
  qed
  then show ?thesis unfolding copies_at_def by blast
qed

lemma copies_at_mono: "copies_at N h a v A \<Longrightarrow> A \<subseteq> B \<Longrightarrow> copies_at N h a v B"
  unfolding copies_at_def by (meson subsetD)

lemma tree_copies:
  "val_at h p a v A \<Longrightarrow> copies_at N h a v A"
  "vals_at h q as vs A \<Longrightarrow> \<forall>i < length as. copies_at N h (as ! i) (vs ! i) A"
proof (induction rule: val_at_vals_at.inducts)
  case (array_at a p as vs A)
  have len: "length as = length vs" by (rule vals_at_length[OF array_at(2)])
  have "list_all2 (\<lambda>(add, a) (v, g). adds add g \<and> (\<exists>x. a = Some x \<and> copies_at N h x v A))
      (map (\<lambda>v. (heap_array_add, Some v)) as) (map (\<lambda>v. (v, add_item)) vs)"
    using len array_at(3) by (simp add: list_all2_conv_all_nth array_adds)
  from loop_copies[OF tree_all_live(2)[OF array_at(2)] this, of "JArray []"]
  show ?case
    unfolding copied_items[symmetric] deep_copy_eqs(1)[symmetric]
  proof (rule container_copies[where k = "HArray []", OF _ array_at(1)])
    show "val_at h' None r (JArray []) {r}" if "h_read h' r = Inr \<lparr>parent = None, content = HArray []\<rparr>" for h' r
      using val_at_vals_at.array_at[OF that none_at] by simp
  qed (simp add: Let_def split: prod.split)
next
  case (object_at a p ks as vs A)
  let ?get = "\<lambda>k. vs ! key_index ks k"
  have get: "json_object_get_value (zip ks vs) k = Some (?get k)" if "k \<in> set ks" for k
    using that object_at(5) by (simp add: json_object_get_value_map_of map_of_zip_index)
  have "copies_at N h (as ! key_index ks k) (?get k) A" if "k \<in> set ks" for k
    using object_at(3,5,6) key_index_found[OF that] by simp
  then have "list_all2 (\<lambda>(add, a) (v, g). adds add g \<and> (\<exists>x. a = Some x \<and> copies_at N h x v A))
      (map (\<lambda>k. (heap_object_add k, map_of (zip ks as) k)) ks) (map (\<lambda>k. (?get k, add_member k)) ks)"
    using object_at(5,6) by (simp add: list_all2_conv_all_nth map_of_zip_index object_adds)
  note loop = loop_copies[OF tree_all_live(2)[OF object_at(2)] this, of "JObject []"]
  have eq: "copied_tree N (map (\<lambda>k. (?get k, add_member k)) ks) (JObject []) = json_value_deep_copy N (JObject (zip ks vs))"
    using copied_members[OF get, of ks N "[]"] object_at(5) by (simp add: deep_copy_eqs)
  from loop
  show ?case
    unfolding eq
  proof (rule container_copies[where k = "HObject []", OF _ object_at(1)])
    show "val_at h' None r (JObject []) {r}" if "h_read h' r = Inr \<lparr>parent = None, content = HObject []\<rparr>" for h' r
      using val_at_vals_at.object_at[of h' r None "[]" "[]" "[]"] that by (simp add: none_at)
  qed (use object_at(5,6) in \<open>simp_all add: deep_copy_eqs Let_def split: prod.split\<close>)
next
  case (more_at q a v A as vs B)
  show ?case
  proof (intro allI impI)
    fix i assume "i < length (a # as)"
    then show "copies_at N h ((a # as) ! i) ((v # vs) ! i) (A \<union> B)"
      using more_at(2,4) copies_at_mono[of N h _ _ _ "A \<union> B"] by (cases i) auto
  qed
next
  case (null_at a p)
  then show ?case by (rule copies_leaf) (simp_all add: deep_copy_eqs val_at_vals_at.null_at)
next
  case (boolean_at a p b)
  then show ?case by (rule copies_leaf) (simp_all add: deep_copy_eqs val_at_vals_at.boolean_at)
next
  case (number_at a p x)
  then show ?case by (rule copies_leaf) (simp_all add: deep_copy_eqs json_value_init_number_def val_at_vals_at.number_at)
next
  case (string_at a p s)
  then show ?case by (rule copies_leaf) (simp_all add: deep_copy_eqs val_at_vals_at.string_at)
qed simp

section \<open>More fuel does not change a result\<close>

lemma free_each_mono:
  assumes "\<And>a h r. f a h = Some r \<Longrightarrow> g a h = Some r"
  shows "free_each f as h = Some r \<Longrightarrow> free_each g as h = Some r"
proof (induction as arbitrary: h)
  case (Cons a as)
  then obtain r1 where "f a h = Some r1" by (cases "f a h") auto
  then show ?case using Cons assms by (cases r1) auto
qed simp

lemma free_step: "json_value_free n a h = Some r \<Longrightarrow> json_value_free (Suc n) a h = Some r"
proof (induction n arbitrary: a h r)
  case (Suc n)
  show ?case
  proof (cases "h_read h a")
    case (Inr c)
    then obtain r1 where r1: "free_each (json_value_free n) (children (content c)) h = Some r1"
      using Suc.prems by (cases "free_each (json_value_free n) (children (content c)) h") auto
    then have "free_each (json_value_free (Suc n)) (children (content c)) h = Some r1"
      using free_each_mono[of "json_value_free n" "json_value_free (Suc n)"] Suc.IH by blast
    then show ?thesis using Inr r1 Suc.prems by (simp del: json_value_free.simps(2) add: json_value_free.simps(2)[of n] json_value_free.simps(2)[of "Suc n"])
  qed (use Suc.prems in simp)
qed simp

lemma free_mono: "json_value_free n a h = Some r \<Longrightarrow> n \<le> m \<Longrightarrow> json_value_free m a h = Some r"
proof (induction m)
  case (Suc m)
  then show ?case using free_step by (cases "n = Suc m") auto
qed simp

lemma give_up_step: "give_up n as h = Some r \<Longrightarrow> give_up (Suc n) as h = Some r"
  using free_each_mono[of "json_value_free n" "json_value_free (Suc n)" as h] free_step[of n]
  by (auto simp: give_up_def)

lemma copy_each_mono:
  assumes "\<And>v h r. f v h = Some r \<Longrightarrow> g v h = Some r"
  shows "copy_each f n r todo h = Some x \<Longrightarrow> copy_each g (Suc n) r todo h = Some x"
proof (induction todo arbitrary: h)
  case (Cons t todo)
  obtain add v where t: "t = (add, v)" by fastforce
  obtain y where y: "f v h = Some y" using Cons.prems t by (cases "f v h") auto
  then have g: "g v h = Some y" by (rule assms)
  show ?case
  proof (cases y)
    case (Inr bh)
    obtain b h1 where bh: "bh = (b, h1)" by fastforce
    show ?thesis
    proof (cases b)
      case (Some a)
      then show ?thesis using Cons t y g Inr bh
        by (auto split: option.splits sum.splits prod.splits bool.splits intro: give_up_step)
    qed (use Cons.prems t y g Inr bh in \<open>simp add: give_up_step\<close>)
  next
    case (Inl e)
    then show ?thesis using Cons.prems t y g by auto
  qed
qed simp

lemma copy_step: "heap_deep_copy n N v h = Some r \<Longrightarrow> heap_deep_copy (Suc n) N v h = Some r"
proof (induction n arbitrary: v h r)
  case (Suc n)
  note step = copy_each_mono[of "heap_deep_copy n N" "heap_deep_copy (Suc n) N", OF Suc.IH]
  show ?case
  proof (cases v)
    case (Some a)
    show ?thesis
    proof (cases "h_read h a")
      case (Inr c)
      then show ?thesis using Suc.prems Some step
        by (cases "content c") (auto simp: heap_deep_copy.simps(2)[of n] heap_deep_copy.simps(2)[of "Suc n"] Let_def
            simp del: heap_deep_copy.simps split: prod.splits)
    qed (use Suc.prems Some in simp)
  qed (use Suc.prems in simp)
qed simp

lemma copy_mono: "heap_deep_copy n N v h = Some r \<Longrightarrow> n \<le> m \<Longrightarrow> heap_deep_copy m N v h = Some r"
proof (induction m)
  case (Suc m)
  then show ?case using copy_step by (cases "n = Suc m") auto
qed simp

section \<open>Properties\<close>

text \<open>
  C23: \<open>json_value_deep_copy\<close> on the heap. For a tree that can be copied it returns, with enough fuel, the root of a
  tree with the same value in objects that were not in use before, and leaves all others as they are; the two
  trees share nothing. For a tree that cannot, it returns \<open>NULL\<close> and has freed everything it made.
\<close>

theorem heap_copy_apart:
  assumes "val_at h p a v A"
  shows "\<exists>m. \<forall>n \<ge> m.
    if copyable N v
    then \<exists>b h' B. heap_deep_copy n N (Some a) h = Some (Inr (Some b, h')) \<and> val_at h' p a v A \<and> val_at h' None b v B \<and>
      A \<inter> B = {} \<and> (\<forall>x \<in> B. h_read h x = Inl UseAfterFree) \<and> (\<forall>x. x \<notin> B \<longrightarrow> h_read h' x = h_read h x)
    else \<exists>h'. heap_deep_copy n N (Some a) h = Some (Inr (None, h')) \<and> (\<forall>x. h_read h' x = h_read h x)"
proof -
  obtain m where m: "\<And>n. m \<le> n \<Longrightarrow> copy_result h (json_value_deep_copy N v) (heap_deep_copy n N (Some a) h)"
    using tree_copies(1)[OF assms, of N] unfolding copies_at_def by blast
  have frame: "val_at h' p a v A \<and> A \<inter> B = {}" if "extends h h' B" for h' B
    using tree_frame(1)[OF assms extends_same[OF that tree_all_live(1)[OF assms]]]
      extends_apart[OF that tree_all_live(1)[OF assms]] by simp
  show ?thesis
  proof (intro exI[of _ m] allI impI)
    fix n assume "m \<le> n"
    note r = m[OF this, unfolded copy_result_def deep_copy_exact]
    show "if copyable N v
      then \<exists>b h' B. heap_deep_copy n N (Some a) h = Some (Inr (Some b, h')) \<and> val_at h' p a v A \<and> val_at h' None b v B \<and>
        A \<inter> B = {} \<and> (\<forall>x \<in> B. h_read h x = Inl UseAfterFree) \<and> (\<forall>x. x \<notin> B \<longrightarrow> h_read h' x = h_read h x)
      else \<exists>h'. heap_deep_copy n N (Some a) h = Some (Inr (None, h')) \<and> (\<forall>x. h_read h' x = h_read h x)"
    proof (cases "copyable N v")
      case True
      then obtain b h' B where h': "heap_deep_copy n N (Some a) h = Some (Inr (Some b, h'))" "val_at h' None b v B" "extends h h' B"
        using r by auto
      then show ?thesis using True frame[OF h'(3)] h'(3)[unfolded extends_def]
        by (simp del: split_paired_Ex) (intro exI[of _ B] conjI; simp)
    next
      case False
      then show ?thesis using r by (auto simp: extends_def)
    qed
  qed
qed

lemma heap_copy_apart_witness:
  "\<exists>n b h' B. heap_deep_copy n int_numbers (Some 0) demo_heap = Some (Inr (Some b, h')) \<and>
     val_at h' None b (JObject [(''a'', JNull), (''b'', JArray [])]) B \<and> {0, 1, 2} \<inter> B = {}"
proof -
  have "copyable int_numbers (JObject [(''a'', JNull), (''b'', JArray [])])" by (simp add: copyable_simps)
  with heap_copy_apart[OF demo_trees(1), of int_numbers] show ?thesis by (metis order_refl)
qed

end
