(* ===== verification/Json_Forest.thy ===== *)
theory Json_Forest
  imports Json_Copy
begin

text \<open>
  Programs that use \<open>src/PCom3/parson.c\<close>: all the values they hold, and what is freed when. A program that follows
  one rule, not to hand a value to a container inside it, never meets a fault, and nothing it made is
  lost.
\<close>

section \<open>A change inside a tree\<close>

text \<open>
  When the tree at an address of a larger tree changes, the larger one is a tree again, with the new
  addresses in the place of the old ones: \<open>P\<close> says what the larger one is, \<open>k\<close> bounds the size.
\<close>

definition inside :: "'n json_heap \<Rightarrow> addr set \<Rightarrow> nat \<Rightarrow> ('n json_heap \<Rightarrow> addr set \<Rightarrow> bool) \<Rightarrow> addr \<Rightarrow> bool" where
  "inside h R k P a \<longleftrightarrow> (\<exists>p v A. val_at h p a v A \<and> A \<subseteq> R \<and> size v \<le> k \<and>
     (\<forall>h' v' A'. val_at h' p a v' A' \<longrightarrow> (\<forall>x \<in> R - A. h_read h' x = h_read h x) \<longrightarrow> A' \<inter> (R - A) = {} \<longrightarrow>
        P h' (R - A \<union> A')))"

lemma inside_root: "val_at h q r V R \<Longrightarrow> inside h R (size V) (\<lambda>h' S. \<exists>V'. val_at h' q r V' S) r"
  unfolding inside_def by (intro exI[of _ q] exI[of _ V] exI[of _ R]) auto

lemma inside_union:
  assumes "inside h B k P a" and "B \<inter> C = {}" and "k \<le> k'"
    and step: "\<And>h' S. \<forall>x \<in> C. h_read h' x = h_read h x \<Longrightarrow> S \<inter> C = {} \<Longrightarrow> P h' S \<Longrightarrow> Q h' (S \<union> C)"
  shows "inside h (B \<union> C) k' Q a"
proof -
  obtain p v A where a: "val_at h p a v A" "A \<subseteq> B" "size v \<le> k"
    "\<And>h' v' A'. val_at h' p a v' A' \<Longrightarrow> \<forall>x \<in> B - A. h_read h' x = h_read h x \<Longrightarrow> A' \<inter> (B - A) = {} \<Longrightarrow> P h' (B - A \<union> A')"
    using assms(1) unfolding inside_def by blast
  have "Q h' (B \<union> C - A \<union> A')"
    if h': "val_at h' p a v' A'" "\<forall>x \<in> B \<union> C - A. h_read h' x = h_read h x" "A' \<inter> (B \<union> C - A) = {}" for h' v' A'
  proof -
    have "P h' (B - A \<union> A')" using a(4)[OF h'(1)] h'(2,3) by blast
    moreover have "\<forall>x \<in> C. h_read h' x = h_read h x" using h'(2) a(2) assms(2) by blast
    moreover have "(B - A \<union> A') \<inter> C = {}" using h'(3) a(2) assms(2) by blast
    ultimately have "Q h' (B - A \<union> A' \<union> C)" using step by blast
    moreover have "B - A \<union> A' \<union> C = B \<union> C - A \<union> A'" using a(2) assms(2) by auto
    ultimately show ?thesis by simp
  qed
  moreover have "A \<subseteq> B \<union> C" "size v \<le> k'" using a(2,3) assms(3) by auto
  ultimately show ?thesis unfolding inside_def using a(1) by blast
qed

lemma members_size: "length ks = length vs \<Longrightarrow> size_list size vs \<le> size (JObject (zip ks vs))"
proof -
  assume "length ks = length vs"
  moreover have "size_list size (map snd (zip ks vs)) \<le> size_list (size_prod (\<lambda>x. 0) size) (zip ks vs)"
    unfolding size_list_map comp_def by (rule size_list_pointwise) (auto simp: size_prod_simp)
  ultimately show ?thesis by simp
qed

lemma tree_update:
  "val_at h q r V R \<Longrightarrow> \<forall>a \<in> R. inside h R (size V) (\<lambda>h' S. \<exists>V'. val_at h' q r V' S) a"
  "vals_at h s as vs R \<Longrightarrow>
     \<forall>a \<in> R. inside h R (size_list size vs) (\<lambda>h' S. \<exists>vs'. length vs' = length vs \<and> vals_at h' s as vs' S) a"
proof (induction rule: val_at_vals_at.inducts)
  case (array_at r q as vs R)
  show ?case
  proof
    fix a assume a: "a \<in> insert r R"
    show "inside h (insert r R) (size (JArray vs)) (\<lambda>h' S. \<exists>V'. val_at h' q r V' S) a"
    proof (cases "a = r")
      case True
      then show ?thesis using inside_root[OF val_at_vals_at.array_at[OF array_at(1,2,4)]] by simp
    next
      case False
      then have "inside h R (size_list size vs) (\<lambda>h' S. \<exists>vs'. length vs' = length vs \<and> vals_at h' r as vs' S) a"
        using array_at(3) a by blast
      then have "inside h (R \<union> {r}) (size (JArray vs)) (\<lambda>h' S. \<exists>V'. val_at h' q r V' S) a"
      proof (rule inside_union)
        fix h' S assume "\<forall>x \<in> {r}. h_read h' x = h_read h x" "S \<inter> {r} = {}" "\<exists>vs'. length vs' = length vs \<and> vals_at h' r as vs' S"
        then show "\<exists>V'. val_at h' q r V' (S \<union> {r})"
          using val_at_vals_at.array_at[of h' r q as _ S] array_at(1) by auto
      qed (use array_at(4) in auto)
      then show ?thesis by simp
    qed
  qed
next
  case (object_at r q ks as vs R)
  show ?case
  proof
    fix a assume a: "a \<in> insert r R"
    show "inside h (insert r R) (size (JObject (zip ks vs))) (\<lambda>h' S. \<exists>V'. val_at h' q r V' S) a"
    proof (cases "a = r")
      case True
      then show ?thesis using inside_root[OF val_at_vals_at.object_at[OF object_at(1,2,4,5,6)]] by simp
    next
      case False
      then have "inside h R (size_list size vs) (\<lambda>h' S. \<exists>vs'. length vs' = length vs \<and> vals_at h' r as vs' S) a"
        using object_at(3) a by blast
      then have "inside h (R \<union> {r}) (size (JObject (zip ks vs))) (\<lambda>h' S. \<exists>V'. val_at h' q r V' S) a"
      proof (rule inside_union)
        fix h' S assume h': "\<forall>x \<in> {r}. h_read h' x = h_read h x" "S \<inter> {r} = {}" "\<exists>vs'. length vs' = length vs \<and> vals_at h' r as vs' S"
        then obtain vs' where "length vs' = length vs" "vals_at h' r as vs' S" by blast
        then have "val_at h' q r (JObject (zip ks vs')) (insert r S)"
          using h'(1,2) object_at(1,5,6) by (intro val_at_vals_at.object_at) simp_all
        then show "\<exists>V'. val_at h' q r V' (S \<union> {r})" by auto
      qed (use object_at(4) members_size[OF object_at(5)] in auto)
      then show ?thesis by simp
    qed
  qed
next
  case (more_at q b v B as vs C)
  show ?case
  proof
    fix a assume "a \<in> B \<union> C"
    then consider (here) "a \<in> B" | (there) "a \<in> C" by blast
    then show "inside h (B \<union> C) (size_list size (v # vs)) (\<lambda>h' S. \<exists>vs'. length vs' = length (v # vs) \<and> vals_at h' q (b # as) vs' S) a"
    proof cases
      case here
      then have "inside h B (size v) (\<lambda>h' S. \<exists>V'. val_at h' (Some q) b V' S) a" using more_at(2) by blast
      then show ?thesis
      proof (rule inside_union)
        fix h' S assume h': "\<forall>x \<in> C. h_read h' x = h_read h x" "S \<inter> C = {}" "\<exists>V'. val_at h' (Some q) b V' S"
        then obtain V' where "val_at h' (Some q) b V' S" by blast
        from val_at_vals_at.more_at[OF this tree_frame(2)[OF more_at(3) h'(1)] h'(2)]
        show "\<exists>vs'. length vs' = length (v # vs) \<and> vals_at h' q (b # as) vs' (S \<union> C)"
          by (intro exI[of _ "V' # vs"]) simp
      qed (use more_at(5) in auto)
    next
      case there
      then have "inside h C (size_list size vs) (\<lambda>h' S. \<exists>vs'. length vs' = length vs \<and> vals_at h' q as vs' S) a"
        using more_at(4) by blast
      then have "inside h (C \<union> B) (size_list size (v # vs)) (\<lambda>h' S. \<exists>vs'. length vs' = length (v # vs) \<and> vals_at h' q (b # as) vs' S) a"
      proof (rule inside_union)
        fix h' S assume h': "\<forall>x \<in> B. h_read h' x = h_read h x" "S \<inter> B = {}" "\<exists>vs'. length vs' = length vs \<and> vals_at h' q as vs' S"
        then obtain vs' where vs': "length vs' = length vs" "vals_at h' q as vs' S" by blast
        have "B \<inter> S = {}" using h'(2) by blast
        from val_at_vals_at.more_at[OF tree_frame(1)[OF more_at(1) h'(1)] vs'(2) this] vs'(1)
        show "\<exists>vs'. length vs' = length (v # vs) \<and> vals_at h' q (b # as) vs' (S \<union> B)"
          by (intro exI[of _ "v # vs'"]) (simp add: Un_commute)
      qed (use more_at(5) in auto)
      then show ?thesis by (simp add: Un_commute)
    qed
  qed
next
  case (null_at a p)
  then show ?case using inside_root[OF val_at_vals_at.null_at[OF null_at]] by simp
next
  case (boolean_at a p b)
  then show ?case using inside_root[OF val_at_vals_at.boolean_at[OF boolean_at]] by simp
next
  case (number_at a p x)
  then show ?case using inside_root[OF val_at_vals_at.number_at[OF number_at]] by simp
next
  case (string_at a p t)
  then show ?case using inside_root[OF val_at_vals_at.string_at[OF string_at]] by simp
qed simp

section \<open>The whole heap\<close>

text \<open>
  \<open>F\<close> gives the values without a parent that the program holds, with the addresses of their trees: the trees
  are apart, and nothing else is allocated.
\<close>

definition forest :: "'n json_heap \<Rightarrow> (addr \<Rightarrow> addr set option) \<Rightarrow> bool" where
  "forest h F \<longleftrightarrow>
     (\<forall>r R. F r = Some R \<longrightarrow> (\<exists>v. val_at h None r v R)) \<and>
     (\<forall>r R s S. F r = Some R \<longrightarrow> F s = Some S \<longrightarrow> r \<noteq> s \<longrightarrow> R \<inter> S = {}) \<and>
     (\<forall>x. (\<exists>c. h_read h x = Inr c) \<longleftrightarrow> (\<exists>r R. F r = Some R \<and> x \<in> R))"

lemma forest_parts:
  assumes "forest h F"
  shows "F r = Some R \<Longrightarrow> \<exists>v. val_at h None r v R"
    and "F r = Some R \<Longrightarrow> F s = Some S \<Longrightarrow> r \<noteq> s \<Longrightarrow> R \<inter> S = {}"
    and "(\<exists>c. h_read h x = Inr c) \<longleftrightarrow> (\<exists>r R. F r = Some R \<and> x \<in> R)"
proof -
  note f = assms[unfolded forest_def]
  show "F r = Some R \<Longrightarrow> \<exists>v. val_at h None r v R" by (rule conjunct1[OF f, rule_format])
  show "F r = Some R \<Longrightarrow> F s = Some S \<Longrightarrow> r \<noteq> s \<Longrightarrow> R \<inter> S = {}" by (rule conjunct1[OF conjunct2[OF f], rule_format])
  show "(\<exists>c. h_read h x = Inr c) \<longleftrightarrow> (\<exists>r R. F r = Some R \<and> x \<in> R)" by (rule spec[OF conjunct2[OF conjunct2[OF f]]])
qed

lemma forestI:
  assumes "\<And>r R. F r = Some R \<Longrightarrow> \<exists>v. val_at h None r v R"
    and "\<And>r R s S. F r = Some R \<Longrightarrow> F s = Some S \<Longrightarrow> r \<noteq> s \<Longrightarrow> R \<inter> S = {}"
    and "\<And>x. (\<exists>c. h_read h x = Inr c) \<longleftrightarrow> (\<exists>r R. F r = Some R \<and> x \<in> R)"
  shows "forest h F"
  unfolding forest_def by (intro conjI allI impI) (rule assms; assumption)+

lemma forest_same:
  assumes F: "forest h F" and same: "\<And>x. h_read h' x = h_read h x"
  shows "forest h' F"
proof (rule forestI)
  show "\<exists>v. val_at h' None r v R" if "F r = Some R" for r R
    using forest_parts(1)[OF F that] tree_frame(1)[of h None r _ R h'] same by blast
  show "R \<inter> S = {}" if "F r = Some R" "F s = Some S" "r \<noteq> s" for r R s S
    using forest_parts(2)[OF F that] .
  show "(\<exists>c. h_read h' x = Inr c) \<longleftrightarrow> (\<exists>r R. F r = Some R \<and> x \<in> R)" for x
    using forest_parts(3)[OF F, of x] same by simp
qed

lemma forest_empty: "forest [] Map.empty"
  by (simp add: forest_def h_read_def)

lemma nothing_left: "forest h Map.empty \<Longrightarrow> live h = 0"
  by (rule none_live) (simp add: forest_def)

lemma inner_parent:
  "val_at h p a v A \<Longrightarrow> \<forall>x \<in> A - {a}. \<exists>c. h_read h x = Inr c \<and> parent c \<noteq> None"
  "vals_at h q as vs A \<Longrightarrow> \<forall>x \<in> A. \<exists>c. h_read h x = Inr c \<and> parent c \<noteq> None"
proof (induction rule: val_at_vals_at.inducts)
  case (more_at q a v A as vs B)
  have "\<exists>c. h_read h a = Inr c \<and> parent c \<noteq> None" using root_in[OF more_at(1)] by fastforce
  then show ?case using more_at(2,4) by blast
qed auto

lemma tree_live: "val_at h p a v A \<Longrightarrow> x \<in> A \<Longrightarrow> \<exists>c. h_read h x = Inr c"
  using root_in[of h p a v A] inner_parent(1)[of h p a v A] by blast

lemma forest_grow:
  assumes F: "forest h F" and b: "val_at h' None b v B" and e: "extends h h' B"
  shows "F b = None \<and> forest h' (F(b \<mapsto> B))"
proof -
  have out: "R \<inter> B = {}" if "F r = Some R" for r R
    using extends_apart[OF e, of R] forest_parts(3)[OF F] that by blast
  have none: "F b = None"
  proof (rule ccontr)
    assume "F b \<noteq> None"
    then obtain R where R: "F b = Some R" by blast
    then obtain w where "val_at h None b w R" using forest_parts(1)[OF F] by blast
    then show False using out[OF R] root_in b by blast
  qed
  have old: "\<exists>v. val_at h' None r v R" if r: "F r = Some R" for r R
  proof -
    obtain v where v: "val_at h None r v R" using forest_parts(1)[OF F r] by blast
    show ?thesis by (rule exI, rule tree_frame(1)[OF v extends_same[OF e tree_all_live(1)[OF v]]])
  qed
  have "forest h' (F(b \<mapsto> B))"
  proof (rule forestI)
    show "\<exists>v. val_at h' None r v R" if "(F(b \<mapsto> B)) r = Some R" for r R
      using that b old by (auto split: if_splits)
    show "R \<inter> S = {}" if "(F(b \<mapsto> B)) r = Some R" "(F(b \<mapsto> B)) s = Some S" "r \<noteq> s" for r R s S
      using that out[of r R] out[of s S] forest_parts(2)[OF F, of r R s S] by (auto split: if_splits)
    show "(\<exists>c. h_read h' x = Inr c) \<longleftrightarrow> (\<exists>r R. (F(b \<mapsto> B)) r = Some R \<and> x \<in> R)" for x
    proof (cases "x \<in> B")
      case True
      then show ?thesis using tree_live[OF b] by auto
    next
      case False
      have "(\<exists>r R. (F(b \<mapsto> B)) r = Some R \<and> x \<in> R) \<longleftrightarrow> (\<exists>r R. F r = Some R \<and> x \<in> R)"
      proof
        assume "\<exists>r R. (F(b \<mapsto> B)) r = Some R \<and> x \<in> R"
        then show "\<exists>r R. F r = Some R \<and> x \<in> R" using False by (auto split: if_splits)
      next
        assume "\<exists>r R. F r = Some R \<and> x \<in> R"
        then obtain r R where r: "F r = Some R" "x \<in> R" by blast
        then have "r \<noteq> b" using none by auto
        then show "\<exists>r R. (F(b \<mapsto> B)) r = Some R \<and> x \<in> R" using r by (intro exI[of _ r]) simp
      qed
      moreover have "h_read h' x = h_read h x" using e False by (simp add: extends_def)
      ultimately show ?thesis using forest_parts(3)[OF F, of x] by simp
    qed
  qed
  then show ?thesis using none by blast
qed

lemma forest_init:
  assumes F: "forest h F" and k: "children k = []" and i: "init_value k h = (a, h')"
  shows "F a = None \<and> forest h' (F(a \<mapsto> {a}))"
proof -
  have read: "h_read h' a = Inr \<lparr>parent = None, content = k\<rparr>"
    using i[unfolded init_value_def] h_alloc_read[of _ h a h' a] by simp
  have "\<exists>v. val_at h' None a v {a}"
  proof (cases k)
    case (HArray as)
    then show ?thesis using k read array_at[of h' a None "[]" "[]" "{}"] by (auto simp: none_at)
  next
    case (HObject ms)
    then show ?thesis using k read object_at[of h' a None "[]" "[]" "[]" "{}"] by (auto simp: none_at)
  qed (use read val_at_vals_at.intros in \<open>fastforce\<close>)+
  then show ?thesis using forest_grow[OF F _ extends_init[OF i]] by blast
qed

text \<open>A copy of a value inside a tree is one more tree, or nothing.\<close>

lemma forest_copy:
  assumes F: "forest h F" and a: "h_read h a = Inr c"
  shows "\<exists>m. \<forall>n \<ge> m. \<exists>b h' F'. heap_deep_copy n N (Some a) h = Some (Inr (b, h')) \<and>
    forest h' F' \<and> dom F' = dom F \<union> set_option b"
proof -
  obtain r R where r: "F r = Some R" "a \<in> R" using forest_parts(3)[OF F, of a] a by blast
  obtain V where V: "val_at h None r V R" using forest_parts(1)[OF F r(1)] by blast
  have "inside h R (size V) (\<lambda>h' S. \<exists>V'. val_at h' None r V' S) a" using tree_update(1)[OF V] r(2) by blast
  then obtain p v A where v: "val_at h p a v A" unfolding inside_def by blast
  obtain m where m: "\<And>n. m \<le> n \<Longrightarrow> copy_result h (json_value_deep_copy N v) (heap_deep_copy n N (Some a) h)"
    using tree_copies(1)[OF v, of N] unfolding copies_at_def by blast
  have "\<exists>b h' F'. heap_deep_copy n N (Some a) h = Some (Inr (b, h')) \<and> forest h' F' \<and> dom F' = dom F \<union> set_option b"
    if n: "m \<le> n" for n
  proof (cases "json_value_deep_copy N v")
    case None
    then obtain h' where h': "heap_deep_copy n N (Some a) h = Some (Inr (None, h'))" "extends h h' {}"
      using m[OF n] by (auto simp: copy_result_def)
    have "h_read h' x = h_read h x" for x using h'(2) by (simp add: extends_def)
    then have "forest h' F" by (rule forest_same[OF F])
    then show ?thesis using h'(1) by auto
  next
    case (Some w)
    then obtain b h' B where h': "heap_deep_copy n N (Some a) h = Some (Inr (Some b, h'))" "val_at h' None b w B" "extends h h' B"
      using m[OF n] by (auto simp: copy_result_def)
    from forest_grow[OF F h'(2,3)] have "forest h' (F(b \<mapsto> B))" by simp
    then show ?thesis using h'(1) by (intro exI[of _ "Some b"] exI[of _ h'] exI[of _ "F(b \<mapsto> B)"]) (simp del: fun_upd_apply)
  qed
  then show ?thesis by blast
qed

lemma forest_free:
  assumes F: "forest h F" and r: "F r = Some R"
  shows "\<exists>m. \<forall>n \<ge> m. \<exists>h'. json_value_free n r h = Some (Inr h') \<and> forest h' (F(r := None))"
proof -
  obtain v where v: "val_at h None r v R" using forest_parts(1)[OF F r] by blast
  have apart: "R \<inter> S = {}" if "F s = Some S" "s \<noteq> r" for s S
    using forest_parts(2)[OF F r that(1)] that(2) by simp
  have "\<exists>h'. json_value_free n r h = Some (Inr h') \<and> forest h' (F(r := None))" if n: "Suc (size v) \<le> n" for n
  proof -
    have "size v < n" using n by simp
    then obtain h' where h': "json_value_free n r h = Some (Inr h')" "freed R h h'"
      using tree_freed(1)[OF v] by blast
    have "forest h' (F(r := None))"
    proof (rule forestI)
      fix s S assume "(F(r := None)) s = Some S"
      then have s: "F s = Some S" "s \<noteq> r" by (auto split: if_splits)
      obtain w where "val_at h None s w S" using forest_parts(1)[OF F s(1)] by blast
      then show "\<exists>v. val_at h' None s v S" using tree_frame(1)[OF _ freed_frame[OF h'(2) apart[OF s]]] by blast
    next
      show "S \<inter> T = {}" if "(F(r := None)) s = Some S" "(F(r := None)) t = Some T" "s \<noteq> t" for s S t T
        using that forest_parts(2)[OF F, of s S t T] by (auto split: if_splits)
    next
      fix x
      have "(\<exists>s S. (F(r := None)) s = Some S \<and> x \<in> S) \<longleftrightarrow> x \<notin> R \<and> (\<exists>s S. F s = Some S \<and> x \<in> S)"
      proof
        assume "\<exists>s S. (F(r := None)) s = Some S \<and> x \<in> S"
        then show "x \<notin> R \<and> (\<exists>s S. F s = Some S \<and> x \<in> S)" using apart by (auto split: if_splits)
      next
        assume "x \<notin> R \<and> (\<exists>s S. F s = Some S \<and> x \<in> S)"
        then obtain s S where s: "F s = Some S" "x \<in> S" "x \<notin> R" by blast
        then have "s \<noteq> r" using r by auto
        then show "\<exists>s S. (F(r := None)) s = Some S \<and> x \<in> S" using s by (intro exI[of _ s]) simp
      qed
      then show "(\<exists>c. h_read h' x = Inr c) \<longleftrightarrow> (\<exists>s S. (F(r := None)) s = Some S \<and> x \<in> S)"
        using forest_parts(3)[OF F, of x] h'(2) by (simp add: freed_def)
    qed
    then show ?thesis using h'(1) by blast
  qed
  then show ?thesis by blast
qed

text \<open>A call on a container inside a tree that the program holds.\<close>

lemma forest_change:
  assumes F: "forest h F" and r: "F r = Some R" and E: "E = {} \<and> G = F \<or> (\<exists>b. F b = Some E \<and> b \<noteq> r \<and> G = F(b := None))"
    and a: "val_at h' None r V' R'" and R': "R' \<subseteq> R \<union> E"
    and same: "\<forall>x. x \<notin> R \<union> E \<longrightarrow> h_read h' x = h_read h x" and dead: "\<forall>x \<in> R \<union> E - R'. h_read h' x = Inl UseAfterFree"
  shows "forest h' (G(r \<mapsto> R'))"
proof -
  have G: "F s = Some S \<and> s \<noteq> r \<and> S \<inter> (R \<union> E) = {}" if "G s = Some S" "s \<noteq> r" for s S
  proof -
    have s: "F s = Some S" using that E by (auto split: if_splits)
    moreover have "S \<inter> R = {}" using forest_parts(2)[OF F s r that(2)] .
    moreover have "S \<inter> E = {}"
    proof (cases "E = {}")
      case False
      then obtain b where b: "F b = Some E" "G = F(b := None)" using E by blast
      then have "s \<noteq> b" using that(1) by auto
      then show ?thesis using forest_parts(2)[OF F s b(1)] by simp
    qed simp
    ultimately show ?thesis using that(2) by blast
  qed
  show ?thesis
  proof (rule forestI)
    fix s S assume s: "(G(r \<mapsto> R')) s = Some S"
    show "\<exists>v. val_at h' None s v S"
    proof (cases "s = r")
      case True
      then show ?thesis using s a by auto
    next
      case False
      then have S: "F s = Some S" "S \<inter> (R \<union> E) = {}" using G[of s S] s by auto
      obtain w where "val_at h None s w S" using forest_parts(1)[OF F S(1)] by blast
      then have "val_at h' None s w S" by (rule tree_frame(1)) (use S(2) same in blast)
      then show ?thesis by blast
    qed
  next
    fix s S t T assume st: "(G(r \<mapsto> R')) s = Some S" "(G(r \<mapsto> R')) t = Some T" "s \<noteq> t"
    consider "s = r" "t \<noteq> r" | "s \<noteq> r" "t = r" | "s \<noteq> r" "t \<noteq> r" using st(3) by blast
    then show "S \<inter> T = {}"
    proof cases
      case 1
      then show ?thesis using st G[of t T] R' by auto
    next
      case 2
      then show ?thesis using st G[of s S] R' by auto
    next
      case 3
      then show ?thesis using st G[of s S] G[of t T] forest_parts(2)[OF F, of s S t T] by auto
    qed
  next
    fix x
    show "(\<exists>c. h_read h' x = Inr c) \<longleftrightarrow> (\<exists>s S. (G(r \<mapsto> R')) s = Some S \<and> x \<in> S)"
    proof (cases "x \<in> R \<union> E")
      case True
      have "\<not> (\<exists>s S. s \<noteq> r \<and> G s = Some S \<and> x \<in> S)" using True G by blast
      then have "(\<exists>s S. (G(r \<mapsto> R')) s = Some S \<and> x \<in> S) \<longleftrightarrow> x \<in> R'" by (auto split: if_splits)
      moreover have "(\<exists>c. h_read h' x = Inr c) \<longleftrightarrow> x \<in> R'"
      proof (cases "x \<in> R'")
        case False
        then have "h_read h' x = Inl UseAfterFree" using dead True by blast
        then show ?thesis using False by simp
      qed (use tree_live[OF a] in blast)
      ultimately show ?thesis by blast
    next
      case False
      have "(\<exists>s S. (G(r \<mapsto> R')) s = Some S \<and> x \<in> S) \<longleftrightarrow> (\<exists>s S. F s = Some S \<and> x \<in> S)"
      proof
        assume "\<exists>s S. (G(r \<mapsto> R')) s = Some S \<and> x \<in> S"
        then show "\<exists>s S. F s = Some S \<and> x \<in> S" using G R' False by (auto split: if_splits)
      next
        assume "\<exists>s S. F s = Some S \<and> x \<in> S"
        then obtain s S where s: "F s = Some S" "x \<in> S" by blast
        then have "s \<noteq> r" using r False by auto
        moreover have "G s = Some S" using E s False by auto
        ultimately show "\<exists>s S. (G(r \<mapsto> R')) s = Some S \<and> x \<in> S" using s by (intro exI[of _ s]) simp
      qed
      then show ?thesis using forest_parts(3)[OF F, of x] same False by simp
    qed
  qed
qed

text \<open>
  The value handed in, if the call takes one: a value the program holds that is not the one the container is
  in; or one inside a tree, which is refused.
\<close>

definition arg_ok :: "(addr \<Rightarrow> addr set option) \<Rightarrow> addr \<Rightarrow> call \<Rightarrow> bool" where
  "arg_ok F r c \<longleftrightarrow>
     (case call_arg c of None \<Rightarrow> True
      | Some b \<Rightarrow> F b \<noteq> None \<and> b \<noteq> r \<or> F b = None \<and> (\<exists>s S. F s = Some S \<and> b \<in> S))"

definition without :: "(addr \<Rightarrow> addr set option) \<Rightarrow> addr option \<Rightarrow> addr \<Rightarrow> addr set option" where
  "without F b = (case b of None \<Rightarrow> F | Some x \<Rightarrow> F(x := None))"

lemma forest_call:
  assumes F: "forest h F" and r: "F r = Some R" and a: "a \<in> R" and ok: "arg_ok F r c"
  shows "\<exists>m. \<forall>n \<ge> m. \<exists>st h'. heap_call n a c h = Some (Inr (st, h')) \<and>
    (if st then \<exists>R'. forest h' ((without F (call_arg c))(r \<mapsto> R')) else h' = h)"
proof -
  obtain V where V: "val_at h None r V R" using forest_parts(1)[OF F r] by blast
  have "inside h R (size V) (\<lambda>h' S. \<exists>V'. val_at h' None r V' S) a" using tree_update(1)[OF V] a by blast
  then obtain p v A where v: "val_at h p a v A" "A \<subseteq> R" "size v \<le> size V"
    and upd: "\<And>h' v' A'. val_at h' p a v' A' \<Longrightarrow> \<forall>x \<in> R - A. h_read h' x = h_read h x \<Longrightarrow> A' \<inter> (R - A) = {} \<Longrightarrow>
      \<exists>V'. val_at h' None r V' (R - A \<union> A')"
    unfolding inside_def by blast
  show ?thesis
  proof (cases "\<exists>b. call_arg c = Some b \<and> F b = None")
    case True
    then obtain b s S where b: "call_arg c = Some b" "F b = None" "F s = Some S" "b \<in> S"
      using ok by (auto simp: arg_ok_def)
    then have "b \<noteq> s" by auto
    moreover obtain w where "val_at h None s w S" using forest_parts(1)[OF F b(3)] by blast
    ultimately obtain cb where "h_read h b = Inr cb" "parent cb \<noteq> None" using inner_parent(1) b(4) by blast
    from owned_refused[OF v(1) b(1) this] show ?thesis by (intro exI[of _ 0] allI impI exI[of _ False] exI[of _ h]) simp
  next
    case False
    obtain w E where E: "case call_arg c of None \<Rightarrow> E = {} | Some b \<Rightarrow> val_at h None b w E \<and> F b = Some E \<and> b \<noteq> r"
    proof (cases "call_arg c")
      case None
      then show thesis using that by simp
    next
      case (Some b)
      then obtain E where e: "F b = Some E" "b \<noteq> r" using ok False r by (auto simp: arg_ok_def)
      then show thesis using that Some forest_parts(1)[OF F e(1)] by auto
    qed
    have RE: "R \<inter> E = {}" using E forest_parts(2)[OF F r] by (auto split: option.splits)
    have G: "E = {} \<and> without F (call_arg c) = F \<or>
        (\<exists>b. F b = Some E \<and> b \<noteq> r \<and> without F (call_arg c) = F(b := None))"
      using E by (auto simp: without_def split: option.splits)
    have "\<exists>st h'. heap_call n a c h = Some (Inr (st, h')) \<and>
        (if st then \<exists>R'. forest h' ((without F (call_arg c))(r \<mapsto> R')) else h' = h)" if n: "size V \<le> n" for n
    proof -
      have ref: "refines (heap_call n a c h) (tree_call c w v) h p a (A \<union> E)"
        by (rule call_refines[OF v(1)]) (use n v(2,3) E RE in \<open>auto split: option.splits\<close>)
      show ?thesis
      proof (cases "fst (tree_call c w v)")
        case False
        then show ?thesis using ref by (auto simp: refines_def split: prod.splits bool.splits)
      next
        case True
        then obtain h' v' A' where h': "heap_call n a c h = Some (Inr (True, h'))" "val_at h' p a v' A'" "becomes h h' (A \<union> E) A'"
          using ref by (auto simp: refines_def split: prod.splits bool.splits)
        note b = h'(3)[unfolded becomes_def]
        have same: "\<forall>x \<in> R - A. h_read h' x = h_read h x" "A' \<inter> (R - A) = {}" using b RE by auto
        from upd[OF h'(2) this] obtain V' where V': "val_at h' None r V' (R - A \<union> A')" by blast
        have "forest h' ((without F (call_arg c))(r \<mapsto> R - A \<union> A'))"
          by (rule forest_change[OF F r G V']) (use b v(2) RE in auto)
        then show ?thesis using h'(1) by auto
      qed
    qed
    then show ?thesis by blast
  qed
qed

section \<open>More fuel does not change a result\<close>

lemma and_then_mono:
  assumes "\<And>r. x = Some r \<Longrightarrow> y = Some r" and "and_then x f = Some r"
  shows "and_then y f = Some r"
proof (cases x)
  case (Some q)
  then show ?thesis using assms by simp
qed (use assms(2) in \<open>simp add: and_then_def\<close>)

lemma call_mono:
  assumes c: "heap_call n a c h = Some r" and nm: "n \<le> m"
  shows "heap_call m a c h = Some r"
proof -
  have v: "json_value_free n b h = Some r \<Longrightarrow> json_value_free m b h = Some r" for b h r using free_mono nm by blast
  have e: "free_each (json_value_free n) bs h = Some r \<Longrightarrow> free_each (json_value_free m) bs h = Some r" for bs h r
    using free_each_mono[of "json_value_free n" "json_value_free m"] v by blast
  note av = and_then_mono[OF v] and ae = and_then_mono[OF e]
  show ?thesis
  proof (cases c)
    case (Append b)
    then show ?thesis using c by simp
  next
    case (Replace ix b)
    then show ?thesis using c
      by (auto simp: heap_array_replace_def with_cell_def split: sum.splits content.splits if_splits intro: av)
  next
    case (RemoveItem ix)
    then show ?thesis using c
      by (auto simp: heap_array_remove_def with_cell_def split: sum.splits content.splits if_splits intro: av)
  next
    case ClearItems
    then show ?thesis using c
      by (auto simp: heap_array_clear_def with_cell_def split: sum.splits content.splits intro: ae)
  next
    case (SetMember k b)
    then show ?thesis using c
      by (auto simp: heap_object_set_def with_cell_def split: sum.splits content.splits if_splits option.splits intro: av)
  next
    case (RemoveMember k)
    then show ?thesis using c
      by (auto simp: heap_object_remove_def with_cell_def split: sum.splits content.splits option.splits intro: av)
  next
    case ClearMembers
    then show ?thesis using c
      by (auto simp: heap_object_clear_def with_cell_def split: sum.splits content.splits intro: ae)
  qed
qed

section \<open>Programs\<close>

text \<open>
  A program makes values, copies them, calls the operations and frees values that have no parent; \<open>owned\<close> are the
  values it has to free. The one rule: a value is not handed to a container that lies in its own tree.
\<close>

definition within :: "'n json_heap \<Rightarrow> addr \<Rightarrow> addr \<Rightarrow> bool" where
  "within h b a \<longleftrightarrow> (\<exists>v B. val_at h None b v B \<and> a \<in> B)"

definition rule_kept :: "'n json_heap \<Rightarrow> addr \<Rightarrow> call \<Rightarrow> bool" where
  "rule_kept h a c \<longleftrightarrow> (\<exists>x. h_read h a = Inr x) \<and>
     (\<forall>b. call_arg c = Some b \<longrightarrow> (\<exists>x. h_read h b = Inr x) \<and> \<not> within h b a)"

inductive program :: "'n json_heap \<Rightarrow> addr set \<Rightarrow> bool" where
  begins: "program [] {}"
| makes: "program h owned \<Longrightarrow> children k = [] \<Longrightarrow> init_value k h = (a, h') \<Longrightarrow> program h' (insert a owned)"
| copies: "program h owned \<Longrightarrow> h_read h a = Inr c \<Longrightarrow> heap_deep_copy n N (Some a) h = Some (Inr (b, h')) \<Longrightarrow>
    program h' (owned \<union> set_option b)"
| calls: "program h owned \<Longrightarrow> rule_kept h a c \<Longrightarrow> heap_call n a c h = Some (Inr (st, h')) \<Longrightarrow>
    program h' (if st then owned - set_option (call_arg c) else owned)"
| frees: "program h owned \<Longrightarrow> r \<in> owned \<Longrightarrow> json_value_free n r h = Some (Inr h') \<Longrightarrow> program h' (owned - {r})"

lemma rule_arg_ok:
  assumes F: "forest h F" and k: "rule_kept h a c"
  shows "\<exists>r R. F r = Some R \<and> a \<in> R \<and> arg_ok F r c"
proof -
  obtain r R where r: "F r = Some R" "a \<in> R" using k forest_parts(3)[OF F, of a] unfolding rule_kept_def by blast
  have "arg_ok F r c"
  proof (cases "call_arg c")
    case (Some b)
    obtain s S where s: "F s = Some S" "b \<in> S" using k Some forest_parts(3)[OF F, of b] unfolding rule_kept_def by blast
    have "\<not> within h b a" using k Some unfolding rule_kept_def by blast
    moreover have "within h r a" using forest_parts(1)[OF F r(1)] r(2) unfolding within_def by blast
    ultimately have "b \<noteq> r" by blast
    then show ?thesis using Some s by (auto simp: arg_ok_def)
  qed (simp add: arg_ok_def)
  then show ?thesis using r by blast
qed

lemma dom_without: "dom (without F b) = dom F - set_option b"
  by (cases b) (auto simp: without_def)

lemma called_result:
  assumes F: "forest h F" and k: "rule_kept h a c" and c: "heap_call n a c h = Some (Inr (st, h'))"
  shows "\<exists>F'. forest h' F' \<and> dom F' = (if st then dom F - set_option (call_arg c) else dom F)"
proof -
  obtain r R where r: "F r = Some R" "a \<in> R" "arg_ok F r c" using rule_arg_ok[OF F k] by blast
  obtain m where m: "\<forall>n \<ge> m. \<exists>st h'. heap_call n a c h = Some (Inr (st, h')) \<and>
    (if st then \<exists>R'. forest h' ((without F (call_arg c))(r \<mapsto> R')) else h' = h)"
    using forest_call[OF F r] by blast
  have "heap_call (max m n) a c h = Some (Inr (st, h'))" by (rule call_mono[OF c]) simp
  then have res: "if st then \<exists>R'. forest h' ((without F (call_arg c))(r \<mapsto> R')) else h' = h"
    using m[rule_format, of "max m n"] by auto
  show ?thesis
  proof (cases st)
    case True
    then obtain R' where R': "forest h' ((without F (call_arg c))(r \<mapsto> R'))" using res by auto
    have "r \<notin> set_option (call_arg c)" using r(1,3) by (cases "call_arg c") (auto simp: arg_ok_def)
    then have "dom ((without F (call_arg c))(r \<mapsto> R')) = dom F - set_option (call_arg c)"
      using r(1) by (auto simp: dom_without)
    with R' True show ?thesis by (intro exI[of _ "(without F (call_arg c))(r \<mapsto> R')"]) (simp del: dom_fun_upd fun_upd_apply)
  qed (use res F in auto)
qed

lemma program_forest: "program h owned \<Longrightarrow> \<exists>F. forest h F \<and> dom F = owned"
proof (induction rule: program.induct)
  case begins
  show ?case using forest_empty by blast
next
  case (makes h owned k a h')
  then obtain F where F: "forest h F" "dom F = owned" by blast
  from forest_init[OF F(1) makes(2,3)] F(2) show ?case by (intro exI[of _ "F(a \<mapsto> {a})"]) (simp del: fun_upd_apply)
next
  case (copies h owned a c n N b h')
  then obtain F where F: "forest h F" "dom F = owned" by blast
  obtain m where "\<forall>n \<ge> m. \<exists>b h' F'. heap_deep_copy n N (Some a) h = Some (Inr (b, h')) \<and> forest h' F' \<and> dom F' = dom F \<union> set_option b"
    using forest_copy[OF F(1) copies(2)] by blast
  moreover have "heap_deep_copy (max m n) N (Some a) h = Some (Inr (b, h'))" by (rule copy_mono[OF copies(3)]) simp
  ultimately have "\<exists>F'. forest h' F' \<and> dom F' = dom F \<union> set_option b" by (metis max.cobounded1 option.inject prod.inject sum.inject(2))
  then show ?case using F(2) by simp
next
  case (calls h owned a c n st h')
  then obtain F where F: "forest h F" "dom F = owned" by blast
  from called_result[OF F(1) calls(2,3)] F(2) show ?case by auto
next
  case (frees h owned r n h')
  then obtain F R where F: "forest h F" "dom F = owned" "F r = Some R" by blast
  obtain m where "\<forall>n \<ge> m. \<exists>h'. json_value_free n r h = Some (Inr h') \<and> forest h' (F(r := None))"
    using forest_free[OF F(1,3)] by blast
  moreover have "json_value_free (max m n) r h = Some (Inr h')" by (rule free_mono[OF frees(3)]) simp
  ultimately have "forest h' (F(r := None))" by (metis max.cobounded1 option.inject sum.inject(2))
  moreover have "dom (F(r := None)) = owned - {r}" using F(2) by (simp del: fun_upd_apply)
  ultimately show ?case by blast
qed

section \<open>Properties\<close>

text \<open>
  C20: memory is safe and not lost. In every state that a program reaches which keeps the rule: its next call, on any value that is alive
  with any value that is alive, the copy of any value that is alive and the freeing of any value it holds return without a
  fault (no use of what is freed, nothing freed twice), with enough fuel; and when it holds no more values, nothing is allocated.
\<close>

theorem program_memory_safe:
  assumes "program h owned"
  shows "(\<forall>a c. rule_kept h a c \<longrightarrow> (\<exists>m. \<forall>n \<ge> m. \<exists>st h'. heap_call n a c h = Some (Inr (st, h')))) \<and>
    (\<forall>a c. h_read h a = Inr c \<longrightarrow> (\<exists>m. \<forall>n \<ge> m. \<exists>b h'. heap_deep_copy n N (Some a) h = Some (Inr (b, h')))) \<and>
    (\<forall>r \<in> owned. \<exists>m. \<forall>n \<ge> m. \<exists>h'. json_value_free n r h = Some (Inr h')) \<and>
    (owned = {} \<longrightarrow> live h = 0)"
proof (intro conjI allI ballI impI)
  obtain F where F: "forest h F" "dom F = owned" using program_forest[OF assms] by blast
  show "\<exists>m. \<forall>n \<ge> m. \<exists>st h'. heap_call n a c h = Some (Inr (st, h'))" if k: "rule_kept h a c" for a c
  proof -
    obtain r R where r: "F r = Some R" "a \<in> R" "arg_ok F r c" using rule_arg_ok[OF F(1) k] by blast
    then show ?thesis using forest_call[OF F(1) r] by blast
  qed
  show "\<exists>m. \<forall>n \<ge> m. \<exists>b h'. heap_deep_copy n N (Some a) h = Some (Inr (b, h'))" if alive: "h_read h a = Inr c" for a c
  proof -
    obtain m where m: "\<And>n. m \<le> n \<Longrightarrow> \<exists>b h' F'. heap_deep_copy n N (Some a) h = Some (Inr (b, h')) \<and>
        forest h' F' \<and> dom F' = dom F \<union> set_option b"
      using forest_copy[OF F(1) alive, of N] by blast
    show ?thesis by (rule exI[of _ m], intro allI impI, drule m, elim exE conjE, intro exI)
  qed
  show "\<exists>m. \<forall>n \<ge> m. \<exists>h'. json_value_free n r h = Some (Inr h')" if "r \<in> owned" for r
  proof -
    obtain R where "F r = Some R" using \<open>r \<in> owned\<close> F(2) by (auto simp: dom_def)
    then show ?thesis using forest_free[OF F(1)] by blast
  qed
  show "live h = 0" if "owned = {}"
    using nothing_left F that by auto
qed

text \<open>The rule is needed: an array without a parent can be appended to itself, and is then never freed.\<close>

lemma array_in_itself:
  assumes "h_read h a = Inr \<lparr>parent = None, content = HArray []\<rparr>"
  shows "\<exists>h'. heap_array_append a a h = Some (Inr (True, h')) \<and> (\<forall>n. json_value_free n a h' = None)"
proof -
  from parent_set[OF assms, of a] obtain h1 where h1: "set_parent a a h = Some (Inr h1)"
    "h_read h1 a = Inr \<lparr>parent = Some a, content = HArray []\<rparr>" by auto
  from content_set[OF h1(2), of "on_items (\<lambda>as. as @ [a])" "HArray [a]"] obtain h2 where
    h2: "set_content a (on_items (\<lambda>as. as @ [a])) h1 = Some (Inr (True, h2))"
    "h_read h2 a = Inr \<lparr>parent = Some a, content = HArray [a]\<rparr>" by auto
  have "json_value_free n a h2 = None" for n
    by (induction n) (simp_all add: h2(2))
  then show ?thesis using h1(1) h2(1) assms by (auto simp: heap_array_append_def with_cell_def and_then_def)
qed

text \<open>An array is made, a null, the null is appended, the array is copied, the two arrays are freed.\<close>

lemma demo_program: "program [None, None, None, None :: int json_cell option] {}"
proof -
  let ?a = "\<lparr>parent = None, content = HArray []\<rparr> :: int json_cell" and ?n = "\<lparr>parent = None, content = HNull\<rparr> :: int json_cell"
  let ?a1 = "?a\<lparr>content := HArray [1]\<rparr>" and ?n1 = "?n\<lparr>parent := Some 0\<rparr>"
  let ?a2 = "?a\<lparr>content := HArray [3]\<rparr>" and ?n2 = "?n\<lparr>parent := Some 2\<rparr>"
  have p1: "program [Some ?a] {0}"
    using makes[OF begins, of "HArray []" 0 "[Some ?a]"] by (simp add: init_value_def h_alloc_def)
  have p2: "program [Some ?a, Some ?n] {1, 0}"
    using makes[OF p1, of HNull 1 "[Some ?a, Some ?n]"] by (simp add: init_value_def h_alloc_def)
  have "val_at [Some ?a, Some ?n] None 1 v B \<Longrightarrow> B = {1}" for v B
    by (erule val_at.cases) (auto simp: h_read_def)
  then have "rule_kept [Some ?a, Some ?n] 0 (Append 1)"
    by (auto simp: rule_kept_def within_def h_read_def)
  then have p3: "program [Some ?a1, Some ?n1] {0}"
    using calls[OF p2, of 0 "Append 1" 5 True "[Some ?a1, Some ?n1]"]
    by (simp add: heap_array_append_def with_cell_def and_then_def set_parent_def set_content_def h_read_def h_write_def)
  have "heap_deep_copy 5 int_numbers (Some 0) [Some ?a1, Some ?n1] = Some (Inr (Some 2, [Some ?a1, Some ?n1, Some ?a2, Some ?n2]))"
    by (simp add: heap_deep_copy.simps numeral_eq_Suc h_read_def init_value_def h_alloc_def made_def heap_array_add_def
        with_cell_def and_then_def set_parent_def set_content_def h_write_def)
  from copies[OF p3 _ this] have p4: "program [Some ?a1, Some ?n1, Some ?a2, Some ?n2] {0, 2}"
    by (simp add: h_read_def insert_commute)
  have p5: "program [None, None, Some ?a2, Some ?n2] {2}"
    using frees[OF p4, of 0 5 "[None, None, Some ?a2, Some ?n2]"]
    by (simp add: h_read_def h_free_def numeral_eq_Suc)
  show ?thesis
    using frees[OF p5, of 2 5 "[None, None, None, None]"]
    by (simp add: h_read_def h_free_def numeral_eq_Suc)
qed

theorem program_memory_safe_witness: "live [None, None, None, None :: int json_cell option] = 0"
  using program_memory_safe[OF demo_program] by blast

end
