(* ===== verification/Http_Client.thy ===== *)
theory Http_Client
  imports Http_Requests Json_Text
begin

text \<open>
  \<open>src/PCom3/client.c\<close>: the interactive client of the library server. Its state is the session
  cookie, the token, the line buffer, what is left of the standard input, what it has printed
  and the requests it has sent; a command is one round of the loop of \<open>main\<close>. The network is a
  parameter: for every connection, how much the calls of \<open>write\<close> take and what the server
  answers to what arrives. The host is the first argument of the program.
\<close>

section \<open>State\<close>

record client =
  cookie :: "string option"
  jwt :: "string option"
  line_buf :: "string option"
  stdin :: string
  stdout :: string
  requests :: "string list"
  running :: bool

type_synonym network = "nat \<Rightarrow> (nat \<Rightarrow> int) \<times> (string \<Rightarrow> socket)"

definition REGISTER :: string where "REGISTER = ''/api/v1/tema/auth/register''"
definition LOGIN :: string where "LOGIN = ''/api/v1/tema/auth/login''"
definition ACCESS :: string where "ACCESS = ''/api/v1/tema/library/access''"
definition BOOKS :: string where "BOOKS = ''/api/v1/tema/library/books''"
definition LOGOUT :: string where "LOGOUT = ''/api/v1/tema/auth/logout''"
definition JSON :: string where "JSON = ''application/json''"

definition client_start :: "string \<Rightarrow> client" where
  "client_start inp =
     \<lparr>cookie = None, jwt = None, line_buf = None, stdin = inp, stdout = [], requests = [], running = True\<rparr>"

definition printf :: "string \<Rightarrow> client \<Rightarrow> client" where
  "printf t s = s\<lparr>stdout := stdout s @ t\<rparr>"

section \<open>Input\<close>

text \<open>
  \<open>fgets (line_buf, LINELEN, stdin)\<close>: up to a line feed, which is kept, or 999 characters. At the
  end of the input it returns a null pointer, which the code does not look at, and leaves the
  buffer as it was.
\<close>

fun fgets_line :: "nat \<Rightarrow> string \<Rightarrow> string \<times> string" where
  "fgets_line 0 inp = ([], inp)"
| "fgets_line (Suc k) [] = ([], [])"
| "fgets_line (Suc k) (c # cs) =
     (if c = CHR 0x0A then ([c], cs) else let (l, r) = fgets_line k cs in (c # l, r))"

definition read_line :: "client \<Rightarrow> client" where
  "read_line s =
     (if stdin s = [] then s
      else let (l, r) = fgets_line (LINELEN - 1) (stdin s)
           in s\<lparr>line_buf := Some (takeWhile (\<lambda>c. c \<noteq> CHR 0x00) l), stdin := r\<rparr>)"

text \<open>
  A copy of the line without its last character: \<open>snprintf (p, strlen (line_buf), ...)\<close> writes one
  character less than the line has.
\<close>

definition get_field :: "client \<Rightarrow> (string \<times> client) res" where
  "get_field s =
     (let s1 = read_line s
      in case line_buf s1 of None \<Rightarrow> Inl UninitRead | Some l \<Rightarrow> Inr (butlast l, s1))"

definition ask :: "string \<Rightarrow> client \<Rightarrow> (string \<times> client) res" where
  "ask prompt s = get_field (printf prompt s)"

text \<open>The character \<open>0xFF\<close> equals \<open>EOF\<close> once it is stored in a \<open>char\<close>.\<close>

fun clear_stdin :: "string \<Rightarrow> string" where
  "clear_stdin [] = []"
| "clear_stdin (c # cs) = (if c = CHR 0x0A \<or> c = CHR 0xFF then cs else clear_stdin cs)"

definition scanf_d :: "client \<Rightarrow> int option \<times> client" where
  "scanf_d s = (let (v, r, _) = scan_d (stdin s) in (v, s\<lparr>stdin := r\<rparr>))"

section \<open>Responses\<close>

definition print_json :: "'n numbers \<Rightarrow> string \<Rightarrow> string res" where
  "print_json N content =
     bindE (deref (json_serialize_to_string_pretty N (json_parse_string N content))) (\<lambda>t.
     Inr ('' Server says:'' @ [CHR 0x0A] @ t @ [CHR 0x0A]))"

definition print_response :: "'n numbers \<Rightarrow> string option \<Rightarrow> string res" where
  "print_response N response =
     (case response of None \<Rightarrow> Inr []
      | Some resp \<Rightarrow>
          if take 8 resp \<noteq> ''HTTP/1.1'' then Inr (''[Bad Response]'' @ [CHR 0x0A])
          else bindE (deref (strstr resp CRLF)) (\<lambda>line_end.
            if length resp < 9 then Inl OutOfBounds
            else let status = drop 9 resp;
                     len = int (length status) - int (length line_end);
                     shown = ''[Server '' @ (if len < 0 then status else take (nat len) status) @ '']''
                 in bindE (case (basic_extract_json_response resp, basic_extract_json_array_response resp) of
                      (Some content, None) \<Rightarrow> print_json N content
                    | (_, Some content) \<Rightarrow> print_json N content
                    | (None, None) \<Rightarrow> Inr [CHR 0x0A]) (\<lambda>rest. Inr (shown @ rest))))"

text \<open>One connection: the request goes out, the response comes back and is printed.\<close>

definition exchange :: "'n numbers \<Rightarrow> network \<Rightarrow> string \<Rightarrow> client \<Rightarrow> (string \<times> client) res" where
  "exchange N net message s =
     (let (w, server) = net (length (requests s))
      in case send_to_server w message of None \<Rightarrow> Inl Exited
         | Some sent \<Rightarrow>
             bindE (receive_from_server (server sent)) (\<lambda>(b, _).
             bindE (print_response N (Some (c_string b))) (\<lambda>t.
             Inr (c_string b, printf t (s\<lparr>requests := requests s @ [sent]\<rparr>)))))"

section \<open>The session\<close>

text \<open>
  The cookie of a login response: the size handed to \<open>snprintf\<close> is computed in \<open>size_t\<close>; the
  array has \<open>LINELEN\<close> characters.
\<close>

definition SET_COOKIE :: string where "SET_COOKIE = ''Set-Cookie: ''"

definition login_cookie :: "string \<Rightarrow> string option \<Rightarrow> string option res" where
  "login_cookie resp old =
     (case strstr resp (SET_COOKIE @ ''connect.sid='') of None \<Rightarrow> Inr old
      | Some param \<Rightarrow>
          bindE (deref (strstr resp ''; Path'')) (\<lambda>path.
          let n = word_of_nat (length param) - word_of_nat (length SET_COOKIE) - word_of_nat (length path) + 1 :: u64;
              t = take (unat n - 1) (drop (length SET_COOKIE) param)
          in if n \<noteq> 0 \<and> LINELEN \<le> length t then Inl OutOfBounds
             else Inr (Some (if n = 0 then [] else t))))"

definition library_token :: "'n numbers \<Rightarrow> string \<Rightarrow> string option \<Rightarrow> string option res" where
  "library_token N resp old =
     (case basic_extract_json_response resp of None \<Rightarrow> Inr old
      | Some content \<Rightarrow>
          let ob = json_value_get_object (json_parse_string N content)
          in if json_object_has_value ob ''token''
             then bindE (deref (json_object_get_string ob ''token'')) (\<lambda>t.
                  Inr (Some (takeWhile (\<lambda>c. c \<noteq> CHR 0x00) t)))
             else Inr old)"

section \<open>Commands\<close>

definition set_strings ::
  "(string \<times> 'n json) list \<Rightarrow> (string \<times> string) list \<Rightarrow> (string \<times> 'n json) list" where
  "set_strings ms fs = fold (\<lambda>(name, t) ms. snd (json_object_set_string ms name t)) fs ms"

definition credentials :: "'n numbers \<Rightarrow> string \<Rightarrow> string \<Rightarrow> string option" where
  "credentials N username password =
     json_serialize_to_string_pretty N
       (Some (JObject (set_strings [] [(''username'', username), (''password'', password)])))"

definition post_credentials ::
  "'n numbers \<Rightarrow> network \<Rightarrow> string \<Rightarrow> string \<Rightarrow> client \<Rightarrow> (string \<times> client) res" where
  "post_credentials N net host path s =
     bindE (ask ''username='' s) (\<lambda>(username, s1).
     bindE (ask ''password='' s1) (\<lambda>(password, s2).
     bindE (compute_post_request host path JSON (Some [credentials N username password]) 1 None 0 None) (\<lambda>message.
     exchange N net message s2)))"

definition cmd_register :: "'n numbers \<Rightarrow> network \<Rightarrow> string \<Rightarrow> client \<Rightarrow> client res" where
  "cmd_register N net host s =
     bindE (post_credentials N net host REGISTER s) (\<lambda>(_, s1). Inr s1)"

definition cmd_login :: "'n numbers \<Rightarrow> network \<Rightarrow> string \<Rightarrow> client \<Rightarrow> client res" where
  "cmd_login N net host s =
     bindE (post_credentials N net host LOGIN s) (\<lambda>(response, s1).
     bindE (login_cookie response (cookie s1)) (\<lambda>c. Inr (s1\<lparr>cookie := c\<rparr>)))"

definition get_with_cookie ::
  "'n numbers \<Rightarrow> network \<Rightarrow> string \<Rightarrow> string \<Rightarrow> string option \<Rightarrow> client \<Rightarrow> (string \<times> client) res" where
  "get_with_cookie N net host path token s =
     bindE (compute_get_request host path None (Some [cookie s]) 1 token) (\<lambda>message.
     exchange N net message s)"

definition cmd_enter_library :: "'n numbers \<Rightarrow> network \<Rightarrow> string \<Rightarrow> client \<Rightarrow> client res" where
  "cmd_enter_library N net host s =
     bindE (get_with_cookie N net host ACCESS None s) (\<lambda>(response, s1).
     bindE (library_token N response (jwt s1)) (\<lambda>t. Inr (s1\<lparr>jwt := t\<rparr>)))"

definition cmd_get_books :: "'n numbers \<Rightarrow> network \<Rightarrow> string \<Rightarrow> client \<Rightarrow> client res" where
  "cmd_get_books N net host s =
     bindE (get_with_cookie N net host BOOKS (jwt s) s) (\<lambda>(_, s1). Inr s1)"

text \<open>
  The path of a book. When \<open>scanf\<close> finds no number the variable \<open>id\<close> is printed without ever
  having been assigned.
\<close>

definition book_path :: "int option \<Rightarrow> string res" where
  "book_path i =
     (case i of None \<Rightarrow> Inl UninitRead | Some v \<Rightarrow> sprintf_line (BOOKS @ ''/'' @ int_text v))"

definition ask_id :: "client \<Rightarrow> (string \<times> client) res" where
  "ask_id s =
     (let (i, s1) = scanf_d (printf ''id='' s); s2 = s1\<lparr>stdin := clear_stdin (stdin s1)\<rparr>
      in bindE (book_path i) (\<lambda>path. Inr (path, s2)))"

definition cmd_get_book :: "'n numbers \<Rightarrow> network \<Rightarrow> string \<Rightarrow> client \<Rightarrow> client res" where
  "cmd_get_book N net host s =
     bindE (ask_id s) (\<lambda>(path, s1).
     bindE (get_with_cookie N net host path (jwt s1) s1) (\<lambda>(_, s2). Inr s2))"

definition cmd_delete_book :: "'n numbers \<Rightarrow> network \<Rightarrow> string \<Rightarrow> client \<Rightarrow> client res" where
  "cmd_delete_book N net host s =
     bindE (ask_id s) (\<lambda>(path, s1).
     bindE (compute_delete_request host path (Some [cookie s1]) 1 (jwt s1)) (\<lambda>message.
     bindE (exchange N net message s1) (\<lambda>(_, s2). Inr s2)))"

definition cmd_logout :: "'n numbers \<Rightarrow> network \<Rightarrow> string \<Rightarrow> client \<Rightarrow> client res" where
  "cmd_logout N net host s =
     bindE (get_with_cookie N net host LOGOUT None s) (\<lambda>(_, s1). Inr s1)"

definition book_payload ::
  "'n numbers \<Rightarrow> string \<Rightarrow> string \<Rightarrow> string \<Rightarrow> string \<Rightarrow> int \<Rightarrow> string option" where
  "book_payload N title author genre publisher page_count =
     (let ms = set_strings [] [(''title'', title), (''author'', author), (''genre'', genre)];
          ms1 = snd (json_object_set_number N ms ''page_count'' (number_of_int N page_count));
          ms2 = snd (json_object_set_string ms1 ''publisher'' publisher)
      in json_serialize_to_string_pretty N (Some (JObject ms2)))"

definition cmd_add_book :: "'n numbers \<Rightarrow> network \<Rightarrow> string \<Rightarrow> client \<Rightarrow> client res" where
  "cmd_add_book N net host s =
     bindE (ask ''title='' s) (\<lambda>(title, s1).
     bindE (ask ''author='' s1) (\<lambda>(author, s2).
     bindE (ask ''genre='' s2) (\<lambda>(genre, s3).
     bindE (ask ''publisher='' s3) (\<lambda>(publisher, s4).
     let (count, s5) = scanf_d (printf ''page_count='' s4);
         cleared = (\<lambda>t. t\<lparr>stdin := clear_stdin (stdin t)\<rparr>)
     in case count of
          None \<Rightarrow> Inr (cleared (printf (''Invalid format for page_count!'' @ [CHR 0x0A]) s5))
        | Some page_count \<Rightarrow>
            if page_count < 0
            then Inr (cleared (printf (''Invalid format for page_count!'' @ [CHR 0x0A]) s5))
            else bindE (compute_post_request host BOOKS JSON
                   (Some [book_payload N title author genre publisher page_count]) 1
                   (Some [cookie s5]) 1 (jwt s5)) (\<lambda>message.
                 bindE (exchange N net message (cleared s5)) (\<lambda>(_, s6). Inr s6))))))"

text \<open>One round of the loop in \<open>main\<close>.\<close>

definition client_step :: "'n numbers \<Rightarrow> network \<Rightarrow> string \<Rightarrow> client \<Rightarrow> client res" where
  "client_step N net host s =
     bindE (get_field s) (\<lambda>(cmd, s1).
     if cmd = ''register'' then cmd_register N net host s1
     else if cmd = ''login'' then cmd_login N net host s1
     else if cmd = ''enter_library'' then cmd_enter_library N net host s1
     else if cmd = ''get_books'' then cmd_get_books N net host s1
     else if cmd = ''get_book'' then cmd_get_book N net host s1
     else if cmd = ''add_book'' then cmd_add_book N net host s1
     else if cmd = ''delete_book'' then cmd_delete_book N net host s1
     else if cmd = ''logout'' then cmd_logout N net host s1
     else if cmd = ''exit'' then Inr (s1\<lparr>running := False\<rparr>)
     else Inr (printf (''Command unrecognized'' @ [CHR 0x0A]) s1))"

text \<open>At most \<open>k\<close> rounds.\<close>

fun client_run :: "nat \<Rightarrow> 'n numbers \<Rightarrow> network \<Rightarrow> string \<Rightarrow> client \<Rightarrow> client res" where
  "client_run 0 N net host s = Inr s"
| "client_run (Suc k) N net host s =
     (if running s then bindE (client_step N net host s) (client_run k N net host) else Inr s)"

end
