(* ===== verification/Http_Session.thy ===== *)
theory Http_Session
  imports Http_Client
begin

text \<open>
  What the client of \<open>Http_Client\<close> does over a session: which requests the commands send, how
  the cookie and the token get from the responses into later requests, what the commands leave
  alone, and how the loop behaves on bad input and at the end of the input.
\<close>

section \<open>Typed lines and delivered responses\<close>

text \<open>A line as typed, without its line feed: it fits the line buffer whole.\<close>

definition typed :: "string \<Rightarrow> bool" where
  "typed t \<longleftrightarrow> CHR 0x0A \<notin> set t \<and> CHR 0x00 \<notin> set t \<and> length t < 999"

lemma fgets_line_whole:
  "CHR 0x0A \<notin> set t \<Longrightarrow> length t < k \<Longrightarrow> fgets_line k (t @ CHR 0x0A # r) = (t @ [CHR 0x0A], r)"
proof (induction t arbitrary: k)
  case Nil
  then show ?case by (cases k) auto
next
  case (Cons c t)
  then show ?case by (cases k) auto
qed

lemma get_field_typed:
  assumes "typed t" and "stdin s = t @ CHR 0x0A # r"
  shows "get_field s = Inr (t, s\<lparr>line_buf := Some (t @ [CHR 0x0A]), stdin := r\<rparr>)"
proof -
  have "takeWhile (\<lambda>c. c \<noteq> CHR 0x00) (t @ [CHR 0x0A]) = t @ [CHR 0x0A]"
    using assms(1) by (intro takeWhile_eq_all_conv[THEN iffD2]) (auto simp: typed_def)
  then show ?thesis
    using assms fgets_line_whole[of t "LINELEN - 1" r]
    by (simp add: get_field_def read_line_def typed_def LINELEN_def)
qed

lemma ask_typed:
  assumes "typed t" and "stdin s = t @ CHR 0x0A # r"
  shows "ask prompt s = Inr (t, s\<lparr>line_buf := Some (t @ [CHR 0x0A]), stdin := r, stdout := stdout s @ prompt\<rparr>)"
  using get_field_typed[of t "printf prompt s" r] assms by (simp add: ask_def printf_def)

text \<open>
  The network takes whatever is written on connection \<open>k\<close> and answers every request with the
  well formed response \<open>resp\<close>, in pieces of any sizes.
\<close>

definition delivers :: "network \<Rightarrow> nat \<Rightarrow> string \<Rightarrow> bool" where
  "delivers net k resp \<longleftrightarrow>
     (\<forall>i. 0 < fst (net k) i) \<and> CHR 0x00 \<notin> set resp \<and> (\<exists>pre hdr body. well_formed pre hdr body resp) \<and>
     (\<forall>msg. concat (snd (net k) msg) = resp \<and> [] \<notin> set (snd (net k) msg))"

lemma c_string_repr:
  assumes "buffer_repr b (msg @ [CHR 0x00])" and "CHR 0x00 \<notin> set msg"
  shows "c_string b = msg"
proof -
  have "data b = Some (map Some (msg @ [CHR 0x00]))"
    using assms(1) by (auto simp: buffer_repr_def split: option.splits)
  moreover have "takeWhile (\<lambda>c. c \<noteq> CHR 0x00) (msg @ [CHR 0x00]) = msg"
    using assms(2) by (subst takeWhile_append2) auto
  ultimately show ?thesis by (simp add: c_string_def comp_def)
qed

lemma exchange_delivers:
  assumes "delivers net (length (requests s)) resp"
  shows "exchange N net message s =
    bindE (print_response N (Some resp)) (\<lambda>t.
      Inr (resp, s\<lparr>requests := requests s @ [message], stdout := stdout s @ t\<rparr>))"
proof -
  obtain w server where n: "net (length (requests s)) = (w, server)" by fastforce
  with assms obtain pre hdr body where w: "\<And>i. 0 < w i" and z: "CHR 0x00 \<notin> set resp"
    and wf: "well_formed pre hdr body resp"
    and "concat (server message) = resp" "[] \<notin> set (server message)"
    by (auto simp: delivers_def)
  then obtain b where b: "receive_from_server (server message) = Inr (b, [])"
    "buffer_repr b (resp @ [CHR 0x00])"
    using receive_well_formed[OF wf, of "server message"] by blast
  have "c_string b = resp" using b(2) z by (rule c_string_repr)
  then show ?thesis using b(1) message_sent[of w message] w n
    by (simp add: exchange_def printf_def)
qed

section \<open>Cookie and token\<close>

lemma login_cookie_found:
  assumes "strstr resp (SET_COOKIE @ ''connect.sid='') = Some (SET_COOKIE @ c @ ''; Path'' @ z)"
    and "strstr resp ''; Path'' = Some (''; Path'' @ z)" and "length c < LINELEN"
  shows "login_cookie resp old = Inr (Some c)"
proof -
  let ?n = "word_of_nat (length (SET_COOKIE @ c @ ''; Path'' @ z)) - word_of_nat (length SET_COOKIE)
     - word_of_nat (length (''; Path'' @ z)) + 1 :: u64"
  have e: "?n = word_of_nat (length c + 1)" by (simp add: SET_COOKIE_def)
  have n: "unat ?n = length c + 1"
    unfolding e unat_of_nat using assms(3) by (simp add: LINELEN_def)
  then have "?n \<noteq> 0" by force
  with n assms show ?thesis
    by (simp add: login_cookie_def Let_def del: length_append)
qed

lemma library_token_found:
  assumes "basic_extract_json_response resp = Some content"
    and "json_parse_string N content = Some (JObject ms)" and "map_of ms ''token'' = Some (JString t)"
    and "CHR 0x00 \<notin> set t"
  shows "library_token N resp old = Inr (Some t)"
proof -
  have "takeWhile (\<lambda>c. c \<noteq> CHR 0x00) t = t" using assms(4) by (auto intro: takeWhile_eq_all_conv[THEN iffD2])
  with assms show ?thesis
    by (simp add: library_token_def json_value_get_object_def json_object_has_value_def
        json_object_get_string_def json_object_get_value_map_of)
qed

section \<open>What commands leave alone\<close>

text \<open>
  \<open>acts k\<close> holds of steps that keep the session state, send at most \<open>k\<close> requests, and leave the
  line buffer as it is at the end of the input.
\<close>

definition acts :: "nat \<Rightarrow> client \<Rightarrow> client \<Rightarrow> bool" where
  "acts k s s' \<longleftrightarrow> cookie s' = cookie s \<and> jwt s' = jwt s \<and> running s' = running s \<and>
     (stdin s = [] \<longrightarrow> stdin s' = [] \<and> line_buf s' = line_buf s) \<and>
     (\<exists>ms. requests s' = requests s @ ms \<and> length ms \<le> k)"

lemma acts_trans: "acts 0 s t \<Longrightarrow> acts k t u \<Longrightarrow> acts k s u"
  by (auto simp: acts_def)

lemma acts_mono: "acts j s t \<Longrightarrow> j \<le> k \<Longrightarrow> acts k s t"
  by (fastforce simp: acts_def)

lemma printf_acts: "acts 0 s (printf t s)"
  by (simp add: acts_def printf_def)

lemma read_line_acts: "acts 0 s (read_line s)"
  by (simp add: acts_def read_line_def split: prod.splits)

lemma get_field_acts: "get_field s = Inr (t, s') \<Longrightarrow> acts 0 s s'"
  using read_line_acts[of s] by (auto simp: get_field_def Let_def split: option.splits)

lemma ask_acts: "ask p s = Inr (t, s') \<Longrightarrow> acts 0 s s'"
  unfolding ask_def by (rule acts_trans[OF printf_acts get_field_acts])

lemma scanf_acts: "scanf_d s = (v, s') \<Longrightarrow> acts 0 s s'"
  by (auto simp: scanf_d_def acts_def scan_d_def split: prod.splits)

lemma clear_acts: "acts 0 s (s\<lparr>stdin := clear_stdin (stdin s)\<rparr>)"
  by (simp add: acts_def)

lemma exchange_acts: "exchange N net m s = Inr (r, s') \<Longrightarrow> acts (Suc 0) s s'"
  by (auto simp: exchange_def acts_def printf_def fault_simps split: option.splits prod.splits)

lemma ask_id_acts:
  assumes "ask_id s = Inr (p, s')"
  shows "acts 0 s s'"
proof -
  obtain i s1 where s1: "scanf_d (printf ''id='' s) = (i, s1)" by fastforce
  with assms have "s' = s1\<lparr>stdin := clear_stdin (stdin s1)\<rparr>"
    by (auto simp: ask_id_def fault_simps)
  then show ?thesis
    using acts_trans[OF printf_acts acts_trans[OF scanf_acts[OF s1] clear_acts]] by simp
qed

lemma get_with_cookie_acts:
  "get_with_cookie N net host path token s = Inr (r, s') \<Longrightarrow> acts (Suc 0) s s'"
  by (auto simp: get_with_cookie_def fault_simps dest: exchange_acts)

lemma post_credentials_acts:
  assumes "post_credentials N net host path s = Inr (r, s')"
  shows "acts (Suc 0) s s'"
proof -
  obtain u s1 p s2 m where "ask ''username='' s = Inr (u, s1)" "ask ''password='' s1 = Inr (p, s2)"
    "exchange N net m s2 = Inr (r, s')"
    using assms by (auto simp: post_credentials_def fault_simps)
  then show ?thesis by (blast intro: acts_trans ask_acts exchange_acts)
qed

lemma add_book_acts:
  assumes "cmd_add_book N net host s = Inr s'"
  shows "acts (Suc 0) s s'"
proof -
  obtain t s1 a s2 g s3 p s4 where asked: "ask ''title='' s = Inr (t, s1)" "ask ''author='' s1 = Inr (a, s2)"
    "ask ''genre='' s2 = Inr (g, s3)" "ask ''publisher='' s3 = Inr (p, s4)"
    using assms by (auto simp: cmd_add_book_def fault_simps)
  obtain i s5 where s5: "scanf_d (printf ''page_count='' s4) = (i, s5)" by fastforce
  let ?clear = "\<lambda>t. t\<lparr>stdin := clear_stdin (stdin t)\<rparr>"
  consider x where "s' = ?clear (printf x s5)" | m r where "exchange N net m (?clear s5) = Inr (r, s')"
    using assms asked s5 by (auto simp: cmd_add_book_def fault_simps Let_def split: option.splits if_splits)
  then have "acts (Suc 0) s5 s'"
  proof cases
    case 1
    then show ?thesis using acts_mono[OF acts_trans[OF printf_acts clear_acts]] by simp
  next
    case 2
    then show ?thesis by (rule acts_trans[OF clear_acts exchange_acts])
  qed
  then have "acts (Suc 0) s4 s'"
    by (rule acts_trans[OF acts_trans[OF printf_acts scanf_acts[OF s5]]])
  then show ?thesis
    by (intro acts_trans[OF ask_acts[OF asked(1)]] acts_trans[OF ask_acts[OF asked(2)]]
        acts_trans[OF ask_acts[OF asked(3)]] acts_trans[OF ask_acts[OF asked(4)]])
qed

text \<open>The commands other than \<open>login\<close>, \<open>enter_library\<close> and \<open>exit\<close> keep the session state.\<close>

lemma plain_commands_act:
  "cmd_register N net host s = Inr s' \<Longrightarrow> acts (Suc 0) s s'"
  "cmd_get_books N net host s = Inr s' \<Longrightarrow> acts (Suc 0) s s'"
  "cmd_get_book N net host s = Inr s' \<Longrightarrow> acts (Suc 0) s s'"
  "cmd_delete_book N net host s = Inr s' \<Longrightarrow> acts (Suc 0) s s'"
  "cmd_logout N net host s = Inr s' \<Longrightarrow> acts (Suc 0) s s'"
  by (auto simp: cmd_register_def cmd_get_books_def cmd_get_book_def cmd_delete_book_def
      cmd_logout_def fault_simps
      dest: post_credentials_acts get_with_cookie_acts exchange_acts ask_id_acts intro: acts_trans)

lemma session_commands_act:
  "cmd_login N net host s = Inr s' \<Longrightarrow> acts (Suc 0) s (s'\<lparr>cookie := cookie s\<rparr>)"
  "cmd_enter_library N net host s = Inr s' \<Longrightarrow> acts (Suc 0) s (s'\<lparr>jwt := jwt s\<rparr>)"
  by (auto simp: cmd_login_def cmd_enter_library_def fault_simps acts_def
      dest!: post_credentials_acts get_with_cookie_acts)

section \<open>The loop\<close>

lemma unnamed_acts: "Inr (printf x s) = Inr s' \<Longrightarrow> acts (Suc 0) s s'"
  using acts_mono[OF printf_acts, of "Suc 0" s x] by simp

lemma client_step_field:
  assumes "client_step N net host s = Inr s'"
  obtains cmd s1 where "get_field s = Inr (cmd, s1)"
  using assms by (cases "get_field s") (auto simp: client_step_def)

lemma client_step_acts:
  assumes "client_step N net host s = Inr s'" and "get_field s = Inr (cmd, s1)"
  shows "cmd \<notin> {''login'', ''enter_library'', ''exit''} \<Longrightarrow> acts (Suc 0) s1 s'"
    and "cmd = ''login'' \<Longrightarrow> acts (Suc 0) s1 (s'\<lparr>cookie := cookie s1\<rparr>)"
    and "cmd = ''enter_library'' \<Longrightarrow> acts (Suc 0) s1 (s'\<lparr>jwt := jwt s1\<rparr>)"
    and "cmd = ''exit'' \<Longrightarrow> s' = s1\<lparr>running := False\<rparr>"
proof -
  note r = assms(1)[unfolded client_step_def assms(2) bindE_Inr prod.case]
  show "acts (Suc 0) s1 s'" if "cmd \<notin> {''login'', ''enter_library'', ''exit''}"
  proof -
    have n: "cmd \<noteq> ''login''" "cmd \<noteq> ''enter_library''" "cmd \<noteq> ''exit''" using that by auto
    from r[unfolded if_not_P[OF n(1)] if_not_P[OF n(2)] if_not_P[OF n(3)]] show ?thesis
      by (simp only: split: if_split_asm)
        (erule plain_commands_act add_book_acts unnamed_acts)+
  qed
  show "cmd = ''login'' \<Longrightarrow> acts (Suc 0) s1 (s'\<lparr>cookie := cookie s1\<rparr>)"
    using r session_commands_act(1)[of N net host s1 s'] by simp
  show "cmd = ''enter_library'' \<Longrightarrow> acts (Suc 0) s1 (s'\<lparr>jwt := jwt s1\<rparr>)"
    using r session_commands_act(2)[of N net host s1 s'] by simp
  show "cmd = ''exit'' \<Longrightarrow> s' = s1\<lparr>running := False\<rparr>"
    using r by simp
qed

text \<open>
  C18: a command keeps the cookie unless it is \<open>login\<close> and the token unless it is
  \<open>enter_library\<close> (so \<open>logout\<close> keeps both), ends the loop exactly if it is \<open>exit\<close>, sends at most
  one request and never takes back one that was sent.
\<close>

theorem command_frame:
  assumes "client_step N net host s = Inr s'" and "get_field s = Inr (cmd, s1)"
  shows "(cmd \<noteq> ''login'' \<longrightarrow> cookie s' = cookie s) \<and> (cmd \<noteq> ''enter_library'' \<longrightarrow> jwt s' = jwt s) \<and>
    (running s' \<longleftrightarrow> running s \<and> cmd \<noteq> ''exit'') \<and>
    (\<exists>ms. requests s' = requests s @ ms \<and> length ms \<le> 1)"
proof -
  have a: "acts 0 s s1" using assms(2) by (rule get_field_acts)
  note r = client_step_acts[OF assms]
  consider (log_in) "cmd = ''login''" | (enter) "cmd = ''enter_library''" | (quit) "cmd = ''exit''"
    | (other) "cmd \<notin> {''login'', ''enter_library'', ''exit''}" by auto
  then show ?thesis
  proof cases
    case log_in
    then show ?thesis using a r(2)[OF log_in] by (simp add: acts_def)
  next
    case enter
    then show ?thesis using a r(3)[OF enter] by (simp add: acts_def)
  next
    case quit
    then show ?thesis using a r(4)[OF quit] by (simp add: acts_def)
  next
    case other
    then show ?thesis using a r(1)[OF other] by (simp add: acts_def)
  qed
qed

text \<open>
  C40: at the end of the input the loop does not end. \<open>fgets\<close> then leaves the line buffer as it
  was and nothing checks it, so the last command, unless it is \<open>exit\<close>, is carried out again and
  again: however many rounds are run, if no fault stops them the client is still running. A last
  line that is no command prints its message once per round, for ever.
\<close>

theorem end_of_input_never_ends:
  assumes "stdin s = []" and "running s" and "line_buf s = Some l" and "butlast l \<noteq> ''exit''"
  shows "(client_run k N net host s = Inr s' \<longrightarrow> running s' \<and> stdin s' = [] \<and> line_buf s' = Some l) \<and>
    (butlast l = ''quit'' \<longrightarrow>
      client_run k N net host s
        = Inr (s\<lparr>stdout := stdout s @ concat (replicate k (''Command unrecognized'' @ [CHR 0x0A]))\<rparr>))"
proof -
  define idle where "idle s \<longleftrightarrow> stdin s = [] \<and> running s \<and> line_buf s = Some l" for s :: client
  have step: "idle t'" if "idle t" "client_step N net host t = Inr t'" for t t'
  proof -
    have "get_field t = Inr (butlast l, t)"
      using that(1) by (simp add: idle_def get_field_def read_line_def)
    from client_step_acts[OF that(2) this] assms(4)
    consider "acts (Suc 0) t (t'\<lparr>cookie := cookie t\<rparr>)" | "acts (Suc 0) t (t'\<lparr>jwt := jwt t\<rparr>)"
      | "acts (Suc 0) t t'" by auto
    then show ?thesis using that(1) by cases (simp_all add: idle_def acts_def)
  qed
  have run: "idle t \<Longrightarrow> client_run k N net host t = Inr t' \<Longrightarrow> idle t'" for k t t'
    by (induction k arbitrary: t) (auto simp: fault_simps idle_def[of t] dest: step split: if_splits)
  have quit: "client_run k N net host t
      = Inr (t\<lparr>stdout := stdout t @ concat (replicate k (''Command unrecognized'' @ [CHR 0x0A]))\<rparr>)"
    if "idle t" "butlast l = ''quit''" for k t
    using that
  proof (induction k arbitrary: t)
    case (Suc k)
    have "client_step N net host t = Inr (printf (''Command unrecognized'' @ [CHR 0x0A]) t)"
      using Suc.prems by (simp add: client_step_def idle_def get_field_def read_line_def)
    moreover have "idle (printf x t)" for x using Suc.prems by (simp add: idle_def printf_def)
    ultimately show ?case using Suc by (simp add: idle_def printf_def)
  qed simp
  have "idle s" using assms(1-3) by (simp add: idle_def)
  then show ?thesis using run[of s k s'] quit[of s k] unfolding idle_def by blast
qed

lemma end_of_input_never_ends_witness:
  "client_run 3 int_numbers (\<lambda>_. (\<lambda>_. 1, \<lambda>_. [])) ''h''
      (client_start []\<lparr>line_buf := Some (''quit'' @ [CHR 0x0A])\<rparr>)
    = Inr (client_start []\<lparr>line_buf := Some (''quit'' @ [CHR 0x0A]),
        stdout := concat (replicate 3 (''Command unrecognized'' @ [CHR 0x0A]))\<rparr>)"
  using end_of_input_never_ends[of "client_start []\<lparr>line_buf := Some (''quit'' @ [CHR 0x0A])\<rparr>"
      "''quit'' @ [CHR 0x0A]" 3 int_numbers "\<lambda>_. (\<lambda>_. 1, \<lambda>_. [])" "''h''"]
  by (simp add: client_start_def)

lemma command_frame_witness:
  "client_step int_numbers (\<lambda>_. (\<lambda>_. 1, \<lambda>_. [])) ''h'' (client_start (''exit'' @ [CHR 0x0A]))
      = Inr (client_start []\<lparr>line_buf := Some (''exit'' @ [CHR 0x0A]), running := False\<rparr>) \<and>
   jwt (client_start []\<lparr>line_buf := Some (''exit'' @ [CHR 0x0A]), running := False\<rparr>)
      = jwt (client_start (''exit'' @ [CHR 0x0A]))"
proof -
  let ?s = "client_start (''exit'' @ [CHR 0x0A])"
  let ?t = "client_start []\<lparr>line_buf := Some (''exit'' @ [CHR 0x0A])\<rparr>"
  have g: "get_field ?s = Inr (''exit'', ?t)"
    using get_field_typed[of "''exit''" ?s "[]"] by (simp add: typed_def client_start_def)
  then have step: "client_step int_numbers (\<lambda>_. (\<lambda>_. 1, \<lambda>_. [])) ''h'' ?s = Inr (?t\<lparr>running := False\<rparr>)"
    by (simp add: client_step_def)
  from command_frame[OF step g] step show ?thesis by simp
qed

section \<open>A session\<close>

text \<open>The lines of the requests that the client sends.\<close>

definition get_lines :: "string \<Rightarrow> string \<Rightarrow> string option \<Rightarrow> string option \<Rightarrow> string list" where
  "get_lines host path token sid =
     [''GET '' @ path @ '' HTTP/1.1'', ''Host: '' @ host] @ auth_lines token @
     [''Cookie: '' @ percent_s sid @ ''; '', []]"

definition credentials_lines :: "string \<Rightarrow> string \<Rightarrow> string \<Rightarrow> string list" where
  "credentials_lines host path body =
     [''POST '' @ path @ '' HTTP/1.1'', ''Host: '' @ host, ''Content-Type: application/json'',
      ''Content-Length: '' @ nat_text (length body), [], body]"

definition fits :: "string list \<Rightarrow> bool" where
  "fits ls \<longleftrightarrow> list_all (\<lambda>l. length l < LINELEN) ls \<and> length (message_text ls) < BUFLEN"

lemma built_fits: "fits ls \<Longrightarrow> built ls = Inr (message_text ls)"
  by (simp add: built_def fits_def)

lemma get_with_cookie_sends:
  assumes "fits (get_lines host path token (cookie s))"
    and "delivers net (length (requests s)) resp" and "print_response N (Some resp) = Inr t"
  shows "get_with_cookie N net host path token s =
    Inr (resp, s\<lparr>requests := requests s @ [message_text (get_lines host path token (cookie s))],
      stdout := stdout s @ t\<rparr>)"
proof -
  have "compute_get_request host path None (Some [cookie s]) (Suc 0) token
      = Inr (message_text (get_lines host path token (cookie s)))"
    using get_request_lines[of "Suc 0" "Some [cookie s]" host path None token] built_fits[OF assms(1)]
    by (simp add: get_lines_def cookie_lines_def items_text_def)
  then show ?thesis
    by (simp add: get_with_cookie_def exchange_delivers[OF assms(2)] assms(3))
qed

lemma post_credentials_sends:
  assumes "typed u" and "typed p" and "stdin s = u @ CHR 0x0A # p @ CHR 0x0A # rest"
    and "credentials N u p = Some body" and "length body < 999"
    and "fits (credentials_lines host path body)"
    and "delivers net (length (requests s)) resp" and "print_response N (Some resp) = Inr t"
  shows "post_credentials N net host path s =
    Inr (resp, s\<lparr>line_buf := Some (p @ [CHR 0x0A]), stdin := rest,
      requests := requests s @ [message_text (credentials_lines host path body)],
      stdout := stdout s @ ''username='' @ ''password='' @ t\<rparr>)"
proof -
  let ?s1 = "s\<lparr>line_buf := Some (u @ [CHR 0x0A]), stdin := p @ CHR 0x0A # rest,
    stdout := stdout s @ ''username=''\<rparr>"
  let ?s2 = "s\<lparr>line_buf := Some (p @ [CHR 0x0A]), stdin := rest,
    stdout := stdout s @ ''username='' @ ''password=''\<rparr>"
  have a1: "ask ''username='' s = Inr (u, ?s1)"
    by (rule ask_typed) (use assms in auto)
  have a2: "ask ''password='' ?s1 = Inr (p, ?s2)"
    using ask_typed[of p ?s1 rest "''password=''"] assms(2) by simp
  have m: "compute_post_request host path JSON (Some [credentials N u p]) (Suc 0) None 0 None
      = Inr (message_text (credentials_lines host path body))"
    using post_request_lines[of 0 None host path JSON body None] built_fits[OF assms(6)] assms(4,5)
    by (simp add: credentials_lines_def JSON_def auth_lines_def cookie_lines_def)
  have d: "delivers net (length (requests ?s2)) resp" using assms(7) by simp
  show ?thesis
    unfolding post_credentials_def a1 bindE_Inr prod.case a2
    using m exchange_delivers[OF d, of N] assms(8) by simp
qed

text \<open>
  C7: a session carries its credentials. When the user logs in with a name and a password, enters
  the library and asks for the books, and the server answers the login with a session cookie and
  the entry with a token, the client sends exactly three requests: the JSON text of the
  credentials, with its length; the request for access with the cookie; the request for the books
  with the cookie and the token. It keeps cookie and token for the commands that follow.
\<close>

theorem session_requests:
  assumes "running s"
    and "stdin s = ''login'' @ CHR 0x0A # u @ CHR 0x0A # p @ CHR 0x0A #
      ''enter_library'' @ CHR 0x0A # ''get_books'' @ CHR 0x0A # rest"
    and "typed u" and "typed p"
    and "credentials N u p = Some body" and "length body < 999"
    and "\<forall>i < 3. delivers net (length (requests s) + i) (resp i) \<and>
      (\<exists>t. print_response N (Some (resp i)) = Inr t)"
    and "strstr (resp 0) (SET_COOKIE @ ''connect.sid='') = Some (SET_COOKIE @ c @ ''; Path'' @ z)"
    and "strstr (resp 0) ''; Path'' = Some (''; Path'' @ z)" and "length c < LINELEN"
    and "basic_extract_json_response (resp 1) = Some content"
    and "json_parse_string N content = Some (JObject ms)"
    and "map_of ms ''token'' = Some (JString tok)" and "CHR 0x00 \<notin> set tok"
    and "fits (credentials_lines host LOGIN body)" and "fits (get_lines host ACCESS None (Some c))"
    and "fits (get_lines host BOOKS (Some tok) (Some c))"
  shows "\<exists>s'. client_run 3 N net host s = Inr s' \<and>
    requests s' = requests s @ map message_text
      [credentials_lines host LOGIN body, get_lines host ACCESS None (Some c),
       get_lines host BOOKS (Some tok) (Some c)] \<and>
    cookie s' = Some c \<and> jwt s' = Some tok \<and> stdin s' = rest \<and> running s'"
proof -
  have d: "delivers net (length (requests s)) (resp 0)" "delivers net (Suc (length (requests s))) (resp 1)"
    "delivers net (Suc (Suc (length (requests s)))) (resp 2)"
    using assms(7)[rule_format, of 0] assms(7)[rule_format, of 1] assms(7)[rule_format, of 2] by simp_all
  obtain t where t: "print_response N (Some (resp 0)) = Inr (t 0)"
    "print_response N (Some (resp 1)) = Inr (t 1)" "print_response N (Some (resp 2)) = Inr (t (2 :: nat))"
    using assms(7) by (metis less_numeral_extra(1) one_less_numeral_iff semiring_norm(77) zero_less_numeral lessI numeral_3_eq_3 numeral_2_eq_2)
  define s1 where "s1 = s\<lparr>cookie := Some c, line_buf := Some (p @ [CHR 0x0A]),
    stdin := ''enter_library'' @ CHR 0x0A # ''get_books'' @ CHR 0x0A # rest,
    requests := requests s @ [message_text (credentials_lines host LOGIN body)],
    stdout := stdout s @ ''username='' @ ''password='' @ t 0\<rparr>"
  define s2 where "s2 = s1\<lparr>jwt := Some tok, line_buf := Some (''enter_library'' @ [CHR 0x0A]),
    stdin := ''get_books'' @ CHR 0x0A # rest,
    requests := requests s1 @ [message_text (get_lines host ACCESS None (Some c))],
    stdout := stdout s1 @ t 1\<rparr>"
  define s3 where "s3 = s2\<lparr>line_buf := Some (''get_books'' @ [CHR 0x0A]), stdin := rest,
    requests := requests s2 @ [message_text (get_lines host BOOKS (Some tok) (Some c))],
    stdout := stdout s2 @ t 2\<rparr>"
  have g: "get_field r = Inr (cmd, r\<lparr>line_buf := Some (cmd @ [CHR 0x0A]), stdin := x\<rparr>)"
    if "stdin r = cmd @ CHR 0x0A # x" "cmd \<in> {''login'', ''enter_library'', ''get_books''}" for r cmd x
    by (rule get_field_typed) (use that in \<open>auto simp: typed_def\<close>)
  have "client_step N net host s = Inr s1"
    using g[OF assms(2)] login_cookie_found[OF assms(8-10)] d(1) t(1)
      post_credentials_sends[OF assms(3,4) _ assms(5,6,15), of _ _ net "resp 0" "t 0"]
    by (simp add: client_step_def cmd_login_def s1_def)
  moreover have "client_step N net host s1 = Inr s2"
    using g[of s1 "''enter_library''"] library_token_found[OF assms(11-14)] d(2) t(2) assms(16)
    by (simp add: client_step_def cmd_enter_library_def s1_def s2_def get_with_cookie_sends)
  moreover have "client_step N net host s2 = Inr s3"
    using g[of s2 "''get_books''"] d(3) t(3) assms(17)
    by (simp add: client_step_def cmd_get_books_def s1_def s2_def s3_def get_with_cookie_sends)
  ultimately have "client_run 3 N net host s = Inr s3"
    using assms(1) by (simp add: numeral_3_eq_3 s1_def s2_def)
  then show ?thesis using assms(1) by (intro exI[of _ s3]) (simp add: s1_def s2_def s3_def)
qed

section \<open>An example session\<close>

text \<open>Searching from the left, for computing a first occurrence.\<close>

fun starts_with :: "'a list \<Rightarrow> 'a list \<Rightarrow> bool" where
  "starts_with [] xs = True"
| "starts_with (d # ds) [] = False"
| "starts_with (d # ds) (x # xs) = (if d = x then starts_with ds xs else False)"

fun locate :: "'a list \<Rightarrow> 'a list \<Rightarrow> nat option" where
  "locate d [] = (if d = [] then Some 0 else None)"
| "locate d (x # xs) = (if starts_with d (x # xs) then Some 0 else map_option Suc (locate d xs))"

lemma starts_with_take: "starts_with d xs \<longleftrightarrow> take (length d) xs = d"
  by (induction d xs rule: starts_with.induct) auto

lemma find_map_Suc: "find P (map Suc ks) = map_option Suc (find (\<lambda>i. P (Suc i)) ks)"
  by (induction ks) auto

lemma occurs_at_head: "occurs_at g d xs 0 \<longleftrightarrow> starts_with (map g d) (map g xs)"
proof -
  have "length d \<le> length xs" if "take (length d) (map g xs) = map g d"
    using arg_cong[OF that, of length] by simp
  then show ?thesis unfolding occurs_at_def starts_with_take length_map take_map by auto
qed

lemma first_occurrence_locate: "first_occurrence g d xs = locate (map g d) (map g xs)"
proof (induction xs)
  case Nil
  then show ?case by (simp add: first_occurrence_def occurs_at_def)
next
  case (Cons x xs)
  have upt: "[0..<length (x # xs) + 1] = 0 # map Suc [0..<length xs + 1]"
    by (simp add: upt_conv_Cons map_Suc_upt del: upt_Suc)
  have shift: "(\<lambda>i. occurs_at g d (x # xs) (Suc i)) = occurs_at g d xs"
    by (rule ext) (simp add: occurs_at_def)
  have "first_occurrence g d (x # xs)
      = (if occurs_at g d (x # xs) 0 then Some 0 else map_option Suc (first_occurrence g d xs))"
    unfolding first_occurrence_def upt find_map_Suc find.simps(2) shift by (rule refl)
  then show ?case by (simp add: Cons occurs_at_head)
qed

text \<open>Responses for the example, and the credentials they answer.\<close>

definition example_response :: "nat \<Rightarrow> string" where
  "example_response k =
     ''HTTP/1.1 200 OK'' @ CRLF @
     (if k = 0 then ''Set-Cookie: connect.sid=a1; Path=/'' @ CRLF @ ''Content-Length: 0'' @ HEADER_TERMINATOR
      else if k = 1 then ''Content-Length: 13'' @ HEADER_TERMINATOR @
        [CHR ''{'', CHR 0x22] @ ''token'' @ [CHR 0x22, CHR '':'', CHR 0x22, CHR ''t'', CHR 0x22, CHR ''}'']
      else ''Content-Length: 2'' @ HEADER_TERMINATOR @ ''[]'')"

definition example_net :: network where
  "example_net k = (\<lambda>_. 1000, \<lambda>_. [example_response k])"

definition example_body :: string where
  "example_body = the (credentials int_numbers ''a'' ''b'')"

lemma well_formedI:
  assumes "msg = pre @ CONTENT_LENGTH @ nat_text (length body) @ HEADER_TERMINATOR @ body"
    and "locate HEADER_TERMINATOR msg = Some (length (pre @ CONTENT_LENGTH @ nat_text (length body)))"
    and "locate (map tolower CONTENT_LENGTH) (map tolower msg) = Some (length pre)"
    and "length msg < 2147483648"
  shows "\<exists>pre hdr body. well_formed pre hdr body msg"
proof -
  have "well_formed pre (pre @ CONTENT_LENGTH @ nat_text (length body)) body msg"
    unfolding well_formed_def first_occurrence_locate
    using assms by (intro conjI exI[of _ CONTENT_LENGTH] exI[of _ "[]"]) simp_all
  then show ?thesis by blast
qed

lemma example_searches:
  "locate HEADER_TERMINATOR (example_response 0) = Some 70"
  "locate (map tolower CONTENT_LENGTH) (map tolower (example_response 0)) = Some 53"
  "locate HEADER_TERMINATOR (example_response 1) = Some 35"
  "locate (map tolower CONTENT_LENGTH) (map tolower (example_response 1)) = Some 17"
  "locate HEADER_TERMINATOR (example_response 2) = Some 34"
  "locate (map tolower CONTENT_LENGTH) (map tolower (example_response 2)) = Some 17"
  by code_simp+

lemma nat_text_examples: "nat_text 0 = ''0''" "nat_text 2 = ''2''" "nat_text 13 = ''13''"
  by code_simp+

lemma example_well_formed: "\<exists>pre hdr body. well_formed pre hdr body (example_response k)"
proof -
  let ?ok = "''HTTP/1.1 200 OK'' @ CRLF"
  let ?token = "[CHR ''{'', CHR 0x22] @ ''token'' @ [CHR 0x22, CHR '':'', CHR 0x22, CHR ''t'', CHR 0x22, CHR ''}'']"
  note texts = example_response_def CRLF_def HEADER_TERMINATOR_def CONTENT_LENGTH_def nat_text_examples
    nat_text_examples(2,3)[unfolded eval_nat_numeral BitM.simps One_nat_def]
  have "\<exists>pre hdr body. well_formed pre hdr body (example_response 0)"
    by (rule well_formedI[of _ "?ok @ ''Set-Cookie: connect.sid=a1; Path=/'' @ CRLF" "[]"])
      (simp_all only: example_searches, simp_all add: texts)
  moreover have "\<exists>pre hdr body. well_formed pre hdr body (example_response 1)"
    by (rule well_formedI[of _ ?ok ?token])
      (simp_all only: example_searches, simp_all add: texts)
  moreover have "\<exists>pre hdr body. well_formed pre hdr body (example_response 2)"
    by (rule well_formedI[of _ ?ok "''[]''"])
      (simp_all only: example_searches, simp_all add: texts)
  moreover have "example_response k = example_response 0 \<or> example_response k = example_response 1 \<or>
    example_response k = example_response 2" by (simp add: example_response_def)
  ultimately show ?thesis by presburger
qed

lemma example_delivers: "delivers example_net k (example_response k)"
proof -
  have "CHR 0x00 \<notin> set (example_response k) \<and> example_response k \<noteq> []"
    by (simp add: example_response_def CRLF_def HEADER_TERMINATOR_def)
  then show ?thesis using example_well_formed[of k] by (auto simp: delivers_def example_net_def)
qed

lemma session_requests_witness:
  "\<exists>s'. client_run 3 int_numbers example_net ''h'' (client_start (''login'' @ CHR 0x0A # ''a'' @ CHR 0x0A #
      ''b'' @ CHR 0x0A # ''enter_library'' @ CHR 0x0A # ''get_books'' @ CHR 0x0A # [])) = Inr s' \<and>
    requests s' = [message_text (credentials_lines ''h'' LOGIN example_body),
      message_text (get_lines ''h'' ACCESS None (Some ''connect.sid=a1'')),
      message_text (get_lines ''h'' BOOKS (Some ''t'') (Some ''connect.sid=a1''))] \<and>
    cookie s' = Some ''connect.sid=a1'' \<and> jwt s' = Some ''t'' \<and> stdin s' = [] \<and> running s'"
proof -
  let ?json = "[CHR ''{'', CHR 0x22] @ ''token'' @ [CHR 0x22, CHR '':'', CHR 0x22, CHR ''t'', CHR 0x22, CHR ''}'']"
  have 1: "credentials int_numbers ''a'' ''b'' = Some example_body"
    by (simp add: example_body_def credentials_def json_serialize_to_string_pretty_def)
  have "isl (print_response int_numbers (Some (example_response 0))) = False"
    "isl (print_response int_numbers (Some (example_response 1))) = False"
    "isl (print_response int_numbers (Some (example_response 2))) = False" by code_simp+
  then have printed: "\<exists>t. print_response int_numbers (Some (example_response 0)) = Inr t"
    "\<exists>t. print_response int_numbers (Some (example_response 1)) = Inr t"
    "\<exists>t. print_response int_numbers (Some (example_response 2)) = Inr t"
    by (metis isl_def sum.exhaust_sel sum.disc(1) sumE)+
  have 2: "\<forall>i < 3. delivers example_net (0 + i) (example_response i) \<and>
      (\<exists>t. print_response int_numbers (Some (example_response i)) = Inr t)"
    using example_delivers printed by (auto simp: less_Suc_eq numeral_3_eq_3 numeral_2_eq_2)
  have 3: "strstr (example_response 0) (SET_COOKIE @ ''connect.sid='')
      = Some (SET_COOKIE @ ''connect.sid=a1'' @ ''; Path'' @ ''=/'' @ CRLF @ ''Content-Length: 0'' @ HEADER_TERMINATOR)"
    "strstr (example_response 0) ''; Path''
      = Some (''; Path'' @ ''=/'' @ CRLF @ ''Content-Length: 0'' @ HEADER_TERMINATOR)"
    by code_simp+
  have 4: "basic_extract_json_response (example_response 1) = Some ?json"
    "json_parse_string int_numbers ?json = Some (JObject [(''token'', JString ''t'')])"
    by code_simp+
  have 5: "length example_body < 999" "fits (credentials_lines ''h'' LOGIN example_body)"
    "fits (get_lines ''h'' ACCESS None (Some ''connect.sid=a1''))"
    "fits (get_lines ''h'' BOOKS (Some ''t'') (Some ''connect.sid=a1''))" by code_simp+
  from session_requests[of "client_start (''login'' @ CHR 0x0A # ''a'' @ CHR 0x0A #
      ''b'' @ CHR 0x0A # ''enter_library'' @ CHR 0x0A # ''get_books'' @ CHR 0x0A # [])" "''a''" "''b''" "[]"
      int_numbers example_body example_net example_response "''connect.sid=a1''" _ ?json
      "[(''token'', JString ''t'')]" "''t''" "''h''", OF _ _ _ _ 1 5(1) _ 3 _ 4 _ _ 5(2-4)] 2
  show ?thesis by (simp add: client_start_def typed_def LINELEN_def)
qed

end
