(* ===== verification/Broker_Protocol.thy ===== *)
theory Broker_Protocol
  imports Byte_Order C_Text
begin

text \<open>
  The messages of the publish/subscribe system in \<open>src/PCom2\<close>: the structures of \<open>protocol.h\<close> as
  they lie in memory on x86-64, the packet message that the server composes
  (\<open>Client::send_packet\<close> in \<open>server.cpp\<close>), and how a subscriber takes it apart and prints it
  (\<open>rebuild_packet\<close> and the \<open>print_\<close> functions in \<open>subscriber.cpp\<close>).
\<close>

section \<open>Structures and sizes\<close>

definition TOPIC_LEN :: nat where "TOPIC_LEN = 50"
definition CONTENT_LEN :: nat where "CONTENT_LEN = 1500"

definition EXIT_MSG :: u8 where "EXIT_MSG = 0"
definition CONF_MSG :: u8 where "CONF_MSG = 1"
definition PKT_MSG :: u8 where "PKT_MSG = 2"
definition ID_MSG :: u8 where "ID_MSG = 3"
definition SUB_MSG :: u8 where "SUB_MSG = 4"
definition UNSUB_MSG :: u8 where "UNSUB_MSG = 5"
definition ERR_MSG :: u8 where "ERR_MSG = 6"

text \<open>The sizes of the structures; \<open>struct packet\<close> ends with three bytes of padding.\<close>

definition UDPPACKET_LEN :: nat where "UDPPACKET_LEN = 1551"
definition PACKET_LEN :: nat where "PACKET_LEN = 1560"
definition SUBSPACKET_LEN :: nat where "SUBSPACKET_LEN = 51"
definition SIZEPACKET_LEN :: nat where "SIZEPACKET_LEN = 24"
definition MSG_LEN :: nat where "MSG_LEN = 52"

lemmas protocol_sizes = TOPIC_LEN_def CONTENT_LEN_def UDPPACKET_LEN_def PACKET_LEN_def
  SUBSPACKET_LEN_def SIZEPACKET_LEN_def MSG_LEN_def

record udp_packet =
  topic :: "u8 list"
  data_type :: u8
  content :: "u8 list"

record tcp_packet =
  udp_client_ip :: u32
  udp_client_port :: u16
  udp_msg :: udp_packet

record size_packet =
  to_receive :: nat
  topic_size :: nat
  content_size :: nat

definition udp_ok :: "udp_packet \<Rightarrow> bool" where
  "udp_ok m \<longleftrightarrow> length (topic m) = TOPIC_LEN \<and> length (content m) = CONTENT_LEN"

text \<open>Bytes followed by zeros up to a size: a buffer cleared by \<open>memset\<close> and filled from the front.\<close>

definition zero_fill :: "nat \<Rightarrow> u8 list \<Rightarrow> u8 list" where
  "zero_fill n bs = bs @ replicate (n - length bs) 0"

text \<open>A C string in memory: up to the first zero byte.\<close>

definition cstr :: "u8 list \<Rightarrow> u8 list" where
  "cstr bs = takeWhile (\<lambda>b. b \<noteq> 0) bs"

text \<open>
  Nothing ends a topic of \<open>TOPIC_LEN\<close> characters or a content of \<open>CONTENT_LEN\<close>: what follows in
  the structure is read on, the data type, the content and the padding, which is zero.
\<close>

definition topic_memory :: "udp_packet \<Rightarrow> u8 list" where
  "topic_memory m = topic m @ data_type m # content m @ [0, 0, 0]"

definition content_memory :: "udp_packet \<Rightarrow> u8 list" where
  "content_memory m = content m @ [0, 0, 0]"

text \<open>The structure that \<open>memcpy\<close> makes of the bytes of a datagram in a cleared buffer.\<close>

definition udp_of_bytes :: "u8 list \<Rightarrow> udp_packet" where
  "udp_of_bytes bs =
     (let buf = zero_fill UDPPACKET_LEN (take UDPPACKET_LEN bs)
      in \<lparr>topic = take TOPIC_LEN buf, data_type = buf ! TOPIC_LEN,
          content = drop (TOPIC_LEN + 1) buf\<rparr>)"

lemma length_zero_fill: "length bs \<le> n \<Longrightarrow> length (zero_fill n bs) = n"
  by (simp add: zero_fill_def)

lemma udp_of_bytes_ok: "udp_ok (udp_of_bytes bs)"
  by (simp add: udp_ok_def udp_of_bytes_def Let_def length_zero_fill protocol_sizes)

definition proto_msg :: "u8 \<Rightarrow> u8 list \<Rightarrow> u8 list" where
  "proto_msg ty payload = ty # zero_fill SUBSPACKET_LEN payload"

text \<open>A \<open>size_t\<close>, least significant byte first.\<close>

definition size_bytes :: "nat \<Rightarrow> u8 list" where
  "size_bytes n = bytes32 (word_of_nat n) @ bytes32 (word_of_nat (n div 4294967296))"

definition size_at :: "u8 list \<Rightarrow> nat \<Rightarrow> nat" where
  "size_at bs i = unat (rd32 bs i) + 4294967296 * unat (rd32 bs (i + 4))"

definition bytes_of_sizes :: "size_packet \<Rightarrow> u8 list" where
  "bytes_of_sizes sz = size_bytes (to_receive sz) @ size_bytes (topic_size sz) @ size_bytes (content_size sz)"

definition sizes_of_bytes :: "u8 list \<Rightarrow> size_packet" where
  "sizes_of_bytes bs = \<lparr>to_receive = size_at bs 0, topic_size = size_at bs 8, content_size = size_at bs 16\<rparr>"

section \<open>The packet message\<close>

definition topic_size_of :: "udp_packet \<Rightarrow> nat" where
  "topic_size_of m =
     (let l = length (cstr (topic_memory m)) in if l < TOPIC_LEN then l + 1 else TOPIC_LEN)"

text \<open>For a data type other than 0 to 3 the size is never assigned.\<close>

definition content_size_of :: "udp_packet \<Rightarrow> nat res" where
  "content_size_of m =
     (if data_type m = 0 then Inr 5
      else if data_type m = 1 then Inr 2
      else if data_type m = 2 then Inr 6
      else if data_type m = 3 then
        (let l = length (cstr (content_memory m)) in Inr (if l < CONTENT_LEN then l + 1 else CONTENT_LEN))
      else Inl UninitRead)"

text \<open>
  \<open>Client::send_packet\<close>: the message that announces the sizes and the bytes that follow it, put
  together without padding in an array of \<open>PACKET_LEN\<close> bytes.
\<close>

definition packet_message :: "tcp_packet \<Rightarrow> (u8 list \<times> u8 list) res" where
  "packet_message pkt =
     (let m = udp_msg pkt; ts = topic_size_of m
      in bindE (content_size_of m) (\<lambda>cs.
         let buffer = bytes32 (udp_client_ip pkt) @ bytes16 (udp_client_port pkt) @
               take ts (topic m) @ [data_type m] @ take cs (content m)
         in if PACKET_LEN < 4 + 2 + ts + 1 + cs then Inl OutOfBounds
            else Inr (proto_msg PKT_MSG (bytes_of_sizes
                   \<lparr>to_receive = 4 + 2 + ts + 1 + cs, topic_size = ts, content_size = cs\<rparr>), buffer)))"

text \<open>
  \<open>rebuild_packet\<close>, on a buffer of \<open>PACKET_LEN\<close> bytes: every copy must stay inside the buffer and
  inside the field it fills.
\<close>

definition rebuild_packet :: "size_packet \<Rightarrow> u8 list \<Rightarrow> tcp_packet res" where
  "rebuild_packet sz buf =
     (let ts = topic_size sz; cs = content_size sz
      in if TOPIC_LEN < ts \<or> CONTENT_LEN < cs \<or> length buf < 4 + 2 + ts + 1 + cs then Inl OutOfBounds
         else Inr \<lparr>udp_client_ip = rd32 buf 0, udp_client_port = rd16 buf 4,
           udp_msg = \<lparr>topic = zero_fill TOPIC_LEN (bytes_at 6 ts buf), data_type = buf ! (6 + ts),
             content = zero_fill CONTENT_LEN (bytes_at (7 + ts) cs buf)\<rparr>\<rparr>)"

section \<open>Printing\<close>

definition text_of :: "u8 list \<Rightarrow> string" where
  "text_of bs = map (\<lambda>b. char_of (unat b)) bs"

text \<open>
  A number divided by a power of ten and printed with that many decimals. The code divides in
  floating point. The quotient is off by less than half a unit of the last decimal printed (for
  \<open>print_short_real\<close> below 656 in single precision, for \<open>print_real\<close> 32 bits divided up to 255
  times in double precision), so that the digits printed are those of the exact quotient.
\<close>

fun digits_of :: "nat \<Rightarrow> nat \<Rightarrow> string" where
  "digits_of 0 n = []"
| "digits_of (Suc k) n = digits_of k (n div 10) @ [digit_char (n mod 10)]"

definition decimal_text :: "nat \<Rightarrow> nat \<Rightarrow> string" where
  "decimal_text n decimals =
     nat_text (n div 10 ^ decimals) @
     (if decimals = 0 then [] else CHR ''.'' # digits_of decimals n)"

definition print_int :: "u8 list \<Rightarrow> string" where
  "print_int c =
     ''INT - '' @ (if c ! 0 = 0 then [] else ''-'') @ nat_text (unat (ntohl (rd32 c 1))) @ [CHR 0x0A]"

definition print_short_real :: "u8 list \<Rightarrow> string" where
  "print_short_real c = ''SHORT_REAL - '' @ decimal_text (unat (ntohs (rd16 c 0))) 2 @ [CHR 0x0A]"

definition print_real :: "u8 list \<Rightarrow> string" where
  "print_real c =
     ''FLOAT - '' @ (if c ! 0 = 0 then [] else ''-'') @
     decimal_text (unat (ntohl (rd32 c 1))) (unat (c ! 5)) @ [CHR 0x0A]"

definition print_string :: "u8 list \<Rightarrow> string" where
  "print_string c = ''STRING - '' @ text_of (cstr c) @ [CHR 0x0A]"

text \<open>What a subscriber prints for a packet: its standard output and whether it complains.\<close>

definition print_content :: "udp_packet \<Rightarrow> string" where
  "print_content m =
     (if data_type m = 0 then print_int (content_memory m)
      else if data_type m = 1 then print_short_real (content_memory m)
      else if data_type m = 2 then print_real (content_memory m)
      else if data_type m = 3 then print_string (content_memory m)
      else [])"

definition print_packet :: "tcp_packet \<Rightarrow> string" where
  "print_packet pkt =
     inet_ntoa (udp_client_ip pkt) @ '':'' @ nat_text (unat (ntohs (udp_client_port pkt))) @ '' - '' @
     text_of (cstr (topic_memory (udp_msg pkt))) @ '' - '' @ print_content (udp_msg pkt)"

section \<open>Reading back what was written\<close>

lemma rd32_append: "length xs = i \<Longrightarrow> rd32 (xs @ bytes32 w @ ys) i = w"
  using le32_bytes32[of w] by (auto simp: rd32_def nth_append)

lemma rd16_append: "length xs = i \<Longrightarrow> rd16 (xs @ bytes16 w @ ys) i = w"
  using le16_bytes16[of w] by (auto simp: rd16_def nth_append)

lemma unat_word32: "n < 4294967296 \<Longrightarrow> unat (word_of_nat n :: u32) = n"
  unfolding unat_of_nat by simp

lemma length_size_bytes [simp]: "length (size_bytes n) = 8"
  by (simp add: size_bytes_def)

lemma size_at_append: "n < 4294967296 \<Longrightarrow> length xs = i \<Longrightarrow> size_at (xs @ size_bytes n @ ys) i = n"
  using rd32_append[of xs i "word_of_nat n" "bytes32 (word_of_nat (n div 4294967296)) @ ys"]
    rd32_append[of "xs @ bytes32 (word_of_nat n)" "i + 4" "word_of_nat (n div 4294967296)" ys]
  by (simp add: size_at_def size_bytes_def unat_word32)

lemma sizes_read:
  assumes "to_receive sz < 4294967296" and "topic_size sz < 4294967296" and "content_size sz < 4294967296"
  shows "sizes_of_bytes (zero_fill SUBSPACKET_LEN (bytes_of_sizes sz)) = sz"
  using size_at_append[OF assms(1), of "[]" 0] size_at_append[OF assms(2), of "size_bytes (to_receive sz)" 8]
    size_at_append[OF assms(3), of "size_bytes (to_receive sz) @ size_bytes (topic_size sz)" 16]
  by (simp add: sizes_of_bytes_def bytes_of_sizes_def zero_fill_def)

lemma topic_size_le: "0 < topic_size_of m \<and> topic_size_of m \<le> TOPIC_LEN"
  by (simp add: topic_size_of_def Let_def TOPIC_LEN_def)

lemma content_size_le: "content_size_of m = Inr cs \<Longrightarrow> cs \<le> CONTENT_LEN"
  by (auto simp: content_size_of_def Let_def CONTENT_LEN_def split: if_splits)

lemma small_byte: "(3 :: u8) < d \<longleftrightarrow> d \<noteq> 0 \<and> d \<noteq> 1 \<and> d \<noteq> 2 \<and> d \<noteq> 3"
proof -
  have "unat d = 0 \<Longrightarrow> d = 0" "unat d = 1 \<Longrightarrow> d = 1" "unat d = 2 \<Longrightarrow> d = 2" "unat d = 3 \<Longrightarrow> d = 3"
    by (rule unsigned_word_eqI[where ?'a = nat]; simp)+
  moreover have "unat d \<le> 3 \<longleftrightarrow> unat d = 0 \<or> unat d = 1 \<or> unat d = 2 \<or> unat d = 3" by linarith
  moreover have "3 < d \<longleftrightarrow> \<not> unat d \<le> 3" by (simp add: word_less_nat_alt not_le)
  moreover have "unat (0 :: u8) = 0" "unat (1 :: u8) = 1" "unat (2 :: u8) = 2" "unat (3 :: u8) = 3" by simp_all
  ultimately show ?thesis by metis
qed

lemma content_size_known:
  assumes "data_type m \<le> 3"
  shows "\<exists>cs. content_size_of m = Inr cs"
proof -
  have "data_type m = 0 \<or> data_type m = 1 \<or> data_type m = 2 \<or> data_type m = 3"
    using assms small_byte[of "data_type m"] by (simp add: not_less[symmetric])
  then show ?thesis by (auto simp: content_size_of_def Let_def)
qed

lemma packet_message_faults: "packet_message pkt = Inl e \<longleftrightarrow> 3 < data_type (udp_msg pkt) \<and> e = UninitRead"
proof -
  have "content_size_of m = Inl e \<longleftrightarrow> 3 < data_type m \<and> e = UninitRead" for m
    by (auto simp: content_size_of_def Let_def small_byte)
  moreover
  have "\<not> PACKET_LEN < 4 + 2 + topic_size_of m + 1 + cs" if "content_size_of m = Inr cs" for m cs
    using topic_size_le[of m] content_size_le[OF that] by (simp add: protocol_sizes)
  then have "packet_message pkt = Inl e \<longleftrightarrow> content_size_of (udp_msg pkt) = Inl e"
    by (cases "content_size_of (udp_msg pkt)") (auto simp: packet_message_def Let_def)
  ultimately show ?thesis by simp
qed

lemma cstr_append: "0 \<in> set xs \<Longrightarrow> cstr (xs @ ys) = cstr xs"
  by (auto simp: cstr_def)

lemma cstr_no_zero: "0 \<notin> set (cstr xs)"
  by (auto simp: cstr_def dest: set_takeWhileD)

lemma cstr_prefix:
  assumes "0 \<in> set xs"
  shows "cstr (take (length (cstr xs) + 1) xs) = cstr xs \<and> 0 \<in> set (take (length (cstr xs) + 1) xs) \<and>
    length (cstr xs) < length xs"
  using assms by (induction xs) (auto simp: cstr_def)

lemma cstr_length_iff: "length (cstr xs) < length xs \<longleftrightarrow> 0 \<in> set xs"
  by (induction xs) (auto simp: cstr_def)

section \<open>A packet goes through\<close>

text \<open>What a subscriber makes of the two messages, the second one read into a cleared buffer.\<close>

lemma rebuilt:
  assumes "udp_ok (udp_msg pkt)" and "content_size_of (udp_msg pkt) = Inr cs"
  shows "rebuild_packet \<lparr>to_receive = n, topic_size = topic_size_of (udp_msg pkt), content_size = cs\<rparr>
      (zero_fill PACKET_LEN (bytes32 (udp_client_ip pkt) @ bytes16 (udp_client_port pkt) @
        take (topic_size_of (udp_msg pkt)) (topic (udp_msg pkt)) @ [data_type (udp_msg pkt)] @
        take cs (content (udp_msg pkt))))
    = Inr (pkt\<lparr>udp_msg := \<lparr>
        topic = zero_fill TOPIC_LEN (take (topic_size_of (udp_msg pkt)) (topic (udp_msg pkt))),
        data_type = data_type (udp_msg pkt),
        content = zero_fill CONTENT_LEN (take cs (content (udp_msg pkt)))\<rparr>\<rparr>)"
proof -
  let ?m = "udp_msg pkt" let ?ts = "topic_size_of ?m"
  let ?t = "take ?ts (topic ?m)" let ?c = "take cs (content ?m)"
  have l: "length ?t = ?ts" "length ?c = cs" "?ts \<le> 50" "cs \<le> 1500"
    using assms(1) topic_size_le[of ?m] content_size_le[OF assms(2)]
    by (auto simp: udp_ok_def protocol_sizes)
  let ?head = "bytes32 (udp_client_ip pkt) @ bytes16 (udp_client_port pkt)"
  let ?z = "replicate (PACKET_LEN - (7 + ?ts + cs)) 0"
  have buf: "zero_fill PACKET_LEN (?head @ ?t @ [data_type ?m] @ ?c) = ?head @ ?t @ data_type ?m # ?c @ ?z"
    using l by (simp add: zero_fill_def)
  have h: "length ?head = 6" by simp
  have "bytes_at 6 ?ts (?head @ ?t @ data_type ?m # ?c @ ?z) = ?t"
    using h l(1) by (simp add: bytes_at_def del: take_take)
  moreover have "(?head @ ?t @ data_type ?m # ?c @ ?z) ! (6 + ?ts) = data_type ?m"
    using h l(1) by (simp add: nth_append)
  moreover have "bytes_at (7 + ?ts) cs (?head @ ?t @ data_type ?m # ?c @ ?z) = ?c"
    using h l(1,2) by (simp add: bytes_at_def)
  moreover have "rd32 (?head @ ?t @ data_type ?m # ?c @ ?z) 0 = udp_client_ip pkt"
    "rd16 (?head @ ?t @ data_type ?m # ?c @ ?z) 4 = udp_client_port pkt"
    using rd32_append[of "[]" 0] rd16_append[of "bytes32 (udp_client_ip pkt)" 4] by simp_all
  moreover have "\<not> length (?head @ ?t @ data_type ?m # ?c @ ?z) < 4 + 2 + ?ts + 1 + cs"
    using l by (simp add: protocol_sizes)
  ultimately show ?thesis
    unfolding append.assoc[symmetric, of "bytes32 (udp_client_ip pkt)"] buf
    using l by (simp add: rebuild_packet_def Let_def protocol_sizes)
qed

lemma cstr_cut:
  assumes "0 \<in> set xs" and "l = length (cstr xs)"
  shows "cstr (zero_fill n (take (l + 1) xs) @ ys) = cstr xs"
  using cstr_prefix[OF assms(1)] assms(2) by (simp add: zero_fill_def cstr_append)

lemma rebuilt_content:
  assumes "udp_ok m" and "content_size_of m = Inr cs"
  shows "print_content \<lparr>topic = t, data_type = data_type m, content = zero_fill CONTENT_LEN (take cs (content m))\<rparr> =
    print_content m"
proof -
  let ?c = "zero_fill CONTENT_LEN (take cs (content m))"
  have len: "length (content m) = 1500" using assms(1) by (simp add: udp_ok_def protocol_sizes)
  have le: "cs \<le> 1500" using content_size_le[OF assms(2)] by (simp add: protocol_sizes)
  have nth: "i < cs \<Longrightarrow> (?c @ [0, 0, 0]) ! i = (content m @ [0, 0, 0]) ! i" for i
    using len le by (simp add: zero_fill_def nth_append)
  consider "data_type m = 0" "cs = 5" | "data_type m = 1" "cs = 2" | "data_type m = 2" "cs = 6" | "data_type m = 3"
    using assms(2) by (auto simp: content_size_of_def split: if_splits)
  then show ?thesis
  proof cases
    case 1
    then show ?thesis using nth[of 0] nth[of 1] nth[of 2] nth[of 3] nth[of "Suc (Suc 0)"] nth[of "Suc (Suc (Suc 0))"] nth[of 4]
      by (simp add: print_content_def print_int_def content_memory_def rd32_def)
  next
    case 2
    then show ?thesis using nth[of 0] nth[of 1]
      by (simp add: print_content_def print_short_real_def content_memory_def rd16_def)
  next
    case 3
    then show ?thesis using nth[of 0] nth[of 1] nth[of 2] nth[of 3] nth[of "Suc (Suc 0)"] nth[of "Suc (Suc (Suc 0))"] nth[of 4] nth[of 5]
      by (simp add: print_content_def print_real_def content_memory_def rd32_def)
  next
    case 4
    have "cstr (?c @ [0, 0, 0]) = cstr (content m @ [0, 0, 0])"
    proof (cases "0 \<in> set (content m)")
      case True
      then have c: "cstr (content m @ [0, 0, 0]) = cstr (content m)" by (rule cstr_append)
      with True 4 assms(2) len have "cs = length (cstr (content m)) + 1"
        using cstr_prefix[OF True]
        by (simp add: content_size_of_def content_memory_def Let_def protocol_sizes split: if_splits)
      then show ?thesis using cstr_cut[OF True refl, of CONTENT_LEN] c by simp
    next
      case False
      then have "cstr (content m @ [0, 0, 0]) = content m" 
        by (subst cstr_def, subst takeWhile_append2) auto
      with 4 assms(2) len have "cs = 1500"
        by (simp add: content_size_of_def content_memory_def Let_def protocol_sizes)
      then show ?thesis using len by (simp add: zero_fill_def protocol_sizes)
    qed
    with 4 show ?thesis by (simp add: print_content_def print_string_def content_memory_def)
  qed
qed

text \<open>
  A packet of a known data type whose topic is shorter than \<open>TOPIC_LEN\<close> goes through: the
  server composes it without leaving its array, the announcement has the length of a protocol
  message and names exactly the bytes that follow it, which fit the subscriber's buffer, and the
  subscriber rebuilds a packet that it prints as the original would be printed.
\<close>

lemma packet_through:
  assumes "udp_ok (udp_msg pkt)" and "0 \<in> set (topic (udp_msg pkt))" and "data_type (udp_msg pkt) \<le> 3"
  shows "\<exists>announcement bytes pkt'. packet_message pkt = Inr (announcement, bytes) \<and>
    length announcement = MSG_LEN \<and> bytes \<noteq> [] \<and> hd announcement = PKT_MSG \<and>
    to_receive (sizes_of_bytes (tl announcement)) = length bytes \<and> length bytes \<le> PACKET_LEN \<and>
    rebuild_packet (sizes_of_bytes (tl announcement)) (zero_fill PACKET_LEN bytes) = Inr pkt' \<and>
    data_type (udp_msg pkt') = data_type (udp_msg pkt) \<and> print_packet pkt' = print_packet pkt"
proof -
  let ?m = "udp_msg pkt" let ?ts = "topic_size_of ?m"
  obtain cs where cs: "content_size_of ?m = Inr cs"
    using content_size_known[OF assms(3)] by blast
  have le: "?ts \<le> 50" "cs \<le> 1500"
    using topic_size_le[of ?m] content_size_le[OF cs] by (simp_all add: protocol_sizes)
  let ?sz = "\<lparr>to_receive = 4 + 2 + ?ts + 1 + cs, topic_size = ?ts, content_size = cs\<rparr>"
  let ?bytes = "bytes32 (udp_client_ip pkt) @ bytes16 (udp_client_port pkt) @
    take ?ts (topic ?m) @ [data_type ?m] @ take cs (content ?m)"
  let ?new = "\<lparr>topic = zero_fill TOPIC_LEN (take ?ts (topic ?m)), data_type = data_type ?m,
    content = zero_fill CONTENT_LEN (take cs (content ?m))\<rparr>"
  have pm: "packet_message pkt = Inr (proto_msg PKT_MSG (bytes_of_sizes ?sz), ?bytes)"
    using le cs by (simp add: packet_message_def Let_def protocol_sizes)
  have sz: "sizes_of_bytes (tl (proto_msg PKT_MSG (bytes_of_sizes ?sz))) = ?sz"
    using sizes_read[of ?sz] le by (simp add: proto_msg_def)
  have t: "cstr (zero_fill TOPIC_LEN (take ?ts (topic ?m)) @ ys) = cstr (topic ?m)" for ys
  proof -
    have c: "cstr (topic_memory ?m) = cstr (topic ?m)"
      unfolding topic_memory_def by (rule cstr_append[OF assms(2)])
    have "?ts = length (cstr (topic ?m)) + 1"
      using cstr_prefix[OF assms(2)] assms(1) c by (simp add: topic_size_of_def Let_def udp_ok_def)
    then show ?thesis using cstr_cut[OF assms(2) refl] by simp
  qed
  have "cstr (topic_memory ?new) = cstr (topic_memory ?m)"
    using t[of "data_type ?m # content ?new @ [0, 0, 0]"] cstr_append[OF assms(2)]
    by (simp add: topic_memory_def)
  moreover have "print_content ?new = print_content ?m"
    using rebuilt_content[OF assms(1) cs, of "topic ?new"] by simp
  ultimately have "print_packet (pkt\<lparr>udp_msg := ?new\<rparr>) = print_packet pkt"
    by (simp add: print_packet_def)
  moreover have "length ?bytes = 4 + 2 + ?ts + 1 + cs" "length (proto_msg PKT_MSG (bytes_of_sizes ?sz)) = MSG_LEN"
    using le assms(1)
    by (simp_all add: udp_ok_def protocol_sizes proto_msg_def zero_fill_def bytes_of_sizes_def)
  ultimately show ?thesis
    unfolding pm using rebuilt[OF assms(1) cs] sz le
    by (intro exI[of _ "proto_msg PKT_MSG (bytes_of_sizes ?sz)"] exI[of _ ?bytes] exI[of _ "pkt\<lparr>udp_msg := ?new\<rparr>"])
      (simp add: proto_msg_def protocol_sizes)
qed

end
