(* ===== verification/Broker_Server.thy ===== *)
theory Broker_Server
  imports Broker_Protocol
begin

text \<open>
  \<open>src/PCom2/server.cpp\<close>: the broker between the UDP clients, which publish packets, and the TCP
  clients, which subscribe to topics. The state is that of \<open>main\<close>; a step handles one descriptor
  that \<open>select\<close> reported, in the order of the loop over the descriptors. A step yields what the
  server sends, closes and prints. Calls of the operating system do not fail.
\<close>

section \<open>Clients\<close>

record Client =
  cl_id :: "u8 list"
  connected :: bool
  cl_fd :: nat
  topics :: "u8 list \<Rightarrow> bool option"
  sf_queue :: "tcp_packet list"

datatype effect =
    Send nat "u8 list"
  | Close nat
  | Cout string
  | Cerr string

definition new_Client :: "nat \<Rightarrow> u8 list \<Rightarrow> Client" where
  "new_Client fd cid = \<lparr>cl_id = cid, connected = True, cl_fd = fd, topics = Map.empty, sf_queue = []\<rparr>"

definition disconnect :: "Client \<Rightarrow> Client" where
  "disconnect c = c\<lparr>connected := False\<rparr>"

definition subscribe :: "u8 list \<Rightarrow> bool \<Rightarrow> Client \<Rightarrow> Client" where
  "subscribe t sf c = c\<lparr>topics := (topics c)(t \<mapsto> sf)\<rparr>"

definition unsubscribe :: "u8 list \<Rightarrow> Client \<Rightarrow> Client" where
  "unsubscribe t c = c\<lparr>topics := (topics c)(t := None)\<rparr>"

definition client_has_topic :: "u8 list \<Rightarrow> Client \<Rightarrow> bool" where
  "client_has_topic t c \<longleftrightarrow> topics c t \<noteq> None"

text \<open>\<open>topics[topic]\<close> enters a topic that is not there.\<close>

definition topic_has_sf :: "u8 list \<Rightarrow> Client \<Rightarrow> bool \<times> Client" where
  "topic_has_sf t c =
     (case topics c t of Some sf \<Rightarrow> (sf, c) | None \<Rightarrow> (False, c\<lparr>topics := (topics c)(t \<mapsto> False)\<rparr>))"

definition store_packet :: "tcp_packet \<Rightarrow> Client \<Rightarrow> Client" where
  "store_packet pkt c = c\<lparr>sf_queue := sf_queue c @ [pkt]\<rparr>"

definition Client_send_packet :: "nat \<Rightarrow> tcp_packet \<Rightarrow> effect list res" where
  "Client_send_packet fd pkt = bindE (packet_message pkt) (\<lambda>(msg, buffer). Inr [Send fd msg, Send fd buffer])"

fun send_queue :: "nat \<Rightarrow> tcp_packet list \<Rightarrow> effect list res" where
  "send_queue fd [] = Inr []"
| "send_queue fd (pkt # q) =
     bindE (Client_send_packet fd pkt) (\<lambda>es. bindE (send_queue fd q) (\<lambda>es'. Inr (es @ es')))"

definition reconnect :: "nat \<Rightarrow> Client \<Rightarrow> (Client \<times> effect list) res" where
  "reconnect fd c =
     bindE (send_queue fd (sf_queue c)) (\<lambda>es. Inr (c\<lparr>cl_fd := fd, connected := True, sf_queue := []\<rparr>, es))"

definition send_msg :: "nat \<Rightarrow> u8 \<Rightarrow> effect" where
  "send_msg fd ty = Send fd (proto_msg ty [])"

section \<open>The server\<close>

text \<open>
  A pointer to a client is its index in \<open>objects\<close>, the clients in the order of their creation;
  no client is deleted while the server runs. The sets of clients are ordered by address, here by
  index. The map from topics gives the empty set where it has no entry. A map that is indexed at an
  absent key makes an entry, the empty string in \<open>fd_to_id\<close>, a null pointer in \<open>clients\<close>.
\<close>

record server =
  udpsockfd :: nat
  tcpsockfd :: nat
  objects :: "Client list"
  clients :: "u8 list \<Rightarrow> nat option"
  fd_to_id :: "nat \<Rightarrow> u8 list option"
  topic_to_clients :: "u8 list \<Rightarrow> nat set"
  read_fds :: "nat set"
  fdmax :: nat
  exit_status :: bool

definition FD_SETSIZE :: nat where "FD_SETSIZE = 1024"

definition server_start :: "nat \<Rightarrow> nat \<Rightarrow> server" where
  "server_start udp tcp =
     \<lparr>udpsockfd = udp, tcpsockfd = tcp, objects = [], clients = Map.empty, fd_to_id = Map.empty,
      topic_to_clients = (\<lambda>t. {}), read_fds = {0, udp, tcp}, fdmax = tcp, exit_status = False\<rparr>"

definition on_client :: "nat \<Rightarrow> (Client \<Rightarrow> Client) \<Rightarrow> server \<Rightarrow> server" where
  "on_client r f s = s\<lparr>objects := (objects s)[r := f (objects s ! r)]\<rparr>"

text \<open>A word read from the standard input, \<open>std::cin >> buffer\<close>, without a bound.\<close>

definition EXIT :: string where "EXIT = ''exit''"

definition exit_fds :: "server \<Rightarrow> nat list" where
  "exit_fds s = filter (\<lambda>j. j \<in> read_fds s \<and> j \<noteq> udpsockfd s \<and> j \<noteq> tcpsockfd s) [3..<Suc (fdmax s)]"

definition command_step :: "string \<Rightarrow> server \<Rightarrow> (server \<times> effect list) res" where
  "command_step word s =
     (if PACKET_LEN \<le> length word then Inl OutOfBounds
      else if take (length EXIT) word = EXIT then
        Inr (s\<lparr>read_fds := read_fds s - set (exit_fds s), exit_status := True\<rparr>,
             concat (map (\<lambda>j. [send_msg j EXIT_MSG, Close j]) (exit_fds s)))
      else Inr (s, [Cerr (''Invalid command!'' @ [CHR 0x0A])]))"

text \<open>A packet of a UDP client goes to every client of its topic.\<close>

fun deliver :: "tcp_packet \<Rightarrow> u8 list \<Rightarrow> nat list \<Rightarrow> server \<Rightarrow> (server \<times> effect list) res" where
  "deliver pkt t [] s = Inr (s, [])"
| "deliver pkt t (r # rs) s =
     (let cl = objects s ! r in
      if connected cl then
        bindE (Client_send_packet (cl_fd cl) pkt) (\<lambda>es.
        bindE (deliver pkt t rs s) (\<lambda>(s', es'). Inr (s', es @ es')))
      else let (sf, cl') = topic_has_sf t cl
           in deliver pkt t rs (on_client r (\<lambda>_. if sf then store_packet pkt cl' else cl') s))"

definition udp_packet_of :: "u32 \<Rightarrow> u16 \<Rightarrow> u8 list \<Rightarrow> tcp_packet" where
  "udp_packet_of ip port bytes =
     \<lparr>udp_client_ip = ip, udp_client_port = port, udp_msg = udp_of_bytes bytes\<rparr>"

definition datagram_step :: "u32 \<Rightarrow> u16 \<Rightarrow> u8 list \<Rightarrow> server \<Rightarrow> (server \<times> effect list) res" where
  "datagram_step ip port bytes s =
     (let pkt = udp_packet_of ip port bytes; t = cstr (topic_memory (udp_msg pkt))
      in deliver pkt t (sorted_list_of_set (topic_to_clients s t)) s)"

text \<open>
  What \<open>recv\<close> leaves in the cleared buffer: its first byte is the type of the message, the rest
  the payload. A string in the payload that has no end runs into the zeros behind the message.
\<close>

definition msg_type :: "u8 list \<Rightarrow> u8" where
  "msg_type bytes = zero_fill MSG_LEN (take MSG_LEN bytes) ! 0"

definition payload :: "u8 list \<Rightarrow> u8 list" where
  "payload bytes = drop 1 (zero_fill MSG_LEN (take MSG_LEN bytes))"

definition ip_port :: "u32 \<Rightarrow> u16 \<Rightarrow> string" where
  "ip_port ip port = inet_ntoa ip @ '':'' @ nat_text (unat (ntohs port))"

definition connection_step ::
  "nat \<Rightarrow> u32 \<Rightarrow> u16 \<Rightarrow> u8 list \<Rightarrow> server \<Rightarrow> (server \<times> effect list) res" where
  "connection_step newfd ip port bytes s =
     (if FD_SETSIZE \<le> newfd then Inl OutOfBounds
      else
        let s1 = s\<lparr>read_fds := insert newfd (read_fds s), fdmax := max (fdmax s) newfd\<rparr>;
            cid = cstr (payload bytes);
            hello = Cout (''New client '' @ text_of cid @ '' connected from '' @ ip_port ip port @ ''.'' @ [CHR 0x0A])
        in if msg_type bytes = ID_MSG then
             (case clients s1 cid of
                Some r \<Rightarrow>
                  let cl = objects s1 ! r in
                  if connected cl then
                    Inr (s1\<lparr>read_fds := read_fds s1 - {newfd}\<rparr>,
                      [Cout (''Client '' @ text_of cid @ '' already connected.'' @ [CHR 0x0A]),
                       send_msg newfd EXIT_MSG, Close newfd])
                  else
                    bindE (reconnect newfd cl) (\<lambda>(cl', es).
                    let s2 = on_client r (\<lambda>_. cl') s1
                    in Inr (s2\<lparr>fd_to_id := ((fd_to_id s2)(cl_fd cl := None))(newfd \<mapsto> cid)\<rparr>, es @ [hello]))
              | None \<Rightarrow>
                  Inr (s1\<lparr>objects := objects s1 @ [new_Client newfd cid],
                          clients := (clients s1)(cid \<mapsto> length (objects s1)),
                          fd_to_id := (fd_to_id s1)(newfd \<mapsto> cid)\<rparr>, [hello]))
           else Inr (s1, [Cerr (''Unexpected message type received!'' @ [CHR 0x0A])]))"

text \<open>\<open>clients[fd_to_id[i]]\<close>, about to be dereferenced.\<close>

definition fd_client :: "nat \<Rightarrow> server \<Rightarrow> (nat \<times> server) res" where
  "fd_client i s =
     (case fd_to_id s i of
        Some cid \<Rightarrow> bindE (deref (clients s cid)) (\<lambda>r. Inr (r, s))
      | None \<Rightarrow> bindE (deref (clients s [])) (\<lambda>r. Inr (r, s\<lparr>fd_to_id := (fd_to_id s)(i \<mapsto> [])\<rparr>)))"

definition closed_step :: "nat \<Rightarrow> server \<Rightarrow> (server \<times> effect list) res" where
  "closed_step i s =
     bindE (fd_client i s) (\<lambda>(r, s1).
     let cid = the (fd_to_id s1 i); s2 = on_client r disconnect s1
     in Inr (s2\<lparr>read_fds := read_fds s2 - {i}\<rparr>,
          [Cout (''Client '' @ text_of cid @ '' disconnected.'' @ [CHR 0x0A]), Close i]))"

text \<open>
  A subscription request: the topic is read as a string, so that the \<open>sf\<close> byte behind it is part
  of a topic of \<open>TOPIC_LEN\<close> characters. An \<open>sf\<close> byte other than 0 counts as true.
\<close>

definition subs_topic :: "u8 list \<Rightarrow> u8 list" where
  "subs_topic bytes = cstr (payload bytes)"

definition subs_sf :: "u8 list \<Rightarrow> bool" where
  "subs_sf bytes \<longleftrightarrow> payload bytes ! TOPIC_LEN \<noteq> 0"

definition subscribe_step :: "nat \<Rightarrow> u8 list \<Rightarrow> server \<Rightarrow> (server \<times> effect list) res" where
  "subscribe_step i bytes s =
     bindE (fd_client i s) (\<lambda>(r, s1).
     let cl = objects s1 ! r; t = subs_topic bytes; sf = subs_sf bytes
     in if client_has_topic t cl \<and> fst (topic_has_sf t cl) = sf then Inr (s1, [send_msg i ERR_MSG])
        else let s2 = on_client r (subscribe t sf) s1
             in Inr (s2\<lparr>topic_to_clients := (topic_to_clients s2)(t := insert r (topic_to_clients s2 t))\<rparr>,
                  [send_msg i CONF_MSG]))"

definition unsubscribe_step :: "nat \<Rightarrow> u8 list \<Rightarrow> server \<Rightarrow> (server \<times> effect list) res" where
  "unsubscribe_step i bytes s =
     bindE (fd_client i s) (\<lambda>(r, s1).
     let cl = objects s1 ! r; t = subs_topic bytes
     in if \<not> client_has_topic t cl then Inr (s1, [send_msg i ERR_MSG])
        else let s2 = on_client r (unsubscribe t) s1
             in Inr (s2\<lparr>topic_to_clients := (topic_to_clients s2)(t := topic_to_clients s2 t - {r})\<rparr>,
                  [send_msg i CONF_MSG]))"

definition message_step :: "nat \<Rightarrow> u8 list \<Rightarrow> server \<Rightarrow> (server \<times> effect list) res" where
  "message_step i bytes s =
     (if bytes = [] then closed_step i s
      else if msg_type bytes = SUB_MSG then subscribe_step i bytes s
      else if msg_type bytes = UNSUB_MSG then unsubscribe_step i bytes s
      else Inr (s, [Cerr (''Unexpected message type received!'' @ [CHR 0x0A])]))"

section \<open>The loop\<close>

text \<open>
  What arrives: a word on the standard input, a datagram, a connection with the descriptor that
  \<open>accept\<close> returns for it and the first message, the bytes that \<open>recv\<close> returns for a client, none
  when the connection is closed. A descriptor that \<open>accept\<close> returns is none that is open, of the
  standard streams or in the set; a client is read only while its descriptor is in the set. The
  server stops after \<open>exit\<close>.
\<close>

datatype event =
    Command string
  | Datagram u32 u16 "u8 list"
  | Connection nat u32 u16 "u8 list"
  | Message nat "u8 list"

definition server_step :: "event \<Rightarrow> server \<Rightarrow> (server \<times> effect list) res" where
  "server_step e s =
     (if exit_status s then Inr (s, [])
      else case e of
        Command word \<Rightarrow> command_step word s
      | Datagram ip port bytes \<Rightarrow> datagram_step ip port bytes s
      | Connection newfd ip port bytes \<Rightarrow>
          if 2 < newfd \<and> newfd \<notin> read_fds s then connection_step newfd ip port bytes s else Inr (s, [])
      | Message i bytes \<Rightarrow>
          if i \<in> read_fds s \<and> i \<noteq> 0 \<and> i \<noteq> udpsockfd s \<and> i \<noteq> tcpsockfd s then message_step i bytes s
          else Inr (s, []))"

fun server_run :: "event list \<Rightarrow> server \<Rightarrow> (server \<times> effect list) res" where
  "server_run [] s = Inr (s, [])"
| "server_run (e # es) s =
     bindE (server_step e s) (\<lambda>(s', out). bindE (server_run es s') (\<lambda>(s'', out'). Inr (s'', out @ out')))"

end
