(* ===== verification/Broker_Props.thy ===== *)
theory Broker_Props
  imports Broker_Server
begin

text \<open>
  What the broker of \<open>src/PCom2/server.cpp\<close> keeps and promises: its four tables agree after every
  step, a packet reaches exactly the clients of its topic, requests are answered and carried out,
  and a client that comes back gets what it missed.
\<close>

section \<open>The tables agree\<close>

text \<open>
  The map of clients and the list of objects are inverse to each other, the map of topics is the
  inverse of the topics of the clients, a client that is connected has nothing queued, and the
  descriptors that are watched are below the bound.
\<close>

definition tables_ok :: "server \<Rightarrow> bool" where
  "tables_ok s \<longleftrightarrow>
     (\<forall>cid r. clients s cid = Some r \<longleftrightarrow> r < length (objects s) \<and> cl_id (objects s ! r) = cid) \<and>
     (\<forall>t r. r \<in> topic_to_clients s t \<longleftrightarrow> r < length (objects s) \<and> t \<in> dom (topics (objects s ! r)))"

definition queues_ok :: "server \<Rightarrow> bool" where
  "queues_ok s \<longleftrightarrow> (\<forall>c \<in> set (objects s). connected c \<longrightarrow> sf_queue c = [])"

definition fds_ok :: "server \<Rightarrow> bool" where
  "fds_ok s \<longleftrightarrow> (\<forall>i \<in> read_fds s. i \<le> fdmax s \<and> (i = 0 \<or> 2 < i)) \<and>
     {0, udpsockfd s, tcpsockfd s} \<subseteq> read_fds s"

definition server_ok :: "server \<Rightarrow> bool" where
  "server_ok s \<longleftrightarrow> tables_ok s \<and> queues_ok s \<and> fds_ok s"

lemma server_okI: "tables_ok s \<Longrightarrow> queues_ok s \<Longrightarrow> fds_ok s \<Longrightarrow> server_ok s"
  by (simp add: server_ok_def)

lemma clients_iff:
  "tables_ok s \<Longrightarrow> clients s cid = Some r \<longleftrightarrow> r < length (objects s) \<and> cl_id (objects s ! r) = cid"
  by (simp add: tables_ok_def)

lemma topic_iff:
  "tables_ok s \<Longrightarrow> r \<in> topic_to_clients s t \<longleftrightarrow> r < length (objects s) \<and> t \<in> dom (topics (objects s ! r))"
  by (simp add: tables_ok_def)

lemma finite_topic: "tables_ok s \<Longrightarrow> finite (topic_to_clients s t)"
  by (rule finite_subset[of _ "{..<length (objects s)}"]) (auto simp: topic_iff)

lemma start_ok: "2 < udp \<Longrightarrow> udp \<le> tcp \<Longrightarrow> server_ok (server_start udp tcp)"
  by (auto simp: server_ok_def tables_ok_def queues_ok_def fds_ok_def server_start_def)

lemma tables_ok_fields:
  "tables_ok (s\<lparr>fd_to_id := a\<rparr>) = tables_ok s" "tables_ok (s\<lparr>read_fds := b\<rparr>) = tables_ok s"
  "tables_ok (s\<lparr>fdmax := n\<rparr>) = tables_ok s" "tables_ok (s\<lparr>exit_status := x\<rparr>) = tables_ok s"
  "queues_ok (s\<lparr>fd_to_id := a\<rparr>) = queues_ok s" "queues_ok (s\<lparr>read_fds := b\<rparr>) = queues_ok s"
  "queues_ok (s\<lparr>fdmax := n\<rparr>) = queues_ok s" "queues_ok (s\<lparr>exit_status := x\<rparr>) = queues_ok s"
  "queues_ok (s\<lparr>clients := d\<rparr>) = queues_ok s" "queues_ok (s\<lparr>topic_to_clients := y\<rparr>) = queues_ok s"
  "fds_ok (s\<lparr>fd_to_id := a\<rparr>) = fds_ok s" "fds_ok (s\<lparr>objects := z\<rparr>) = fds_ok s"
  "fds_ok (s\<lparr>clients := d\<rparr>) = fds_ok s" "fds_ok (s\<lparr>topic_to_clients := y\<rparr>) = fds_ok s"
  "fds_ok (s\<lparr>exit_status := x\<rparr>) = fds_ok s"
  by (simp_all add: tables_ok_def queues_ok_def fds_ok_def)

lemma on_client_fields [simp]:
  "udpsockfd (on_client r f s) = udpsockfd s" "tcpsockfd (on_client r f s) = tcpsockfd s"
  "clients (on_client r f s) = clients s" "fd_to_id (on_client r f s) = fd_to_id s"
  "topic_to_clients (on_client r f s) = topic_to_clients s" "read_fds (on_client r f s) = read_fds s"
  "fdmax (on_client r f s) = fdmax s" "exit_status (on_client r f s) = exit_status s"
  "length (objects (on_client r f s)) = length (objects s)"
  by (simp_all add: on_client_def)

lemma on_client_nth:
  "q < length (objects s) \<Longrightarrow>
   objects (on_client r f s) ! q = (if q = r then f (objects s ! r) else objects s ! q)"
  by (simp add: on_client_def nth_list_update)

lemma fds_ok_on_client [simp]: "fds_ok (on_client r f s) = fds_ok s"
  by (simp add: on_client_def tables_ok_fields)

text \<open>A change of one client that keeps its name and its topics keeps the tables.\<close>

lemma tables_on_client:
  assumes "tables_ok s" and "r < length (objects s)"
    and "cl_id (f (objects s ! r)) = cl_id (objects s ! r)"
    and "dom (topics (f (objects s ! r))) = dom (topics (objects s ! r))"
  shows "tables_ok (on_client r f s)"
proof -
  have "cl_id (objects (on_client r f s) ! q) = cl_id (objects s ! q)"
    "dom (topics (objects (on_client r f s) ! q)) = dom (topics (objects s ! q))" if "q < length (objects s)" for q
    using assms(3,4) that by (simp_all add: on_client_nth)
  then show ?thesis using assms(1) by (simp add: tables_ok_def del: domIff cong: conj_cong)
qed

lemma queues_on_client:
  assumes "queues_ok s" and "connected (f (objects s ! r)) \<longrightarrow> sf_queue (f (objects s ! r)) = []"
  shows "queues_ok (on_client r f s)"
  using assms set_update_subset_insert[of "objects s" r "f (objects s ! r)"]
  by (fastforce simp: queues_ok_def on_client_def)

section \<open>Publishing\<close>

text \<open>What a packet does to a client, seen from the client alone.\<close>

definition publish_client :: "tcp_packet \<Rightarrow> u8 list \<Rightarrow> Client \<Rightarrow> Client" where
  "publish_client pkt t c = (if \<not> connected c \<and> topics c t = Some True then store_packet pkt c else c)"

lemma publish_client_fields [simp]:
  "cl_id (publish_client pkt t c) = cl_id c" "connected (publish_client pkt t c) = connected c"
  "cl_fd (publish_client pkt t c) = cl_fd c" "topics (publish_client pkt t c) = topics c"
  by (simp_all add: publish_client_def store_packet_def)

lemma publish_connected [simp]: "connected c \<Longrightarrow> publish_client pkt t c = c"
  by (simp add: publish_client_def)

definition packet_sends :: "tcp_packet \<Rightarrow> nat \<Rightarrow> effect list" where
  "packet_sends pkt fd = (case packet_message pkt of Inl e \<Rightarrow> [] | Inr (m, b) \<Rightarrow> [Send fd m, Send fd b])"

definition known_type :: "tcp_packet \<Rightarrow> bool" where
  "known_type pkt \<longleftrightarrow> data_type (udp_msg pkt) \<le> 3"

lemma Client_send_packet_known: "known_type pkt \<Longrightarrow> Client_send_packet fd pkt = Inr (packet_sends pkt fd)"
proof (cases "packet_message pkt")
  case (Inl e)
  then show "known_type pkt \<Longrightarrow> ?thesis" using packet_message_faults[of pkt e] by (simp add: known_type_def not_less[symmetric])
next
  case (Inr mb)
  then show ?thesis by (cases mb) (simp add: Client_send_packet_def packet_sends_def)
qed

lemma send_queue_known:
  "\<forall>pkt \<in> set q. known_type pkt \<Longrightarrow> send_queue fd q = Inr (concat (map (\<lambda>pkt. packet_sends pkt fd) q))"
  by (induction q) (simp_all add: Client_send_packet_known)

lemma deliver_known:
  assumes "known_type pkt" and "distinct rs"
    and "\<forall>r \<in> set rs. r < length (objects s) \<and> t \<in> dom (topics (objects s ! r))"
  shows "deliver pkt t rs s =
    Inr (s\<lparr>objects := map (\<lambda>r. if r \<in> set rs then publish_client pkt t (objects s ! r) else objects s ! r)
             [0..<length (objects s)]\<rparr>,
         concat (map (\<lambda>r. if connected (objects s ! r) then packet_sends pkt (cl_fd (objects s ! r)) else []) rs))"
  using assms(2,3)
proof (induction rs arbitrary: s)
  case Nil
  then show ?case by (simp add: map_nth)
next
  case (Cons r rs)
  let ?c = "objects s ! r" and ?p = "\<lambda>s R. map (\<lambda>q. if q \<in> R then publish_client pkt t (objects s ! q)
    else objects s ! q) [0..<length (objects s)]"
  obtain sf where sf: "topics ?c t = Some sf" using Cons.prems(2) by auto
  show ?case
  proof (cases "connected ?c")
    case True
    then have "?p s (set (r # rs)) = ?p s (set rs)" by (auto simp: publish_client_def)
    with True Cons show ?thesis by (simp add: Let_def Client_send_packet_known[OF assms(1)])
  next
    case False
    let ?s' = "on_client r (\<lambda>_. if sf then store_packet pkt ?c else ?c) s"
    let ?sends = "\<lambda>s. concat (map (\<lambda>q. if connected (objects s ! q) then packet_sends pkt (cl_fd (objects s ! q))
      else []) rs)"
    have same: "\<forall>q \<in> set rs. objects ?s' ! q = objects s ! q"
      using Cons.prems by (auto simp: on_client_nth)
    have "deliver pkt t (r # rs) s = deliver pkt t rs ?s'"
      using False sf by (simp add: Let_def topic_has_sf_def)
    also have "\<dots> = Inr (?s'\<lparr>objects := ?p ?s' (set rs)\<rparr>, ?sends ?s')"
      using Cons.prems same by (intro Cons.IH) simp_all
    also have "?p ?s' (set rs) = ?p s (set (r # rs))"
      using Cons.prems(1) False sf by (auto simp: on_client_nth publish_client_def)
    also have "?s'\<lparr>objects := X\<rparr> = s\<lparr>objects := X\<rparr>" for X by (simp add: on_client_def)
    also have "?sends ?s' = ?sends s" using same by (intro arg_cong[where f = concat] map_cong refl) (simp del: split_paired_All)
    finally show ?thesis using False by simp
  qed
qed


lemma sorted_list_of_below: "sorted_list_of_set {r. r < n \<and> P r} = filter P [0..<n]"
proof (rule sorted_distinct_set_unique)
  show "set (sorted_list_of_set {r. r < n \<and> P r}) = set (filter P [0..<n])" by auto
qed (simp_all add: sorted_wrt_filter)

lemma concat_filter: "concat (map f (filter P xs)) = concat (map (\<lambda>x. if P x then f x else []) xs)"
  by (induction xs) simp_all

lemma map_by_index: "map (\<lambda>r. f (xs ! r)) [0..<length xs] = map f xs"
  by (intro nth_equalityI) simp_all

definition publish :: "tcp_packet \<Rightarrow> u8 list \<Rightarrow> server \<Rightarrow> server" where
  "publish pkt t s = s\<lparr>objects := map (publish_client pkt t) (objects s)\<rparr>"

definition publish_sends :: "tcp_packet \<Rightarrow> u8 list \<Rightarrow> Client list \<Rightarrow> effect list" where
  "publish_sends pkt t cs =
     concat (map (\<lambda>c. if t \<in> dom (topics c) \<and> connected c then packet_sends pkt (cl_fd c) else []) cs)"

definition packet_topic :: "tcp_packet \<Rightarrow> u8 list" where
  "packet_topic pkt = cstr (topic_memory (udp_msg pkt))"

lemma datagram_published:
  assumes "tables_ok s" and "known_type pkt" and "pkt = udp_packet_of ip port bytes"
  shows "datagram_step ip port bytes s =
    Inr (publish pkt (packet_topic pkt) s, publish_sends pkt (packet_topic pkt) (objects s))"
proof -
  let ?t = "packet_topic pkt" let ?obj = "objects s"
  let ?g = "\<lambda>c. if ?t \<in> dom (topics c) then if connected c then packet_sends pkt (cl_fd c) else [] else []"
  let ?rs = "filter (\<lambda>r. ?t \<in> dom (topics (?obj ! r))) [0..<length ?obj]"
  have "topic_to_clients s ?t = {r. r < length ?obj \<and> ?t \<in> dom (topics (?obj ! r))}"
    using topic_iff[OF assms(1)] by blast
  then have rs: "sorted_list_of_set (topic_to_clients s ?t) = ?rs"
    by (simp only: sorted_list_of_below)
  have "map (\<lambda>r. if r \<in> set ?rs then publish_client pkt ?t (?obj ! r) else ?obj ! r) [0..<length ?obj] =
      map (\<lambda>r. publish_client pkt ?t (?obj ! r)) [0..<length ?obj]"
    by (auto simp: publish_client_def)
  then have objs: "map (\<lambda>r. if r \<in> set ?rs then publish_client pkt ?t (?obj ! r) else ?obj ! r) [0..<length ?obj] =
      map (publish_client pkt ?t) ?obj"
    by (simp only: map_by_index)
  have "concat (map (\<lambda>r. if connected (?obj ! r) then packet_sends pkt (cl_fd (?obj ! r)) else []) ?rs) =
      concat (map (\<lambda>r. ?g (?obj ! r)) [0..<length ?obj])"
    by (simp only: concat_filter)
  also have "\<dots> = concat (map ?g ?obj)" by (simp only: map_by_index[of ?g])
  also have "\<dots> = publish_sends pkt ?t ?obj"
    unfolding publish_sends_def by (intro arg_cong[where f = concat] map_cong refl) auto
  finally have sends: "concat (map (\<lambda>r. if connected (?obj ! r) then packet_sends pkt (cl_fd (?obj ! r)) else []) ?rs) =
      publish_sends pkt ?t ?obj" .
  have "datagram_step ip port bytes s = deliver pkt ?t ?rs s"
    unfolding rs[symmetric] by (simp add: datagram_step_def assms(3) packet_topic_def Let_def)
  also have "\<dots> = Inr (publish pkt ?t s, publish_sends pkt ?t ?obj)"
    unfolding publish_def objs[symmetric] sends[symmetric]
    by (rule deliver_known[OF assms(2)]) simp_all
  finally show ?thesis .
qed

section \<open>Every step keeps the tables\<close>

lemma publish_ok: "server_ok s \<Longrightarrow> server_ok (publish pkt t s)"
  by (simp add: server_ok_def tables_ok_def queues_ok_def fds_ok_def publish_def del: domIff cong: conj_cong)

text \<open>Whatever the type of the packet, this is the state of a delivery that comes to its end.\<close>

lemma deliver_state:
  assumes "deliver pkt t rs s = Inr (s', out)" and "distinct rs"
    and "\<forall>r \<in> set rs. r < length (objects s) \<and> t \<in> dom (topics (objects s ! r))"
  shows "s' = s\<lparr>objects := map (\<lambda>r. if r \<in> set rs then publish_client pkt t (objects s ! r) else objects s ! r)
    [0..<length (objects s)]\<rparr>"
  using assms
proof (induction rs arbitrary: s out)
  case Nil
  then show ?case by (simp add: map_nth)
next
  case (Cons r rs)
  let ?c = "objects s ! r" and ?p = "\<lambda>s R. map (\<lambda>q. if q \<in> R then publish_client pkt t (objects s ! q)
    else objects s ! q) [0..<length (objects s)]"
  obtain sf where sf: "topics ?c t = Some sf" using Cons.prems(3) by auto
  show ?case
  proof (cases "connected ?c")
    case True
    then have "?p s (set (r # rs)) = ?p s (set rs)" by auto
    with True Cons show ?thesis by (fastforce simp: Let_def bindE_eq_Inr)
  next
    case False
    let ?s' = "on_client r (\<lambda>_. if sf then store_packet pkt ?c else ?c) s"
    have "deliver pkt t rs ?s' = Inr (s', out)"
      using False sf Cons.prems(1) by (simp add: Let_def topic_has_sf_def)
    then have "s' = ?s'\<lparr>objects := ?p ?s' (set rs)\<rparr>"
      using Cons.prems(2,3) by (intro Cons.IH) (auto simp: on_client_nth simp del: domIff)
    also have "?p ?s' (set rs) = ?p s (set (r # rs))"
      using Cons.prems(2) False sf by (auto simp: on_client_nth publish_client_def)
    also have "?s'\<lparr>objects := X\<rparr> = s\<lparr>objects := X\<rparr>" for X by (simp add: on_client_def)
    finally show ?thesis .
  qed
qed

lemma datagram_state:
  assumes "datagram_step ip port bytes s = Inr (s', out)" and "tables_ok s"
    and "pkt = udp_packet_of ip port bytes"
  shows "s' = publish pkt (packet_topic pkt) s"
proof -
  let ?t = "packet_topic pkt" and ?obj = "objects s"
  let ?rs = "sorted_list_of_set (topic_to_clients s ?t)"
  have "deliver pkt ?t ?rs s = Inr (s', out)"
    using assms(1) by (simp add: datagram_step_def assms(3) packet_topic_def Let_def)
  then have "s' = s\<lparr>objects := map (\<lambda>r. if r \<in> set ?rs then publish_client pkt ?t (?obj ! r) else ?obj ! r)
      [0..<length ?obj]\<rparr>"
    by (rule deliver_state) (simp_all add: finite_topic[OF assms(2)] topic_iff[OF assms(2)] del: domIff)
  also have "map (\<lambda>r. if r \<in> set ?rs then publish_client pkt ?t (?obj ! r) else ?obj ! r) [0..<length ?obj] =
      map (\<lambda>r. publish_client pkt ?t (?obj ! r)) [0..<length ?obj]"
    by (auto simp: finite_topic[OF assms(2)] topic_iff[OF assms(2)] publish_client_def)
  finally show ?thesis by (simp only: map_by_index publish_def)
qed

lemma fd_client_Inr:
  assumes "fd_client i s = Inr (r, s1)"
  shows "\<exists>cid. fd_to_id s1 i = Some cid \<and> clients s cid = Some r \<and>
    (s1 = s \<or> cid = [] \<and> fd_to_id s i = None \<and> s1 = s\<lparr>fd_to_id := (fd_to_id s)(i \<mapsto> [])\<rparr>)"
proof (cases "fd_to_id s i")
  case None
  with assms show ?thesis by (cases "clients s []") (auto simp: fd_client_def)
next
  case (Some cid)
  with assms show ?thesis by (cases "clients s cid") (auto simp: fd_client_def)
qed

lemma fd_client_ok:
  assumes "fd_client i s = Inr (r, s1)" and "server_ok s"
  shows "server_ok s1 \<and> r < length (objects s) \<and> objects s1 = objects s \<and> read_fds s1 = read_fds s \<and>
    fdmax s1 = fdmax s \<and> exit_status s1 = exit_status s \<and> udpsockfd s1 = udpsockfd s \<and>
    tcpsockfd s1 = tcpsockfd s \<and> clients s1 = clients s \<and> topic_to_clients s1 = topic_to_clients s"
  using fd_client_Inr[OF assms(1)] assms(2)
  by (auto simp: server_ok_def tables_ok_fields clients_iff)


lemma command_ok:
  assumes "command_step word s = Inr (s', out)" and "server_ok s"
  shows "server_ok s'"
  using assms by (auto simp: command_step_def server_ok_def tables_ok_fields fds_ok_def exit_fds_def split: if_splits)

lemma datagram_ok:
  assumes "datagram_step ip port bytes s = Inr (s', out)" and "server_ok s"
  shows "server_ok s' \<and> exit_status s' = exit_status s"
  using datagram_state[OF assms(1) _ refl] assms(2) publish_ok by (simp add: server_ok_def publish_def)

lemma closed_ok:
  assumes "closed_step i s = Inr (s', out)" and "server_ok s" and "i \<notin> {0, udpsockfd s, tcpsockfd s}"
  shows "server_ok s' \<and> exit_status s' = exit_status s"
proof -
  obtain r s1 where fc: "fd_client i s = Inr (r, s1)"
      and s': "s' = (on_client r disconnect s1)\<lparr>read_fds := read_fds s1 - {i}\<rparr>"
    using assms(1) by (auto simp: closed_step_def bindE_eq_Inr Let_def)
  note ok = fd_client_ok[OF fc assms(2)]
  have "tables_ok (on_client r disconnect s1)"
    using ok by (intro tables_on_client) (simp_all add: server_ok_def disconnect_def)
  moreover have "queues_ok (on_client r disconnect s1)"
    using ok by (intro queues_on_client) (simp_all add: server_ok_def disconnect_def)
  moreover have "fds_ok s'" using ok assms(3) by (auto simp: s' server_ok_def fds_ok_def)
  ultimately show ?thesis using ok by (simp add: s' server_ok_def tables_ok_fields)
qed

text \<open>A subscription and its end change the topics of a client and the clients of a topic together.\<close>

lemma tables_on_topic:
  assumes "tables_ok s" and "r < length (objects s)"
    and "cl_id (f (objects s ! r)) = cl_id (objects s ! r)"
    and "\<And>u. u \<in> dom (topics (f (objects s ! r))) \<longleftrightarrow> (if u = t then b else u \<in> dom (topics (objects s ! r)))"
    and "\<And>q. q \<in> R \<longleftrightarrow> (if q = r then b else q \<in> topic_to_clients s t)"
  shows "tables_ok ((on_client r f s)\<lparr>topic_to_clients := (topic_to_clients s)(t := R)\<rparr>)"
proof -
  let ?s = "(on_client r f s)\<lparr>topic_to_clients := (topic_to_clients s)(t := R)\<rparr>"
  have id: "cl_id (objects ?s ! q) = cl_id (objects s ! q)"
    and dom: "u \<in> dom (topics (objects ?s ! q)) \<longleftrightarrow>
      (if q = r \<and> u = t then b else u \<in> dom (topics (objects s ! q)))" if "q < length (objects s)" for q u
    using assms(3,4) that by (simp_all add: on_client_nth del: domIff)
  have "q \<in> topic_to_clients ?s u \<longleftrightarrow> q < length (objects ?s) \<and> u \<in> dom (topics (objects ?s ! q))" for u q
    using assms(2) dom[of q u] assms(5)[of q] topic_iff[OF assms(1), of q u]
    by (cases "q < length (objects s)") (auto simp del: domIff)
  then show ?thesis using id assms(1) by (auto simp: tables_ok_def simp del: domIff)
qed

lemma subscribe_ok:
  assumes "subscribe_step i bytes s = Inr (s', out)" and "server_ok s"
  shows "server_ok s' \<and> exit_status s' = exit_status s"
proof -
  let ?t = "subs_topic bytes" and ?f = "subscribe (subs_topic bytes) (subs_sf bytes)"
  obtain r s1 where fc: "fd_client i s = Inr (r, s1)"
      and s': "s' = s1 \<or> s' = (on_client r ?f s1)\<lparr>topic_to_clients :=
        (topic_to_clients s1)(?t := insert r (topic_to_clients s1 ?t))\<rparr>"
    using assms(1) by (auto simp: subscribe_step_def bindE_eq_Inr Let_def split: if_splits)
  note ok = fd_client_ok[OF fc assms(2)]
  have "tables_ok ((on_client r ?f s1)\<lparr>topic_to_clients := (topic_to_clients s1)(?t := insert r (topic_to_clients s1 ?t))\<rparr>)"
    using ok by (intro tables_on_topic[where b = True]) (auto simp: server_ok_def subscribe_def)
  moreover have "queues_ok (on_client r ?f s1)"
    using ok by (intro queues_on_client) (auto simp: server_ok_def subscribe_def queues_ok_def)
  ultimately show ?thesis using s' ok by (auto simp: server_ok_def tables_ok_fields)
qed

lemma unsubscribe_ok:
  assumes "unsubscribe_step i bytes s = Inr (s', out)" and "server_ok s"
  shows "server_ok s' \<and> exit_status s' = exit_status s"
proof -
  let ?t = "subs_topic bytes" and ?f = "unsubscribe (subs_topic bytes)"
  obtain r s1 where fc: "fd_client i s = Inr (r, s1)"
      and s': "s' = s1 \<or> s' = (on_client r ?f s1)\<lparr>topic_to_clients :=
        (topic_to_clients s1)(?t := topic_to_clients s1 ?t - {r})\<rparr>"
    using assms(1) by (auto simp: unsubscribe_step_def bindE_eq_Inr Let_def split: if_splits)
  note ok = fd_client_ok[OF fc assms(2)]
  have "tables_ok ((on_client r ?f s1)\<lparr>topic_to_clients := (topic_to_clients s1)(?t := topic_to_clients s1 ?t - {r})\<rparr>)"
    using ok by (intro tables_on_topic[where b = False]) (auto simp: server_ok_def unsubscribe_def)
  moreover have "queues_ok (on_client r ?f s1)"
    using ok by (intro queues_on_client) (auto simp: server_ok_def unsubscribe_def queues_ok_def)
  ultimately show ?thesis using s' ok by (auto simp: server_ok_def tables_ok_fields)
qed


lemma tables_new_client:
  assumes "tables_ok s" and "clients s cid = None"
  shows "tables_ok (s\<lparr>objects := objects s @ [new_Client fd cid], clients := (clients s)(cid \<mapsto> length (objects s)),
    fd_to_id := m\<rparr>)"
proof -
  have new: "r < length (objects s) \<Longrightarrow> cl_id (objects s ! r) \<noteq> cid" for r
    using assms clients_iff[OF assms(1), of cid r] by auto
  show ?thesis
    using assms(1) new by (auto simp: tables_ok_def nth_append new_Client_def less_Suc_eq)
qed

lemma connection_ok:
  assumes "connection_step newfd ip port bytes s = Inr (s', out)" and "server_ok s"
    and "2 < newfd" and "newfd \<notin> read_fds s"
  shows "server_ok s' \<and> exit_status s' = exit_status s"
proof -
  let ?s1 = "s\<lparr>read_fds := insert newfd (read_fds s), fdmax := max (fdmax s) newfd\<rparr>"
  let ?cid = "cstr (payload bytes)"
  have fds: "fds_ok ?s1" "fds_ok (?s1\<lparr>read_fds := read_fds ?s1 - {newfd}\<rparr>)"
    using assms(2-4) by (auto simp: server_ok_def fds_ok_def)
  have ok: "tables_ok s" "queues_ok s" using assms(2) by (simp_all add: server_ok_def)
  consider "msg_type bytes \<noteq> ID_MSG" "s' = ?s1"
    | r where "clients s ?cid = Some r" "s' = ?s1\<lparr>read_fds := read_fds ?s1 - {newfd}\<rparr>"
    | r m where "clients s ?cid = Some r"
        "s' = (on_client r (\<lambda>_. (objects s ! r)\<lparr>cl_fd := newfd, connected := True, sf_queue := []\<rparr>) ?s1)\<lparr>fd_to_id := m\<rparr>"
    | m where "clients s ?cid = None"
        "s' = ?s1\<lparr>objects := objects s @ [new_Client newfd ?cid], clients := (clients s)(?cid \<mapsto> length (objects s)), fd_to_id := m\<rparr>"
    using assms(1)
    by (auto simp: connection_step_def reconnect_def Let_def bindE_eq_Inr split: if_splits option.splits)
  then show ?thesis
  proof cases
    case 1
    then show ?thesis using fds ok by (simp add: server_ok_def tables_ok_fields)
  next
    case (2 r)
    then show ?thesis using fds ok by (simp add: server_ok_def tables_ok_fields)
  next
    case (3 r m)
    have "r < length (objects s)" using 3(1) clients_iff[OF ok(1)] by simp
    then have "tables_ok (on_client r (\<lambda>_. (objects s ! r)\<lparr>cl_fd := newfd, connected := True, sf_queue := []\<rparr>) ?s1)"
      by (intro tables_on_client) (use ok in \<open>simp_all add: tables_ok_fields\<close>)
    moreover have "queues_ok (on_client r (\<lambda>_. (objects s ! r)\<lparr>cl_fd := newfd, connected := True, sf_queue := []\<rparr>) ?s1)"
      by (intro queues_on_client) (use ok in \<open>simp_all add: tables_ok_fields\<close>)
    ultimately show ?thesis using 3(2) fds by (simp add: server_ok_def tables_ok_fields)
  next
    case (4 m)
    have "tables_ok s'" using tables_new_client[of ?s1 ?cid m newfd] ok(1) 4 by (simp add: tables_ok_fields)
    moreover have "queues_ok s'" using ok(2) 4(2) by (auto simp: queues_ok_def new_Client_def)
    moreover have "fds_ok s'" using fds(1) 4(2) by (simp add: tables_ok_fields)
    ultimately show ?thesis using 4(2) by (simp add: server_ok_def)
  qed
qed

lemma step_ok:
  assumes "server_step e s = Inr (s', out)" and "server_ok s"
  shows "server_ok s'"
  using assms command_ok datagram_ok connection_ok closed_ok subscribe_ok unsubscribe_ok
  by (fastforce simp: server_step_def message_step_def split: if_splits event.splits)

lemma run_ok: "server_run es s = Inr (s', out) \<Longrightarrow> server_ok s \<Longrightarrow> server_ok s'"
  by (induction es arbitrary: s out) (auto simp: bindE_eq_Inr dest: step_ok)


section \<open>Requests\<close>

definition client_named :: "server \<Rightarrow> u8 list \<Rightarrow> Client option" where
  "client_named s cid = map_option (\<lambda>r. objects s ! r) (clients s cid)"

lemma client_named_iff:
  "tables_ok s \<Longrightarrow> client_named s cid = Some c \<longleftrightarrow> (\<exists>r. clients s cid = Some r \<and> r < length (objects s) \<and> c = objects s ! r)"
  by (auto simp: client_named_def clients_iff)

text \<open>A change of one object is a change at one name.\<close>

lemma client_named_on_client:
  assumes "tables_ok s" and "clients s cid = Some r"
  shows "client_named (on_client r f s) = (client_named s)(cid \<mapsto> f (objects s ! r))"
proof
  fix k
  have r: "r < length (objects s)" "cl_id (objects s ! r) = cid" using assms by (simp_all add: clients_iff)
  show "client_named (on_client r f s) k = ((client_named s)(cid \<mapsto> f (objects s ! r))) k"
  proof (cases "clients s k")
    case None
    then show ?thesis using assms(2) by (auto simp: client_named_def)
  next
    case (Some q)
    then have "q < length (objects s)" "cl_id (objects s ! q) = k" using assms(1) by (simp_all add: clients_iff)
    then show ?thesis using Some r assms(2) by (auto simp: client_named_def on_client_nth)
  qed
qed

lemma client_named_fields [simp]:
  "client_named (s\<lparr>fd_to_id := a\<rparr>) = client_named s" "client_named (s\<lparr>read_fds := b\<rparr>) = client_named s"
  "client_named (s\<lparr>fdmax := n\<rparr>) = client_named s" "client_named (s\<lparr>topic_to_clients := y\<rparr>) = client_named s"
  by (simp_all add: client_named_def fun_eq_iff)

text \<open>The topics that a request asks for.\<close>

definition requested :: "u8 list \<Rightarrow> (u8 list \<Rightarrow> bool option) \<Rightarrow> u8 list \<Rightarrow> bool option" where
  "requested bytes m =
     m(subs_topic bytes := if msg_type bytes = SUB_MSG then Some (subs_sf bytes) else None)"

lemma fd_client_known: "fd_to_id s i = Some cid \<Longrightarrow> clients s cid = Some r \<Longrightarrow> fd_client i s = Inr (r, s)"
  by (simp add: fd_client_def)

lemma map_upd_same: "m(k := v) = m \<longleftrightarrow> m k = v"
  by (auto simp: fun_eq_iff)

lemma request_done:
  assumes "tables_ok s" and "fd_to_id s i = Some cid" and "client_named s cid = Some c"
    and "bytes \<noteq> []" and "msg_type bytes = SUB_MSG \<or> msg_type bytes = UNSUB_MSG"
  shows "\<exists>s'. message_step i bytes s =
      Inr (s', [send_msg i (if requested bytes (topics c) = topics c then ERR_MSG else CONF_MSG)]) \<and>
    client_named s' = (client_named s)(cid \<mapsto> c\<lparr>topics := requested bytes (topics c)\<rparr>) \<and>
    fd_to_id s' = fd_to_id s \<and> read_fds s' = read_fds s"
proof -
  obtain r where r: "clients s cid = Some r" "r < length (objects s)" "c = objects s ! r"
    using assms(1,3) by (auto simp: client_named_iff)
  note fc = fd_client_known[OF assms(2) r(1)]
  let ?t = "subs_topic bytes" and ?sf = "subs_sf bytes"
  have same: "(client_named s)(cid \<mapsto> c\<lparr>topics := requested bytes (topics c)\<rparr>) = client_named s"
    if "requested bytes (topics c) = topics c"
    using that assms(3) by (simp add: map_upd_same)
  show ?thesis
  proof (cases "msg_type bytes = SUB_MSG")
    case True
    then have req: "requested bytes (topics c) = topics c \<longleftrightarrow> client_has_topic ?t c \<and> fst (topic_has_sf ?t c) = ?sf"
      by (auto simp: requested_def map_upd_same client_has_topic_def topic_has_sf_def)
    have f: "c\<lparr>topics := requested bytes (topics c)\<rparr> = subscribe ?t ?sf c"
      using True by (simp add: requested_def subscribe_def)
    show ?thesis
      using True assms(4) same client_named_on_client[OF assms(1) r(1), of "subscribe ?t ?sf"] req f
      by (cases "requested bytes (topics c) = topics c")
        (auto simp: message_step_def subscribe_step_def fc Let_def r(3)[symmetric])
  next
    case False
    then have req: "requested bytes (topics c) = topics c \<longleftrightarrow> \<not> client_has_topic ?t c"
      by (simp add: requested_def map_upd_same client_has_topic_def)
    have f: "c\<lparr>topics := requested bytes (topics c)\<rparr> = unsubscribe ?t c"
      using False by (simp add: requested_def unsubscribe_def)
    show ?thesis
      using False assms(4,5) same client_named_on_client[OF assms(1) r(1), of "unsubscribe ?t"] req f
      by (cases "requested bytes (topics c) = topics c")
        (simp_all add: message_step_def unsubscribe_step_def fc Let_def r(3)[symmetric])
  qed
qed

end
