(* ===== verification/Broker_Delivery.thy ===== *)
theory Broker_Delivery
  imports Broker_Props
begin

text \<open>
  The promises of the broker of \<open>src/PCom2/server.cpp\<close> over whole runs: its tables agree in every
  state it reaches, packets reach the clients of their topic, requests are answered, a client that
  comes back gets what it missed. And where it breaks: a client that comes back on another
  descriptor takes the name of the one that got its old descriptor.
\<close>

section \<open>While a client is away\<close>

text \<open>The events that the server takes as coming from the client of a given name.\<close>

definition acts_for :: "u8 list \<Rightarrow> event \<Rightarrow> server \<Rightarrow> bool" where
  "acts_for cid e s =
     (case e of
        Connection newfd ip port bytes \<Rightarrow> msg_type bytes = ID_MSG \<and> cstr (payload bytes) = cid
      | Message i bytes \<Rightarrow> (case fd_to_id s i of Some k \<Rightarrow> k = cid | None \<Rightarrow> cid = [])
      | _ \<Rightarrow> False)"

fun stays_away :: "u8 list \<Rightarrow> event list \<Rightarrow> server \<Rightarrow> bool" where
  "stays_away cid [] s = True"
| "stays_away cid (e # es) s =
     (\<not> acts_for cid e s \<and> (case server_step e s of Inl _ \<Rightarrow> True | Inr (s', _) \<Rightarrow> stays_away cid es s'))"

text \<open>The packets that a client with these topics is to find when it comes back.\<close>

definition stored_for :: "(u8 list \<Rightarrow> bool option) \<Rightarrow> event \<Rightarrow> tcp_packet list" where
  "stored_for m e =
     (case e of
        Datagram ip port bytes \<Rightarrow>
          let pkt = udp_packet_of ip port bytes in if m (packet_topic pkt) = Some True then [pkt] else []
      | _ \<Rightarrow> [])"

lemma exited_step: "exit_status s \<Longrightarrow> server_step e s = Inr (s, [])"
  by (simp add: server_step_def)

lemma exited_run: "exit_status s \<Longrightarrow> server_run es s = Inr (s, [])"
  by (induction es) (simp_all add: exited_step)

lemma named_unchanged:
  assumes "tables_ok s" and "clients s cid = Some r" and "fd_client i s = Inr (q, s1)"
    and "case fd_to_id s i of Some k \<Rightarrow> k \<noteq> cid | None \<Rightarrow> cid \<noteq> []"
  shows "client_named (on_client q f s1) cid = client_named s cid"
proof -
  obtain k where k: "clients s k = Some q" "k \<noteq> cid" "clients s1 = clients s" "objects s1 = objects s"
    using fd_client_Inr[OF assms(3)] assms(4) by (auto split: option.splits)
  have "q \<noteq> r" "r < length (objects s)"
    using k(1,2) assms(1,2) by (auto simp: clients_iff)
  then show ?thesis using k assms(2) by (simp add: client_named_def on_client_nth)
qed

lemma fd_client_named: "fd_client i s = Inr (q, s1) \<Longrightarrow> client_named s1 = client_named s"
  using fd_client_Inr[of i s q s1] by (auto simp: client_named_def fun_eq_iff)

lemma message_away:
  assumes "message_step i bytes s = Inr (s', out)" and "tables_ok s" and "client_named s cid = Some c"
    and "case fd_to_id s i of Some k \<Rightarrow> k \<noteq> cid | None \<Rightarrow> cid \<noteq> []"
  shows "client_named s' cid = Some c"
proof -
  obtain r where r: "clients s cid = Some r" using assms(2,3) by (auto simp: client_named_iff)
  consider "s' = s"
    | q s1 f m where "fd_client i s = Inr (q, s1)" "s' = (on_client q f s1)\<lparr>read_fds := m\<rparr>"
    | q s1 where "fd_client i s = Inr (q, s1)" "s' = s1"
    | q s1 f n where "fd_client i s = Inr (q, s1)" "s' = (on_client q f s1)\<lparr>topic_to_clients := n\<rparr>"
    using assms(1)
    by (fastforce simp: message_step_def closed_step_def subscribe_step_def unsubscribe_step_def bindE_eq_Inr
        Let_def split: if_splits)
  then show ?thesis
    by cases (use assms(3) named_unchanged[OF assms(2) r _ assms(4)] fd_client_named in auto)
qed

lemma connection_away:
  assumes "connection_step newfd ip port bytes s = Inr (s', out)" and "tables_ok s"
    and "client_named s cid = Some c" and "\<not> (msg_type bytes = ID_MSG \<and> cstr (payload bytes) = cid)"
  shows "client_named s' cid = Some c"
proof -
  let ?s1 = "s\<lparr>read_fds := insert newfd (read_fds s), fdmax := max (fdmax s) newfd\<rparr>"
  let ?k = "cstr (payload bytes)"
  have ok: "tables_ok ?s1" using assms(2) by (simp add: tables_ok_fields)
  have named: "client_named ?s1 = client_named s" by simp
  consider m where "s' = ?s1\<lparr>read_fds := m\<rparr>" | "s' = ?s1"
    | r f m where "?k \<noteq> cid" "clients ?s1 ?k = Some r" "s' = (on_client r f ?s1)\<lparr>fd_to_id := m\<rparr>"
    | m where "?k \<noteq> cid" "clients s ?k = None"
        "s' = ?s1\<lparr>objects := objects s @ [new_Client newfd ?k], clients := (clients s)(?k \<mapsto> length (objects s)), fd_to_id := m\<rparr>"
    using assms(1,4)
    by (auto simp: connection_step_def reconnect_def Let_def bindE_eq_Inr split: if_splits option.splits)
  then show ?thesis
  proof cases
    case (3 r f m)
    then show ?thesis using assms(3) client_named_on_client[OF ok 3(2)] named by simp
  next
    case (4 m)
    then show ?thesis using assms(2,3) by (auto simp: client_named_def clients_iff nth_append)
  qed (use assms(3) in simp_all)
qed

lemma step_away:
  assumes "server_step e s = Inr (s', out)" and "server_ok s" and "client_named s cid = Some c"
    and "\<not> connected c" and "\<not> acts_for cid e s" and "\<not> exit_status s"
  shows "client_named s' cid = Some (c\<lparr>sf_queue := sf_queue c @ stored_for (topics c) e\<rparr>)"
proof (cases e)
  case (Command word)
  then show ?thesis using assms
    by (auto simp: server_step_def command_step_def stored_for_def client_named_def split: if_splits)
next
  case (Datagram ip port bytes)
  let ?pkt = "udp_packet_of ip port bytes"
  have "s' = publish ?pkt (packet_topic ?pkt) s"
    using assms(1,2,6) Datagram datagram_state[of ip port bytes s s' out]
    by (simp add: server_step_def server_ok_def)
  moreover have "clients s cid = Some r \<Longrightarrow> r < length (objects s)" for r
    using assms(2) by (simp add: server_ok_def clients_iff)
  ultimately have "client_named s' cid = Some (publish_client ?pkt (packet_topic ?pkt) c)"
    using assms(3) by (auto simp: client_named_def publish_def)
  then show ?thesis
    using assms(4) Datagram by (auto simp: stored_for_def publish_client_def store_packet_def Let_def)
next
  case (Connection newfd ip port bytes)
  have "client_named s' cid = Some c"
    using assms connection_away[of newfd ip port bytes s s' out cid c] Connection
    by (auto simp: server_step_def acts_for_def server_ok_def split: if_splits)
  then show ?thesis using Connection by (simp add: stored_for_def)
next
  case (Message i bytes)
  have "client_named s' cid = Some c"
    using assms message_away[of i bytes s s' out cid c] Message
    by (auto simp: server_step_def acts_for_def server_ok_def split: if_splits option.splits)
  then show ?thesis using Message by (simp add: stored_for_def)
qed

lemma run_away:
  assumes "server_run es s = Inr (s', out)" and "server_ok s" and "client_named s cid = Some c"
    and "\<not> connected c" and "stays_away cid es s" and "\<not> exit_status s'"
  shows "client_named s' cid = Some (c\<lparr>sf_queue := sf_queue c @ concat (map (stored_for (topics c)) es)\<rparr>)"
  using assms
proof (induction es arbitrary: s c out)
  case (Cons e es)
  obtain s1 o1 o2 where step: "server_step e s = Inr (s1, o1)" and rest: "server_run es s1 = Inr (s', o2)"
    using Cons.prems(1) by (auto simp: bindE_eq_Inr)
  let ?c = "c\<lparr>sf_queue := sf_queue c @ stored_for (topics c) e\<rparr>"
  have "\<not> exit_status s" using Cons.prems(1,6) exited_run[of s "e # es"] by auto
  then have "client_named s1 cid = Some ?c"
    using step_away[OF step Cons.prems(2-4)] Cons.prems(5) by simp
  from Cons.IH[OF rest step_ok[OF step Cons.prems(2)] this] show ?case
    using Cons.prems(4,5,6) step by simp
qed simp

section \<open>Coming back\<close>

definition hello_text :: "u8 list \<Rightarrow> u32 \<Rightarrow> u16 \<Rightarrow> string" where
  "hello_text cid ip port =
     ''New client '' @ text_of cid @ '' connected from '' @ ip_port ip port @ ''.'' @ [CHR 0x0A]"

lemma connection_back:
  assumes "tables_ok s" and "client_named s cid = Some c" and "\<not> connected c"
    and "newfd < FD_SETSIZE" and "msg_type bytes = ID_MSG" and "cstr (payload bytes) = cid"
    and "\<forall>pkt \<in> set (sf_queue c). known_type pkt"
  shows "\<exists>s'. connection_step newfd ip port bytes s =
      Inr (s', concat (map (\<lambda>pkt. packet_sends pkt newfd) (sf_queue c)) @ [Cout (hello_text cid ip port)]) \<and>
    client_named s' = (client_named s)(cid \<mapsto> c\<lparr>cl_fd := newfd, connected := True, sf_queue := []\<rparr>) \<and>
    fd_to_id s' newfd = Some cid \<and> newfd \<in> read_fds s'"
proof -
  let ?s1 = "s\<lparr>read_fds := insert newfd (read_fds s), fdmax := max (fdmax s) newfd\<rparr>"
  let ?c' = "c\<lparr>cl_fd := newfd, connected := True, sf_queue := []\<rparr>"
  obtain r where r: "clients s cid = Some r" "c = objects s ! r"
    using assms(1,2) by (auto simp: client_named_iff)
  have "tables_ok ?s1" "clients ?s1 cid = Some r" using assms(1) r by (simp_all add: tables_ok_fields)
  note named = client_named_on_client[OF this, of "\<lambda>_. ?c'"]
  have re: "reconnect newfd c = Inr (?c', concat (map (\<lambda>pkt. packet_sends pkt newfd) (sf_queue c)))"
    using send_queue_known[OF assms(7)] by (simp add: reconnect_def)
  show ?thesis
    using assms(3-6) r(1) named re
    by (simp add: connection_step_def Let_def r(2)[symmetric] hello_text_def)
qed


section \<open>The properties\<close>

text \<open>
  C11: in every state that the server reaches from its start, the map of client names and the list
  of client objects are inverse to each other, the clients listed under a topic are those that hold
  it, a connected client has nothing queued, and the descriptors that are watched are the standard
  input, the two sockets and others above the standard streams, all within \<open>fdmax\<close>.
\<close>

theorem server_tables_agree:
  assumes "2 < udp" and "udp \<le> tcp" and "server_run es (server_start udp tcp) = Inr (s, out)"
  shows "server_ok s"
  using run_ok[OF assms(3)] start_ok[OF assms(1,2)] by simp

text \<open>
  C13: a packet of a known data type that arrives in a state whose tables agree goes out to the
  connected clients that hold its topic, to each on its own descriptor and to no one else, and it
  is stored for the disconnected ones that asked for that; nothing else of the state changes. The
  server finds them by the table of topics, the statement looks at all clients.
\<close>

theorem packet_published:
  assumes "server_ok s" and "\<not> exit_status s" and "pkt = udp_packet_of ip port bytes" and "known_type pkt"
  shows "server_step (Datagram ip port bytes) s =
    Inr (s\<lparr>objects := map (\<lambda>c. if \<not> connected c \<and> topics c (packet_topic pkt) = Some True
                            then c\<lparr>sf_queue := sf_queue c @ [pkt]\<rparr> else c) (objects s)\<rparr>,
         concat (map (\<lambda>c. if topics c (packet_topic pkt) \<noteq> None \<and> connected c
                         then packet_sends pkt (cl_fd c) else []) (objects s)))"
proof -
  have "publish_client pkt t = (\<lambda>c. if \<not> connected c \<and> topics c t = Some True
      then c\<lparr>sf_queue := sf_queue c @ [pkt]\<rparr> else c)" for t
    by (simp add: publish_client_def store_packet_def fun_eq_iff)
  then show ?thesis
    using datagram_published[OF _ assms(4,3)] assms(1,2)
    by (simp add: server_step_def server_ok_def publish_def publish_sends_def domIff)
qed

text \<open>
  C14: a subscribe or unsubscribe request of a client that the server knows is carried out on the
  topics of that client and of no other, and is confirmed; exactly when it would change nothing it
  is refused with an error instead.
\<close>

theorem request_answered:
  assumes "server_ok s" and "fd_to_id s i = Some cid" and "client_named s cid = Some c"
    and "bytes \<noteq> []" and "msg_type bytes = SUB_MSG \<or> msg_type bytes = UNSUB_MSG"
  shows "\<exists>s'. message_step i bytes s =
      Inr (s', [Send i (proto_msg (if requested bytes (topics c) = topics c then ERR_MSG else CONF_MSG) [])]) \<and>
    client_named s' = (client_named s)(cid \<mapsto> c\<lparr>topics := requested bytes (topics c)\<rparr>)"
  using request_done[OF _ assms(2-5)] assms(1) by (auto simp: server_ok_def send_msg_def)

text \<open>
  C10: store and forward. A client that is not connected and stays away while the server handles any
  events, and then comes back under its name on a new descriptor, is sent what it had queued and
  after it the packets that arrived in the meantime on the topics it holds with the store flag, in
  the order of their arrival and each once; it is connected there with an empty queue and the
  topics it had.
\<close>

theorem store_and_forward:
  assumes "server_ok s" and "client_named s cid = Some c" and "\<not> connected c"
    and "server_run es s = Inr (s', out)" and "\<not> exit_status s'" and "stays_away cid es s"
    and "2 < newfd" and "newfd < FD_SETSIZE" and "newfd \<notin> read_fds s'"
    and "msg_type bytes = ID_MSG" and "cstr (payload bytes) = cid"
    and "pkts = sf_queue c @ concat (map (stored_for (topics c)) es)" and "\<forall>pkt \<in> set pkts. known_type pkt"
  shows "\<exists>s''. server_run (es @ [Connection newfd ip port bytes]) s =
      Inr (s'', out @ concat (map (\<lambda>pkt. packet_sends pkt newfd) pkts) @ [Cout (hello_text cid ip port)]) \<and>
    client_named s'' cid = Some (c\<lparr>cl_fd := newfd, connected := True, sf_queue := []\<rparr>)"
proof -
  have append: "server_run (es @ fs) s =
      bindE (server_run es s) (\<lambda>(s', out). bindE (server_run fs s') (\<lambda>(s'', out'). Inr (s'', out @ out')))" for es fs s
    by (induction es arbitrary: s) (auto simp: bindE_assoc split: sum.splits prod.splits simp: bindE_def)
  let ?c = "c\<lparr>sf_queue := pkts\<rparr>"
  have "client_named s' cid = Some ?c" using run_away[OF assms(4,1-3,6,5)] assms(12) by simp
  moreover have "tables_ok s'" using run_ok[OF assms(4,1)] by (simp add: server_ok_def)
  ultimately obtain s'' where "connection_step newfd ip port bytes s' =
      Inr (s'', concat (map (\<lambda>pkt. packet_sends pkt newfd) pkts) @ [Cout (hello_text cid ip port)])"
    "client_named s'' cid = Some (c\<lparr>cl_fd := newfd, connected := True, sf_queue := []\<rparr>)"
    using connection_back[of s' cid ?c newfd bytes ip port] assms(3,8,10,11,13) by auto
  then show ?thesis using assms(4,5,7,9) by (simp add: append server_step_def)
qed

text \<open>
  C32: the server does not survive this: client \<open>a\<close> on descriptor \<open>f\<close> leaves, client \<open>b\<close> gets the
  same descriptor, \<open>a\<close> comes back on another one, and \<open>b\<close> sends a request or leaves. The
  reconnection of \<open>a\<close> erased the entry of \<open>f\<close>, which is \<open>b\<close>'s by then, so that the lookup for
  \<open>b\<close> ends in a null pointer.
\<close>

theorem reused_descriptor_crashes:
  assumes "{f, g} \<inter> {0, 1, 2, udp, tcp} = {}" and "f \<noteq> g" and "f < FD_SETSIZE" and "g < FD_SETSIZE"
    and "msg_type ha = ID_MSG" and "cstr (payload ha) = a" and "msg_type hb = ID_MSG" and "cstr (payload hb) = b"
    and "a \<noteq> b" and "a \<noteq> []" and "b \<noteq> []"
    and "request = [] \<or> msg_type request = SUB_MSG \<or> msg_type request = UNSUB_MSG"
  shows "server_run [Connection f ip port ha, Message f [], Connection f ip' port' hb,
      Connection g ip port ha, Message f request] (server_start udp tcp) = Inl NullDeref"
proof -
  have d: "2 < f" "2 < g" "f \<noteq> udp" "f \<noteq> tcp" "g \<noteq> udp" "g \<noteq> tcp" "f \<noteq> 0" "g \<noteq> 0" using assms(1) by auto
  have neq: "msg_type m = UNSUB_MSG \<Longrightarrow> msg_type m \<noteq> SUB_MSG" for m by (simp add: SUB_MSG_def UNSUB_MSG_def)
  show ?thesis
    using assms(2-12) d neq
    by (auto simp: server_step_def connection_step_def message_step_def closed_step_def subscribe_step_def
        unsubscribe_step_def fd_client_def server_start_def on_client_def reconnect_def new_Client_def
        disconnect_def Let_def nth_append bindE_def)
qed


section \<open>Instances\<close>

lemma proto_msg_read:
  assumes "length p \<le> SUBSPACKET_LEN"
  shows "msg_type (proto_msg ty p) = ty \<and> payload (proto_msg ty p) = zero_fill SUBSPACKET_LEN p"
proof -
  have "length (proto_msg ty p) = MSG_LEN"
    using length_zero_fill[OF assms] by (simp add: proto_msg_def protocol_sizes)
  then show ?thesis by (simp add: msg_type_def payload_def zero_fill_def proto_msg_def)
qed

lemma cstr_zero_fill: "0 \<notin> set p \<Longrightarrow> cstr (zero_fill n p) = p"
  by (simp only: zero_fill_def cstr_def, subst takeWhile_append2) auto

definition two_clients :: server where
  "two_clients =
     \<lparr>udpsockfd = 3, tcpsockfd = 4,
      objects = [\<lparr>cl_id = [97], connected = True, cl_fd = 5, topics = [[116] \<mapsto> False], sf_queue = []\<rparr>,
                 \<lparr>cl_id = [98], connected = False, cl_fd = 6, topics = [[116] \<mapsto> True], sf_queue = []\<rparr>],
      clients = [[97] \<mapsto> 0, [98] \<mapsto> 1], fd_to_id = [5 \<mapsto> [97], 6 \<mapsto> [98]],
      topic_to_clients = (\<lambda>t. if t = [116] then {0, 1} else {}),
      read_fds = {0, 3, 4, 5}, fdmax = 6, exit_status = False\<rparr>"

lemma two_clients_ok: "server_ok two_clients"
proof (intro server_okI)
  show "tables_ok two_clients"
    by (auto simp: tables_ok_def two_clients_def less_Suc_eq nth_Cons')
qed (simp_all add: queues_ok_def fds_ok_def two_clients_def)

lemma t_packet:
  "packet_topic (udp_packet_of ip port [116]) = [116]" "known_type (udp_packet_of ip port [116])"
proof -
  have "topic (udp_of_bytes [116]) = 116 # replicate 49 0" "data_type (udp_of_bytes [116]) = 0"
    by (simp_all add: udp_of_bytes_def Let_def zero_fill_def protocol_sizes nth_Cons')
  then show "packet_topic (udp_packet_of ip port [116]) = [116]" "known_type (udp_packet_of ip port [116])"
    by (simp_all add: packet_topic_def udp_packet_of_def topic_memory_def cstr_def known_type_def)
qed

lemma server_tables_agree_witness:
  "\<exists>s out. server_run [Connection 5 0 0 (proto_msg ID_MSG [97])] (server_start 3 4) = Inr (s, out) \<and>
    server_ok s \<and> clients s [97] = Some 0"
proof -
  obtain s out where run: "server_run [Connection 5 0 0 (proto_msg ID_MSG [97])] (server_start 3 4) = Inr (s, out)"
      and "clients s [97] = Some 0"
    using proto_msg_read[of "[97]" ID_MSG] cstr_zero_fill[of "[97]" SUBSPACKET_LEN]
    by (simp add: server_step_def connection_step_def server_start_def Let_def protocol_sizes FD_SETSIZE_def)
  with server_tables_agree[OF _ _ run] show ?thesis by auto
qed

lemma packet_published_witness:
  "\<exists>s. server_step (Datagram 0 0 [116]) two_clients = Inr (s, packet_sends (udp_packet_of 0 0 [116]) 5) \<and>
    sf_queue (objects s ! 1) = [udp_packet_of 0 0 [116]]"
  using packet_published[OF two_clients_ok _ refl t_packet(2), of 0 0] t_packet(1)[of 0 0]
  by (auto simp: two_clients_def)

lemma request_answered_witness:
  "\<exists>s. message_step 5 (proto_msg UNSUB_MSG [116]) two_clients = Inr (s, [Send 5 (proto_msg CONF_MSG [])]) \<and>
    map_option topics (client_named s [97]) = Some Map.empty"
proof -
  have m: "msg_type (proto_msg UNSUB_MSG [116]) = UNSUB_MSG" "subs_topic (proto_msg UNSUB_MSG [116]) = [116]"
    using proto_msg_read[of "[116]" UNSUB_MSG] cstr_zero_fill[of "[116]"]
    by (simp_all add: subs_topic_def protocol_sizes)
  let ?c = "\<lparr>cl_id = [97], connected = True, cl_fd = 5, topics = [[116] \<mapsto> False], sf_queue = []\<rparr>"
  have c: "fd_to_id two_clients 5 = Some [97]" "client_named two_clients [97] = Some ?c"
    by (simp_all add: two_clients_def client_named_def)
  have r: "requested (proto_msg UNSUB_MSG [116]) (topics ?c) = Map.empty"
    using m by (simp add: requested_def SUB_MSG_def UNSUB_MSG_def)
  have "proto_msg UNSUB_MSG [116] \<noteq> []" by (simp add: proto_msg_def)
  from request_answered[OF two_clients_ok c this] m(1) r show ?thesis by (auto simp: fun_eq_iff)
qed

lemma store_and_forward_witness:
  "\<exists>s. server_run [Datagram 0 0 [116], Connection 7 0 0 (proto_msg ID_MSG [98])] two_clients =
    Inr (s, packet_sends (udp_packet_of 0 0 [116]) 5 @ packet_sends (udp_packet_of 0 0 [116]) 7 @
      [Cout (hello_text [98] 0 0)])"
proof -
  let ?pkt = "udp_packet_of 0 0 [116]"
  let ?c = "\<lparr>cl_id = [98], connected = False, cl_fd = 6, topics = [[116] \<mapsto> True], sf_queue = []\<rparr>"
  have step: "server_step (Datagram 0 0 [116]) two_clients = Inr (publish ?pkt [116] two_clients, packet_sends ?pkt 5)"
    using datagram_published[OF _ t_packet(2) refl, of two_clients 0 0] two_clients_ok t_packet(1)[of 0 0]
    by (simp add: server_step_def server_ok_def publish_sends_def two_clients_def)
  have m: "msg_type (proto_msg ID_MSG [98]) = ID_MSG" "cstr (payload (proto_msg ID_MSG [98])) = [98]"
    using proto_msg_read[of "[98]" ID_MSG] cstr_zero_fill[of "[98]"] by (simp_all add: protocol_sizes)
  have "client_named two_clients [98] = Some ?c" by (simp add: two_clients_def client_named_def)
  moreover have "server_run [Datagram 0 0 [116]] two_clients = Inr (publish ?pkt [116] two_clients, packet_sends ?pkt 5)"
    using step by simp
  moreover have "\<not> exit_status (publish ?pkt [116] two_clients)" "7 \<notin> read_fds (publish ?pkt [116] two_clients)"
    by (simp_all add: publish_def two_clients_def)
  moreover have "stays_away [98] [Datagram 0 0 [116]] two_clients"
    using step by (simp add: acts_for_def)
  moreover have "concat (map (stored_for (topics ?c)) [Datagram 0 0 [116]]) = [?pkt]"
    using t_packet(1)[of 0 0] by (simp add: stored_for_def)
  ultimately show ?thesis
    using store_and_forward[OF two_clients_ok, where cid = "[98]" and c = ?c and es = "[Datagram 0 0 [116]]" and newfd = 7
        and bytes = "proto_msg ID_MSG [98]" and pkts = "[?pkt]" and ip = 0 and port = 0] m t_packet(2)[of 0 0]
    by (auto simp: FD_SETSIZE_def)
qed

lemma reused_descriptor_crashes_witness:
  "server_run [Connection 5 0 0 (proto_msg ID_MSG [97]), Message 5 [], Connection 5 0 0 (proto_msg ID_MSG [98]),
      Connection 6 0 0 (proto_msg ID_MSG [97]), Message 5 []] (server_start 3 4) = Inl NullDeref"
proof -
  have m: "msg_type (proto_msg ID_MSG [b]) = ID_MSG" "b \<noteq> 0 \<Longrightarrow> cstr (payload (proto_msg ID_MSG [b])) = [b]" for b
    using proto_msg_read[of "[b]" ID_MSG] cstr_zero_fill[of "[b]"] by (simp_all add: protocol_sizes)
  show ?thesis
    by (rule reused_descriptor_crashes[OF _ _ _ _ m(1) m(2) m(1) m(2)]) (simp_all add: FD_SETSIZE_def)
qed

end
