(* ===== verification/Broker_Subscriber.thy ===== *)
theory Broker_Subscriber
  imports Broker_Protocol
begin

text \<open>
  \<open>src/PCom2/subscriber.cpp\<close>: the TCP client. Its state is what is left of the standard input, what
  the server sends to it, what it has printed and sent. A step handles one descriptor that
  \<open>select\<close> reported; the standard input comes before the socket.
\<close>

section \<open>State\<close>

text \<open>
  What a call of \<open>recv\<close> can return at once is a chunk of the stream; the next call goes on where the
  last one stopped. Without a chunk the server has closed the connection.
\<close>

record subscriber =
  typed :: string
  arriving :: "u8 list list"
  cout :: string
  cerr :: string
  sent :: "u8 list list"
  stopped :: bool

fun recv :: "nat \<Rightarrow> u8 list list \<Rightarrow> u8 list \<times> u8 list list" where
  "recv n [] = ([], [])"
| "recv n (c # cs) = (take n c, if length c \<le> n then cs else drop n c # cs)"

definition say :: "string \<Rightarrow> subscriber \<Rightarrow> subscriber" where
  "say t s = s\<lparr>cout := cout s @ t @ [CHR 0x0A]\<rparr>"

definition complain :: "string \<Rightarrow> subscriber \<Rightarrow> subscriber" where
  "complain t s = s\<lparr>cerr := cerr s @ t @ [CHR 0x0A]\<rparr>"

definition chars_of :: "string \<Rightarrow> u8 list" where
  "chars_of t = map (\<lambda>c. word_of_nat (of_char c)) t"

text \<open>The message with the name of the client, the first argument of the program.\<close>

definition id_message :: "string \<Rightarrow> u8 list res" where
  "id_message arg =
     (if SUBSPACKET_LEN < length arg then Inl OutOfBounds else Inr (proto_msg ID_MSG (chars_of arg)))"

section \<open>From the server\<close>

text \<open>
  The message is read into a cleared buffer, so that a closed connection looks like
  \<open>EXIT_MSG\<close>. The second \<open>recv\<close> trusts the size in the message.
\<close>

definition server_message :: "subscriber \<Rightarrow> subscriber res" where
  "server_message s =
     (let (got, rest) = recv MSG_LEN (arriving s);
          buffer = zero_fill MSG_LEN got; s1 = s\<lparr>arriving := rest\<rparr>
      in if buffer ! 0 = EXIT_MSG then Inr (s1\<lparr>stopped := True\<rparr>)
         else if buffer ! 0 = PKT_MSG then
           let sz = sizes_of_bytes (tl buffer);
               (body, rest') = recv (to_receive sz) rest
           in if PACKET_LEN < length body then Inl OutOfBounds
              else bindE (rebuild_packet sz (zero_fill PACKET_LEN body)) (\<lambda>pkt.
                let s2 = s\<lparr>arriving := rest', cout := cout s @ print_packet pkt\<rparr>
                in Inr (if 3 < data_type (udp_msg pkt) then complain ''Invalid data type!'' s2 else s2))
         else Inr (complain ''Unexpected message type received!'' s1))"

section \<open>Commands\<close>

text \<open>
  \<open>std::cin >> word\<close>, empty at the end of the input; \<open>clear_stdin\<close>, for which the character \<open>0xFF\<close>
  equals \<open>EOF\<close> once it is stored in a \<open>char\<close>.
\<close>

definition cin_word :: "string \<Rightarrow> string \<times> string" where
  "cin_word inp = scan_token (skip_space inp)"

fun clear_line :: "string \<Rightarrow> string" where
  "clear_line [] = []"
| "clear_line (c # cs) = (if c = CHR 0x0A \<or> c = CHR 0xFF then cs else clear_line cs)"

definition subs_message :: "u8 \<Rightarrow> string \<Rightarrow> bool \<Rightarrow> u8 list" where
  "subs_message ty t sf = proto_msg ty (zero_fill TOPIC_LEN (chars_of t) @ [if sf then 1 else 0])"

text \<open>
  The request goes out and whatever message comes next is taken for the answer. The size of the
  topic has been checked by the caller.
\<close>

definition sub_unsub :: "string \<Rightarrow> bool \<Rightarrow> u8 \<Rightarrow> subscriber \<Rightarrow> subscriber res" where
  "sub_unsub t sf ty s =
     (if TOPIC_LEN < length t then Inl OutOfBounds
      else
        let (got, rest) = recv MSG_LEN (arriving s);
            feedback = zero_fill MSG_LEN got ! 0;
            s1 = s\<lparr>sent := sent s @ [subs_message ty t sf], arriving := rest\<rparr>
        in Inr (if feedback = CONF_MSG then
                  say (if ty = SUB_MSG then ''Subscribed to topic.'' else ''Unsubscribed from topic.'') s1
                else if feedback = ERR_MSG then
                  if ty = SUB_MSG then complain ''Topic already subscribed to with same SF!'' s1
                  else say ''Topic not subscribed to!'' s1
                else complain ''Unexpected message type received!'' s1))"

definition word_starts :: "string \<Rightarrow> string \<Rightarrow> bool" where
  "word_starts p w \<longleftrightarrow> take (length p) w = p"

definition sub_command :: "string \<Rightarrow> string \<Rightarrow> subscriber \<Rightarrow> subscriber res" where
  "sub_command w rest s =
     (let (t, rest1) = cin_word rest
      in if TOPIC_LEN < length t then Inr (complain ''Invalid topic size!'' (s\<lparr>typed := clear_line rest1\<rparr>))
         else if word_starts ''un'' w then sub_unsub t False UNSUB_MSG (s\<lparr>typed := clear_line rest1\<rparr>)
         else case skip_space rest1 of
                [] \<Rightarrow> Inl UninitRead
              | c # rest2 \<Rightarrow>
                  let s1 = s\<lparr>typed := clear_line rest2\<rparr>
                  in if c \<noteq> CHR ''0'' \<and> c \<noteq> CHR ''1'' then Inr (complain ''Invalid SF value!'' s1)
                     else sub_unsub t (c = CHR ''1'') SUB_MSG s1)"

definition keyboard :: "subscriber \<Rightarrow> subscriber res" where
  "keyboard s =
     (let (w, rest) = cin_word (typed s)
      in if PACKET_LEN \<le> length w then Inl OutOfBounds
         else if word_starts ''exit'' w then Inr (s\<lparr>typed := rest, stopped := True\<rparr>)
         else if word_starts ''subscribe'' w \<or> word_starts ''unsubscribe'' w then sub_command w rest s
         else Inr (complain ''Invalid command!'' (s\<lparr>typed := clear_line rest\<rparr>)))"

section \<open>The loop\<close>

datatype ready = Keyboard | Server

definition subscriber_step :: "ready \<Rightarrow> subscriber \<Rightarrow> subscriber res" where
  "subscriber_step r s =
     (if stopped s then Inr s else case r of Keyboard \<Rightarrow> keyboard s | Server \<Rightarrow> server_message s)"

fun subscriber_run :: "ready list \<Rightarrow> subscriber \<Rightarrow> subscriber res" where
  "subscriber_run [] s = Inr s"
| "subscriber_run (r # rs) s = bindE (subscriber_step r s) (subscriber_run rs)"

definition subscriber_start :: "string \<Rightarrow> u8 list list \<Rightarrow> string \<Rightarrow> subscriber res" where
  "subscriber_start arg chunks inp =
     bindE (id_message arg) (\<lambda>m. Inr \<lparr>typed = inp, arriving = chunks, cout = [], cerr = [], sent = [m], stopped = False\<rparr>)"

section \<open>Streams of messages\<close>

text \<open>How TCP may cut a sequence of messages when it cuts only between them.\<close>

inductive whole :: "'a list list \<Rightarrow> 'a list list \<Rightarrow> bool" where
  whole_Nil: "whole [] []"
| whole_own: "whole ms cs \<Longrightarrow> whole (m # ms) (m # cs)"
| whole_joined: "whole ms (c # cs) \<Longrightarrow> whole (m # ms) ((m @ c) # cs)"

inductive_cases whole_ConsE: "whole (m # ms) cs"

lemma whole_nonempty: "whole ms cs \<Longrightarrow> [] \<notin> set ms \<Longrightarrow> [] \<notin> set cs"
  by (induction rule: whole.induct) auto

lemma whole_same: "whole ms ms"
  by (induction ms) (auto intro: whole.intros)

text \<open>A \<open>recv\<close> that asks for the size of the next message returns that message.\<close>

lemma recv_whole:
  assumes "whole (m # ms) cs" and "[] \<notin> set ms"
  shows "\<exists>cs'. recv (length m) cs = (m, cs') \<and> whole ms cs'"
  using assms(1)
proof (rule whole_ConsE)
  fix cs' assume "cs = m # cs'" "whole ms cs'"
  then show ?thesis by simp
next
  fix c cs' assume cs: "cs = (m @ c) # cs'" and w: "whole ms (c # cs')"
  have "c \<noteq> []" using whole_nonempty[OF w assms(2)] by auto
  then show ?thesis using cs w by simp
qed

end
