(* ===== verification/Broker_System.thy ===== *)
theory Broker_System
  imports Broker_Delivery Broker_Subscriber
begin

text \<open>
  The broker of \<open>server.cpp\<close> and the client of \<open>subscriber.cpp\<close> together: what the server sends for
  the packets it receives is what the subscriber prints, and what the subscriber asks for is what
  the server understands.
\<close>

section \<open>A channel of announced packets\<close>

text \<open>
  The contract between the two programs: what is sent for an item, cut from the stream in front of
  anything else, is handled by one step that shows the item and leaves the rest of the stream.
\<close>

fun repeat :: "('s \<Rightarrow> 's res) \<Rightarrow> nat \<Rightarrow> 's \<Rightarrow> 's res" where
  "repeat f 0 s = Inr s"
| "repeat f (Suc n) s = bindE (f s) (repeat f n)"

locale message_channel =
  fixes wire_of :: "'p \<Rightarrow> 'b list list"
    and shown :: "'p \<Rightarrow> 'o list"
    and good :: "'p \<Rightarrow> bool"
    and handle :: "'s \<Rightarrow> 's res"
    and stream :: "'s \<Rightarrow> 'b list list"
    and display :: "'s \<Rightarrow> 'o list"
    and running :: "'s \<Rightarrow> bool"
  assumes wire_nonempty: "good p \<Longrightarrow> [] \<notin> set (wire_of p)"
    and handle_item: "good p \<Longrightarrow> running s \<Longrightarrow> whole (wire_of p @ ms) (stream s) \<Longrightarrow> [] \<notin> set ms \<Longrightarrow>
      \<exists>s'. handle s = Inr s' \<and> running s' \<and> whole ms (stream s') \<and> display s' = display s @ shown p"
begin

lemma items_shown:
  assumes "\<forall>p \<in> set ps. good p" and "running s" and "whole (concat (map wire_of ps)) (stream s)"
  shows "\<exists>s'. repeat handle (length ps) s = Inr s' \<and> running s' \<and> stream s' = [] \<and>
    display s' = display s @ concat (map shown ps)"
  using assms
proof (induction ps arbitrary: s)
  case Nil
  then show ?case by (auto elim: whole.cases)
next
  case (Cons p ps)
  have "[] \<notin> set (concat (map wire_of ps))" using Cons.prems(1) wire_nonempty by fastforce
  then obtain s1 where s1: "handle s = Inr s1" "running s1" "whole (concat (map wire_of ps)) (stream s1)"
      "display s1 = display s @ shown p"
    using handle_item[of p s "concat (map wire_of ps)"] Cons.prems by auto
  with Cons.IH[OF _ s1(2,3)] Cons.prems(1) show ?case by auto
qed

end

text \<open>The two messages of a packet, and a packet that the subscriber can print.\<close>

definition wire :: "tcp_packet \<Rightarrow> u8 list list" where
  "wire pkt = (case packet_message pkt of Inl e \<Rightarrow> [] | Inr (m, b) \<Rightarrow> [m, b])"

definition printable :: "tcp_packet \<Rightarrow> bool" where
  "printable pkt \<longleftrightarrow> udp_ok (udp_msg pkt) \<and> 0 \<in> set (topic (udp_msg pkt)) \<and> data_type (udp_msg pkt) \<le> 3"

lemma zero_fill_full: "length bs = n \<Longrightarrow> zero_fill n bs = bs"
  by (simp add: zero_fill_def)

interpretation pc: message_channel wire print_packet printable server_message arriving cout "\<lambda>s :: subscriber. \<not> stopped s"
proof
  fix p assume p: "printable p"
  then obtain m b where "packet_message p = Inr (m, b)" "length m = MSG_LEN" "b \<noteq> []"
    using packet_through[of p] unfolding printable_def by blast
  then show "[] \<notin> set (wire p)" by (auto simp: wire_def protocol_sizes)
next
  fix p ms and s :: subscriber
  assume p: "printable p" and s: "\<not> stopped s" and w: "whole (wire p @ ms) (arriving s)" and ms: "[] \<notin> set ms"
  obtain m b q where pm: "packet_message p = Inr (m, b)" "length m = MSG_LEN" "b \<noteq> []" "hd m = PKT_MSG"
      "to_receive (sizes_of_bytes (tl m)) = length b" "length b \<le> PACKET_LEN"
      "rebuild_packet (sizes_of_bytes (tl m)) (zero_fill PACKET_LEN b) = Inr q"
      "data_type (udp_msg q) = data_type (udp_msg p)" "print_packet q = print_packet p"
    using packet_through[of p] p unfolding printable_def by blast
  have w': "whole (m # b # ms) (arriving s)" using w pm(1) by (simp add: wire_def)
  obtain cs where cs: "recv MSG_LEN (arriving s) = (m, cs)" "whole (b # ms) cs"
    using recv_whole[OF w'] ms pm(2,3) by auto
  obtain cs' where cs': "recv (length b) cs = (b, cs')" "whole ms cs'"
    using recv_whole[OF cs(2) ms] by blast
  have first: "m ! 0 = PKT_MSG" using pm(2,4) by (cases m) (simp_all add: protocol_sizes)
  have "\<not> 3 < data_type (udp_msg q)" using p pm(8) by (simp add: printable_def not_less)
  then have "server_message s = Inr (s\<lparr>arriving := cs', cout := cout s @ print_packet p\<rparr>)"
    using cs(1) cs'(1) pm(5,6,7,9) first
    by (simp add: server_message_def zero_fill_full[OF pm(2)] EXIT_MSG_def PKT_MSG_def)
  then show "\<exists>s'. server_message s = Inr s' \<and> \<not> stopped s' \<and> whole ms (arriving s') \<and>
      cout s' = cout s @ print_packet p"
    using cs'(2) s by simp
qed

lemma run_server_messages:
  "\<not> stopped s \<Longrightarrow> repeat server_message n s = Inr s' \<Longrightarrow> \<not> stopped s' \<Longrightarrow> subscriber_run (replicate n Server) s = Inr s'"
proof (induction n arbitrary: s)
  case (Suc n)
  then obtain s1 where s1: "server_message s = Inr s1" "repeat server_message n s1 = Inr s'" by (auto simp: bindE_eq_Inr)
  have stop: "subscriber_run (replicate k Server) x = Inr x" if "stopped x" for k x
    using that by (induction k) (simp_all add: subscriber_step_def)
  have exit: "stopped x \<Longrightarrow> server_message x = Inr y \<Longrightarrow> stopped y" for x y
    by (auto simp: server_message_def Let_def complain_def bindE_eq_Inr split: if_splits prod.splits)
  have "repeat server_message k x = Inr y \<Longrightarrow> stopped x \<Longrightarrow> stopped y" for k x y
    by (induction k arbitrary: x) (auto simp: bindE_eq_Inr dest: exit)
  then have "\<not> stopped s1" using s1(2) Suc.prems(3) by blast
  then show ?case using Suc.IH[OF _ s1(2) Suc.prems(3)] s1(1) Suc.prems(1) by (simp add: subscriber_step_def)
qed simp


section \<open>From the publisher to the subscriber\<close>

text \<open>What goes out on a descriptor, and a client that alone is connected on its descriptor.\<close>

fun sent_to :: "nat \<Rightarrow> effect list \<Rightarrow> u8 list list" where
  "sent_to fd [] = []"
| "sent_to fd (Send i b # es) = (if i = fd then [b] else []) @ sent_to fd es"
| "sent_to fd (_ # es) = sent_to fd es"

definition owns_fd :: "Client \<Rightarrow> server \<Rightarrow> bool" where
  "owns_fd c s \<longleftrightarrow> filter (\<lambda>d. connected d \<and> cl_fd d = cl_fd c) (objects s) = [c]"

lemma sent_to_append [simp]: "sent_to fd (xs @ ys) = sent_to fd xs @ sent_to fd ys"
  by (induction fd xs rule: sent_to.induct) simp_all

lemma sent_to_packet [simp]: "sent_to fd (packet_sends pkt i) = (if i = fd then wire pkt else [])"
  by (auto simp: packet_sends_def wire_def split: sum.splits)

lemma sent_to_publish:
  "sent_to fd (publish_sends pkt t cs) =
    concat (map (\<lambda>c. if t \<in> dom (topics c) then wire pkt else []) (filter (\<lambda>c. connected c \<and> cl_fd c = fd) cs))"
  by (induction cs) (auto simp: publish_sends_def)

lemma owns_fd_publish:
  assumes "owns_fd c s"
  shows "owns_fd c (publish pkt t s)"
proof -
  have "connected c" using assms filter_set[of "\<lambda>d. connected d \<and> cl_fd d = cl_fd c" "objects s"]
    by (auto simp: owns_fd_def dest!: arg_cong[where f = set])
  then show ?thesis using assms by (simp add: owns_fd_def publish_def filter_map comp_def)
qed

definition datagrams :: "(u32 \<times> u16 \<times> u8 list) list \<Rightarrow> event list" where
  "datagrams ds = map (\<lambda>(ip, port, bytes). Datagram ip port bytes) ds"

definition packets_of :: "(u32 \<times> u16 \<times> u8 list) list \<Rightarrow> tcp_packet list" where
  "packets_of ds = map (\<lambda>(ip, port, bytes). udp_packet_of ip port bytes) ds"

lemma datagrams_sent:
  assumes "server_ok s" and "\<not> exit_status s" and "owns_fd c s" and "\<forall>pkt \<in> set (packets_of ds). known_type pkt"
  shows "\<exists>s' out. server_run (datagrams ds) s = Inr (s', out) \<and>
    sent_to (cl_fd c) out = concat (map wire (filter (\<lambda>pkt. packet_topic pkt \<in> dom (topics c)) (packets_of ds)))"
  using assms
proof (induction ds arbitrary: s)
  case Nil
  then show ?case by (simp add: datagrams_def packets_of_def)
next
  case (Cons d ds)
  obtain ip port bytes where d: "d = (ip, port, bytes)" by (cases d) auto
  let ?pkt = "udp_packet_of ip port bytes" let ?t = "packet_topic ?pkt"
  have known: "known_type ?pkt" using Cons.prems(4) by (simp add: packets_of_def d)
  have step: "server_step (Datagram ip port bytes) s = Inr (publish ?pkt ?t s, publish_sends ?pkt ?t (objects s))"
    using datagram_published[OF _ known refl, of s] Cons.prems(1,2) by (simp add: server_step_def server_ok_def)
  have sent: "sent_to (cl_fd c) (publish_sends ?pkt ?t (objects s)) =
      (if ?t \<in> dom (topics c) then wire ?pkt else [])"
    using Cons.prems(3) by (simp add: sent_to_publish owns_fd_def)
  have "\<not> exit_status (publish ?pkt ?t s)" using Cons.prems(2) by (simp add: publish_def)
  moreover have "\<forall>pkt \<in> set (packets_of ds). known_type pkt" using Cons.prems(4) by (simp add: packets_of_def)
  ultimately obtain s' out where "server_run (datagrams ds) (publish ?pkt ?t s) = Inr (s', out)"
      "sent_to (cl_fd c) out = concat (map wire (filter (\<lambda>pkt. packet_topic pkt \<in> dom (topics c)) (packets_of ds)))"
    using Cons.IH[OF publish_ok[OF Cons.prems(1)] _ owns_fd_publish[OF Cons.prems(3)]] by blast
  then show ?case using step sent by (simp add: datagrams_def packets_of_def d)
qed

text \<open>
  C3: end to end. The packets that the UDP clients publish while the server runs undisturbed reach
  a subscriber that is connected and alone on its descriptor: when TCP cuts what the server sends
  to that descriptor only between messages, the subscriber takes exactly one step for every packet
  on a topic its client holds, prints those packets, each once and in the order of their arrival,
  as the server received them, and nothing is left over.
\<close>

theorem packets_arrive:
  assumes "server_ok s" and "\<not> exit_status s" and "owns_fd c s"
    and "\<forall>pkt \<in> set (packets_of ds). printable pkt"
    and "mine = filter (\<lambda>pkt. packet_topic pkt \<in> dom (topics c)) (packets_of ds)"
  shows "\<exists>s' out. server_run (datagrams ds) s = Inr (s', out) \<and>
    (\<forall>sub. \<not> stopped sub \<and> whole (sent_to (cl_fd c) out) (arriving sub) \<longrightarrow>
      (\<exists>sub'. subscriber_run (replicate (length mine) Server) sub = Inr sub' \<and> \<not> stopped sub' \<and>
        arriving sub' = [] \<and> cout sub' = cout sub @ concat (map print_packet mine)))"
proof -
  have "\<forall>pkt \<in> set (packets_of ds). known_type pkt" using assms(4) by (simp add: printable_def known_type_def)
  from datagrams_sent[OF assms(1-3) this] obtain s' out where
    run: "server_run (datagrams ds) s = Inr (s', out)" "sent_to (cl_fd c) out = concat (map wire mine)"
    using assms(5) by blast
  have good: "\<forall>pkt \<in> set mine. printable pkt" using assms(4,5) by simp
  have "\<exists>sub'. subscriber_run (replicate (length mine) Server) sub = Inr sub' \<and> \<not> stopped sub' \<and>
      arriving sub' = [] \<and> cout sub' = cout sub @ concat (map print_packet mine)"
    if "\<not> stopped sub" "whole (sent_to (cl_fd c) out) (arriving sub)" for sub
    using pc.items_shown[OF good that(1)] that run(2) run_server_messages[OF that(1)] by auto
  then show ?thesis using run(1) by blast
qed

section \<open>From the subscriber to the server\<close>

lemma length_chars_of [simp]: "length (chars_of t) = length t"
  by (simp add: chars_of_def)

lemma subs_message_read:
  assumes "length t \<le> TOPIC_LEN"
  shows "msg_type (subs_message ty t sf) = ty" and "subs_sf (subs_message ty t sf) = sf"
    and "payload (subs_message ty t sf) = zero_fill TOPIC_LEN (chars_of t) @ [if sf then 1 else 0]"
proof -
  let ?p = "zero_fill TOPIC_LEN (chars_of t) @ [if sf then 1 else 0 :: u8]"
  have len: "length (zero_fill TOPIC_LEN (chars_of t)) = TOPIC_LEN" using assms by (simp add: length_zero_fill)
  then have p: "length ?p = SUBSPACKET_LEN" by (simp add: protocol_sizes)
  then show pay: "payload (subs_message ty t sf) = ?p" and "msg_type (subs_message ty t sf) = ty"
    using proto_msg_read[of ?p ty] zero_fill_full[OF p] by (simp_all add: subs_message_def)
  show "subs_sf (subs_message ty t sf) = sf" using len by (simp add: subs_sf_def pay nth_append)
qed

lemma cstr_no_zeros: "0 \<notin> set xs \<Longrightarrow> cstr (xs @ ys) = xs @ cstr ys"
  by (induction xs) (auto simp: cstr_def)

lemma subs_topic_read:
  assumes "length t \<le> TOPIC_LEN" and "0 \<notin> set (chars_of t)"
  shows "subs_topic (subs_message ty t sf) = chars_of t @ (if length t = TOPIC_LEN \<and> sf then [1] else [])"
proof (cases "length t = TOPIC_LEN")
  case True
  then have "zero_fill TOPIC_LEN (chars_of t) = chars_of t" by (simp add: zero_fill_full)
  moreover have "cstr [1] = [1]" "cstr [0] = []" by (simp_all add: cstr_def)
  ultimately show ?thesis
    using True subs_message_read(3)[OF assms(1)] by (simp add: subs_topic_def cstr_no_zeros[OF assms(2)])
next
  case False
  then have "0 \<in> set (zero_fill TOPIC_LEN (chars_of t))" using assms(1) by (simp add: zero_fill_def)
  then show ?thesis
    using False subs_message_read(3)[OF assms(1)] cstr_zero_fill[OF assms(2), of TOPIC_LEN]
    by (simp add: subs_topic_def cstr_append)
qed

text \<open>
  C34: whether a packet matches a subscription. The subscriber sends its request for topic \<open>t\<close>; the
  server later reads the same topic in a packet. Below \<open>TOPIC_LEN\<close> characters they match. A topic
  of \<open>TOPIC_LEN\<close> characters, which both programs accept, has no end in either structure: the
  server reads the store flag as part of the one and the data type as part of the other, so that
  they match only for a packet of type 0 without the flag, or of type 1 whose content starts with a
  zero byte with it.
\<close>

theorem topic_matches:
  assumes "length t \<le> TOPIC_LEN" and "0 \<notin> set (chars_of t)"
    and "udp_ok (udp_msg pkt)" and "topic (udp_msg pkt) = zero_fill TOPIC_LEN (chars_of t)"
  shows "packet_topic pkt = subs_topic (subs_message SUB_MSG t sf) \<longleftrightarrow>
    length t < TOPIC_LEN \<or>
    (if sf then data_type (udp_msg pkt) = 1 \<and> content (udp_msg pkt) ! 0 = 0 else data_type (udp_msg pkt) = 0)"
proof (cases "length t = TOPIC_LEN")
  case True
  let ?m = "udp_msg pkt"
  obtain x xs where c: "content ?m = x # xs"
    using assms(3) by (cases "content ?m") (auto simp: udp_ok_def protocol_sizes)
  have full: "topic ?m = chars_of t" using True assms(4) by (simp add: zero_fill_full)
  have "packet_topic pkt = chars_of t @ cstr (data_type ?m # x # xs @ [0, 0, 0])"
    using cstr_no_zeros[OF assms(2)] by (simp add: packet_topic_def topic_memory_def full c)
  then show ?thesis using True c subs_topic_read[OF assms(1,2)] by (auto simp: cstr_def)
next
  case False
  then have "0 \<in> set (zero_fill TOPIC_LEN (chars_of t))" using assms(1) by (simp add: zero_fill_def)
  then have "packet_topic pkt = chars_of t"
    using cstr_zero_fill[OF assms(2)] by (simp add: packet_topic_def topic_memory_def assms(4) cstr_append)
  then show ?thesis using False assms(1) subs_topic_read[OF assms(1,2)] by simp
qed


lemma packets_arrive_witness:
  "\<exists>s' out sub'. server_run (datagrams [(0, 0, [116])]) two_clients = Inr (s', out) \<and>
    subscriber_run [Server] \<lparr>typed = [], arriving = sent_to 5 out, cout = [], cerr = [], sent = [], stopped = False\<rparr> =
      Inr sub' \<and> cout sub' = print_packet (udp_packet_of 0 0 [116])"
proof -
  let ?c = "\<lparr>cl_id = [97], connected = True, cl_fd = 5, topics = [[116] \<mapsto> False], sf_queue = []\<rparr>"
  let ?pkt = "udp_packet_of 0 0 [116]"
  have "0 \<in> set (topic (udp_of_bytes [116]))"
    by (simp add: udp_of_bytes_def Let_def zero_fill_def protocol_sizes)
  then have p: "\<forall>pkt \<in> set (packets_of [(0, 0, [116])]). printable pkt"
    using t_packet(2)[of 0 0] udp_of_bytes_ok[of "[116]"]
    by (simp add: packets_of_def printable_def known_type_def udp_packet_of_def)
  have m: "[?pkt] = filter (\<lambda>pkt. packet_topic pkt \<in> dom (topics ?c)) (packets_of [(0, 0, [116])])"
    using t_packet(1)[of 0 0] by (simp add: packets_of_def)
  have "\<not> exit_status two_clients" "owns_fd ?c two_clients" by (simp_all add: two_clients_def owns_fd_def)
  from packets_arrive[OF two_clients_ok this p m] obtain s' out where
    run: "server_run (datagrams [(0, 0, [116])]) two_clients = Inr (s', out)"
    and sub: "\<forall>sub. \<not> stopped sub \<and> whole (sent_to (cl_fd ?c) out) (arriving sub) \<longrightarrow>
      (\<exists>sub'. subscriber_run (replicate (length [?pkt]) Server) sub = Inr sub' \<and> \<not> stopped sub' \<and>
        arriving sub' = [] \<and> cout sub' = cout sub @ concat (map print_packet [?pkt]))"
    by blast
  from sub[rule_format, of "\<lparr>typed = [], arriving = sent_to 5 out, cout = [], cerr = [], sent = [], stopped = False\<rparr>"] run
  show ?thesis using whole_same[of "sent_to 5 out"] by auto
qed

lemma topic_matches_witness:
  "packet_topic \<lparr>udp_client_ip = 0, udp_client_port = 0,
      udp_msg = \<lparr>topic = replicate 50 116, data_type = 1, content = replicate 1500 5\<rparr>\<rparr> \<noteq>
    subs_topic (subs_message SUB_MSG (replicate 50 (CHR ''t'')) False)"
proof -
  let ?t = "replicate 50 (CHR ''t'')"
  have t: "chars_of ?t = replicate 50 116" by (simp add: chars_of_def map_replicate)
  then show ?thesis
    using topic_matches[of ?t "\<lparr>udp_client_ip = 0, udp_client_port = 0,
      udp_msg = \<lparr>topic = replicate 50 116, data_type = 1, content = replicate 1500 5\<rparr>\<rparr>" False]
    by (simp add: zero_fill_def udp_ok_def protocol_sizes)
qed

end
