(* ===== verification/Broker_Memory.thy ===== *)
theory Broker_Memory
  imports Broker_Delivery
begin

text \<open>
  What the broker of \<open>src/PCom2/server.cpp\<close> allocates: an object for every client it gets to know, and a
  packet for every one it stores. \<open>Broker_Server\<close> has the queues as lists of packets; here they are lists
  of pointers, and every \<open>new\<close> and \<open>delete\<close> of the program is a step on a heap. The server with pointers runs
  by itself, on its own state: what it sends to a client that comes back is what it reads through the pointers of its queue. It is
  proved to send what the server on lists sends, and the end of \<open>main\<close> releases everything.
\<close>

section \<open>State\<close>

text \<open>
  The queue of a client object is in \<open>client_heap\<close>, at the address of the object. Its other attributes stay in
  the record \<open>server\<close>, at the index that is this address; the attribute \<open>sf_queue\<close> of that record is not used here and
  stays empty. \<open>client_refs\<close> is the set that \<open>main\<close> keeps for the end.
\<close>

record memory =
  client_heap :: "addr list heap"
  packet_heap :: "tcp_packet heap"
  client_refs :: "addr set"

definition memory_start :: memory where
  "memory_start = \<lparr>client_heap = [], packet_heap = [], client_refs = {}\<rparr>"

section \<open>Operations\<close>

definition heap_new_Client :: "memory \<Rightarrow> addr \<times> memory" where
  "heap_new_Client m =
     (let (r, ch) = h_alloc [] (client_heap m)
      in (r, m\<lparr>client_heap := ch, client_refs := insert r (client_refs m)\<rparr>))"

definition heap_store_packet :: "tcp_packet \<Rightarrow> addr \<Rightarrow> memory \<Rightarrow> memory res" where
  "heap_store_packet pkt r m =
     bindE (h_read (client_heap m) r) (\<lambda>q.
     let (to_add, ph) = h_alloc pkt (packet_heap m)
     in bindE (h_write r (q @ [to_add]) (client_heap m)) (\<lambda>ch.
        Inr (m\<lparr>client_heap := ch, packet_heap := ph\<rparr>)))"

text \<open>Front, pop, send, delete, until the queue is empty.\<close>

fun heap_send_queue :: "nat \<Rightarrow> addr list \<Rightarrow> tcp_packet heap \<Rightarrow> (effect list \<times> tcp_packet heap) res" where
  "heap_send_queue fd [] h = Inr ([], h)"
| "heap_send_queue fd (a # q) h =
     bindE (h_read h a) (\<lambda>pkt.
     bindE (Client_send_packet fd pkt) (\<lambda>es.
     bindE (h_free a h) (\<lambda>h1.
     bindE (heap_send_queue fd q h1) (\<lambda>(es', h2). Inr (es @ es', h2)))))"

definition heap_reconnect :: "nat \<Rightarrow> addr \<Rightarrow> memory \<Rightarrow> (memory \<times> effect list) res" where
  "heap_reconnect fd r m =
     bindE (h_read (client_heap m) r) (\<lambda>q.
     bindE (heap_send_queue fd q (packet_heap m)) (\<lambda>(es, ph).
     bindE (h_write r [] (client_heap m)) (\<lambda>ch.
     Inr (m\<lparr>client_heap := ch, packet_heap := ph\<rparr>, es))))"

text \<open>The destructor of \<open>Client\<close> and the loop at the end of \<open>main\<close>.\<close>

fun delete_queue :: "addr list \<Rightarrow> tcp_packet heap \<Rightarrow> tcp_packet heap res" where
  "delete_queue [] h = Inr h"
| "delete_queue (a # q) h = bindE (h_free a h) (delete_queue q)"

definition delete_Client :: "addr \<Rightarrow> memory \<Rightarrow> memory res" where
  "delete_Client r m =
     bindE (h_read (client_heap m) r) (\<lambda>q.
     bindE (delete_queue q (packet_heap m)) (\<lambda>ph.
     bindE (h_free r (client_heap m)) (\<lambda>ch.
     Inr (m\<lparr>client_heap := ch, packet_heap := ph\<rparr>))))"

fun delete_Clients :: "addr list \<Rightarrow> memory \<Rightarrow> memory res" where
  "delete_Clients [] m = Inr m"
| "delete_Clients (r # rs) m = bindE (delete_Client r m) (delete_Clients rs)"

section \<open>The run\<close>

text \<open>A packet of a UDP client: sent, or copied to a new object for the queue.\<close>

fun heap_deliver ::
  "tcp_packet \<Rightarrow> u8 list \<Rightarrow> addr list \<Rightarrow> server \<Rightarrow> memory \<Rightarrow> (server \<times> memory \<times> effect list) res" where
  "heap_deliver pkt t [] s m = Inr (s, m, [])"
| "heap_deliver pkt t (r # rs) s m =
     (let cl = objects s ! r in
      if connected cl then
        bindE (Client_send_packet (cl_fd cl) pkt) (\<lambda>es.
        bindE (heap_deliver pkt t rs s m) (\<lambda>(s', m', es'). Inr (s', m', es @ es')))
      else let (sf, cl') = topic_has_sf t cl; s1 = on_client r (\<lambda>_. cl') s
           in bindE (if sf then heap_store_packet pkt r m else Inr m) (\<lambda>m1. heap_deliver pkt t rs s1 m1))"

text \<open>A connection: the queue of a client that comes back is sent and deleted; a new client is an object.\<close>

definition heap_connection ::
  "nat \<Rightarrow> u32 \<Rightarrow> u16 \<Rightarrow> u8 list \<Rightarrow> server \<Rightarrow> memory \<Rightarrow> (server \<times> memory \<times> effect list) res" where
  "heap_connection newfd ip port bytes s m =
     (if FD_SETSIZE \<le> newfd then Inl OutOfBounds
      else
        let s1 = s\<lparr>read_fds := insert newfd (read_fds s), fdmax := max (fdmax s) newfd\<rparr>;
            cid = cstr (payload bytes);
            hello = Cout (''New client '' @ text_of cid @ '' connected from '' @ ip_port ip port @ ''.'' @ [CHR 0x0A])
        in if msg_type bytes = ID_MSG then
             (case clients s1 cid of
                Some r \<Rightarrow>
                  let cl = objects s1 ! r in
                  if connected cl then
                    Inr (s1\<lparr>read_fds := read_fds s1 - {newfd}\<rparr>, m,
                      [Cout (''Client '' @ text_of cid @ '' already connected.'' @ [CHR 0x0A]),
                       send_msg newfd EXIT_MSG, Close newfd])
                  else
                    bindE (heap_reconnect newfd r m) (\<lambda>(m', es).
                    let s2 = on_client r (\<lambda>c. c\<lparr>cl_fd := newfd, connected := True\<rparr>) s1
                    in Inr (s2\<lparr>fd_to_id := ((fd_to_id s2)(cl_fd cl := None))(newfd \<mapsto> cid)\<rparr>, m', es @ [hello]))
              | None \<Rightarrow>
                  let (r, m') = heap_new_Client m
                  in Inr (s1\<lparr>objects := objects s1 @ [new_Client newfd cid],
                             clients := (clients s1)(cid \<mapsto> r),
                             fd_to_id := (fd_to_id s1)(newfd \<mapsto> cid)\<rparr>, m', [hello]))
           else Inr (s1, m, [Cerr (''Unexpected message type received!'' @ [CHR 0x0A])]))"

text \<open>The other events touch no queue.\<close>

definition beside :: "memory \<Rightarrow> (server \<times> effect list) res \<Rightarrow> (server \<times> memory \<times> effect list) res" where
  "beside m x = bindE x (\<lambda>(s, out). Inr (s, m, out))"

definition heap_step :: "event \<Rightarrow> server \<Rightarrow> memory \<Rightarrow> (server \<times> memory \<times> effect list) res" where
  "heap_step e s m =
     (if exit_status s then Inr (s, m, [])
      else case e of
        Command word \<Rightarrow> beside m (command_step word s)
      | Datagram ip port bytes \<Rightarrow>
          let pkt = udp_packet_of ip port bytes; t = cstr (topic_memory (udp_msg pkt))
          in heap_deliver pkt t (sorted_list_of_set (topic_to_clients s t)) s m
      | Connection newfd ip port bytes \<Rightarrow>
          if 2 < newfd \<and> newfd \<notin> read_fds s then heap_connection newfd ip port bytes s m else Inr (s, m, [])
      | Message i bytes \<Rightarrow>
          if i \<in> read_fds s \<and> i \<noteq> 0 \<and> i \<noteq> udpsockfd s \<and> i \<noteq> tcpsockfd s then beside m (message_step i bytes s)
          else Inr (s, m, []))"

fun heap_run :: "event list \<Rightarrow> server \<Rightarrow> memory \<Rightarrow> (server \<times> memory \<times> effect list) res" where
  "heap_run [] s m = Inr (s, m, [])"
| "heap_run (e # es) s m =
     bindE (heap_step e s m) (\<lambda>(s', m', out).
     bindE (heap_run es s' m') (\<lambda>(s'', m'', out'). Inr (s'', m'', out @ out')))"

definition main_end :: "memory \<Rightarrow> memory res" where
  "main_end m = delete_Clients (sorted_list_of_set (client_refs m)) m"

section \<open>Who owns what\<close>

definition owned :: "memory \<Rightarrow> addr \<Rightarrow> addr \<Rightarrow> bool" where
  "owned m a r \<longleftrightarrow> (\<exists>q. h_read (client_heap m) r = Inr q \<and> a \<in> set q)"

text \<open>Every packet on the heap is in one queue, once, and the queues hold nothing else.\<close>

definition well_owned :: "memory \<Rightarrow> bool" where
  "well_owned m \<longleftrightarrow>
     (\<forall>r q. h_read (client_heap m) r = Inr q \<longrightarrow> distinct q) \<and>
     (\<forall>a r r'. owned m a r \<longrightarrow> owned m a r' \<longrightarrow> r = r') \<and>
     (\<forall>a. (\<exists>pkt. h_read (packet_heap m) a = Inr pkt) \<longleftrightarrow> (\<exists>r. owned m a r))"

definition points_to :: "tcp_packet heap \<Rightarrow> addr list \<Rightarrow> tcp_packet list \<Rightarrow> bool" where
  "points_to h q ps \<longleftrightarrow> map (h_read h) q = map Inr ps"

definition holds :: "tcp_packet list list \<Rightarrow> memory \<Rightarrow> bool" where
  "holds Q m \<longleftrightarrow> well_owned m \<and> length (client_heap m) = length Q \<and> client_refs m = {..<length Q} \<and>
     (\<forall>r < length Q. \<exists>q. h_read (client_heap m) r = Inr q \<and> points_to (packet_heap m) q (Q ! r))"

lemma points_to_simps [simp]:
  "points_to h [] [] " "points_to h (a # q) (p # ps) \<longleftrightarrow> h_read h a = Inr p \<and> points_to h q ps"
  "points_to h [] ps \<longleftrightarrow> ps = []" "points_to h q [] \<longleftrightarrow> q = []"
  by (auto simp: points_to_def)

lemma points_to_frame: "points_to h q ps \<Longrightarrow> (\<forall>a \<in> set q. h_read h' a = h_read h a) \<Longrightarrow> points_to h' q ps"
  by (simp add: points_to_def cong: map_cong)

lemma points_to_snoc: "points_to h q ps \<Longrightarrow> h_read h a = Inr p \<Longrightarrow> points_to h (q @ [a]) (ps @ [p])"
  by (simp add: points_to_def)

lemma points_to_read: "points_to h q ps \<Longrightarrow> a \<in> set q \<Longrightarrow> \<exists>p. h_read h a = Inr p"
  by (induction q arbitrary: ps) (auto simp: points_to_def)

lemma free_reads: "h_read h a = Inr x \<Longrightarrow> \<exists>h1. h_free a h = Inr h1"
  by (simp add: h_free_def)

text \<open>Sending and deleting a queue both free all of it.\<close>

lemma queue_sent:
  "points_to h q ps \<Longrightarrow> distinct q \<Longrightarrow> send_queue fd ps = Inr es \<Longrightarrow>
     \<exists>h'. heap_send_queue fd q h = Inr (es, h') \<and> freed (set q) h h'"
proof (induction q arbitrary: h ps es)
  case Nil
  then show ?case by (simp add: freed_def)
next
  case (Cons a q)
  then obtain p ps' where ps: "ps = p # ps'" by (cases ps) auto
  obtain es1 es2 where e: "Client_send_packet fd p = Inr es1" "send_queue fd ps' = Inr es2" "es = es1 @ es2"
    using Cons.prems(3) ps by (auto simp: fault_simps)
  have a: "h_read h a = Inr p" "points_to h q ps'" using Cons.prems(1) ps by simp_all
  obtain h1 where h1: "h_free a h = Inr h1" using free_reads[OF a(1)] by blast
  have "points_to h1 q ps'"
    by (rule points_to_frame[OF a(2)]) (use Cons.prems(2) h1 in \<open>auto simp: heap_simps\<close>)
  from Cons.IH[OF this _ e(2)] Cons.prems(2) obtain h' where h': "heap_send_queue fd q h1 = Inr (es2, h')" "freed (set q) h1 h'"
    by auto
  then show ?case using a(1) e(1,3) h1 freed_step[OF h1 h'(2)] by simp
qed

lemma queue_not_sent:
  "points_to h q ps \<Longrightarrow> distinct q \<Longrightarrow> send_queue fd ps = Inl e \<Longrightarrow> heap_send_queue fd q h = Inl e"
proof (induction q arbitrary: h ps)
  case (Cons a q)
  then obtain p ps' where ps: "ps = p # ps'" by (cases ps) auto
  have a: "h_read h a = Inr p" "points_to h q ps'" using Cons.prems(1) ps by simp_all
  obtain h1 where h1: "h_free a h = Inr h1" using free_reads[OF a(1)] by blast
  have "points_to h1 q ps'"
    by (rule points_to_frame[OF a(2)]) (use Cons.prems(2) h1 in \<open>auto simp: heap_simps\<close>)
  note IH = Cons.IH[OF this]
  show ?case
  proof (cases "Client_send_packet fd p")
    case (Inl e')
    then show ?thesis using Cons.prems(3) ps a(1) by simp
  next
    case (Inr es)
    then have "send_queue fd ps' = Inl e" using Cons.prems(3) ps by (auto simp: fault_simps)
    then show ?thesis using IH Cons.prems(2) Inr a(1) h1 by simp
  qed
qed simp

lemma queue_deleted: "points_to h q ps \<Longrightarrow> distinct q \<Longrightarrow> \<exists>h'. delete_queue q h = Inr h' \<and> freed (set q) h h'"
proof (induction q arbitrary: h ps)
  case Nil
  then show ?case by (simp add: freed_def)
next
  case (Cons a q)
  then obtain p ps' where ps: "ps = p # ps'" by (cases ps) auto
  have a: "h_read h a = Inr p" "points_to h q ps'" using Cons.prems(1) ps by simp_all
  obtain h1 where h1: "h_free a h = Inr h1" using free_reads[OF a(1)] by blast
  have "points_to h1 q ps'"
    by (rule points_to_frame[OF a(2)]) (use Cons.prems(2) h1 in \<open>auto simp: heap_simps\<close>)
  from Cons.IH[OF this] Cons.prems(2) obtain h' where h': "delete_queue q h1 = Inr h'" "freed (set q) h1 h'"
    by auto
  then show ?case using h1 freed_step[OF h1 h'(2)] by simp
qed

section \<open>Every operation keeps the ownership\<close>

lemma holdsD:
  assumes "holds Q m"
  shows "well_owned m" "length (client_heap m) = length Q" "client_refs m = {..<length Q}"
    and "r < length Q \<Longrightarrow> \<exists>q. h_read (client_heap m) r = Inr q \<and> points_to (packet_heap m) q (Q ! r)"
  using assms by (simp_all add: holds_def)

lemma well_ownedD:
  assumes "well_owned m"
  shows "h_read (client_heap m) r = Inr q \<Longrightarrow> distinct q"
    and "owned m a r \<Longrightarrow> owned m a r' \<Longrightarrow> r = r'"
    and "(\<exists>pkt. h_read (packet_heap m) a = Inr pkt) \<longleftrightarrow> (\<exists>r. owned m a r)"
  using assms by (auto simp: well_owned_def)

text \<open>One queue is exchanged for another that has no part in the other queues.\<close>

lemma exchange_queue:
  assumes m: "well_owned m" and q: "h_read (client_heap m) r = Inr q"
    and ch: "\<And>x. h_read (client_heap m') x = (if x = r then Inr q' else h_read (client_heap m) x)"
    and d: "distinct q'" and new: "\<And>a x. a \<in> set q' \<Longrightarrow> x \<noteq> r \<Longrightarrow> \<not> owned m a x"
    and ph: "\<And>a. (\<exists>pkt. h_read (packet_heap m') a = Inr pkt) \<longleftrightarrow> a \<in> set q' \<or> (a \<notin> set q \<and> (\<exists>pkt. h_read (packet_heap m) a = Inr pkt))"
  shows "well_owned m'"
proof -
  have own: "owned m' a x \<longleftrightarrow> (if x = r then a \<in> set q' else owned m a x)" for a x
    by (simp add: owned_def ch)
  have old: "owned m a r \<longleftrightarrow> a \<in> set q" for a using q by (simp add: owned_def)
  have "distinct p" if "h_read (client_heap m') x = Inr p" for x p
    using that d well_ownedD(1)[OF m, of x p] by (simp add: ch split: if_splits)
  moreover have "x = y" if "owned m' a x" "owned m' a y" for a x y
    using that new[of a x] new[of a y] well_ownedD(2)[OF m, of a x y] by (auto simp: own split: if_splits)
  moreover have "(\<exists>pkt. h_read (packet_heap m') a = Inr pkt) \<longleftrightarrow> (\<exists>x. owned m' a x)" for a
  proof -
    have "(\<exists>x. owned m' a x) \<longleftrightarrow> a \<in> set q' \<or> (\<exists>x. x \<noteq> r \<and> owned m a x)" by (auto simp: own)
    also have "(\<exists>x. x \<noteq> r \<and> owned m a x) \<longleftrightarrow> a \<notin> set q \<and> (\<exists>x. owned m a x)"
      using old[of a] well_ownedD(2)[OF m] by metis
    finally show ?thesis using ph[of a] well_ownedD(3)[OF m, of a] by simp
  qed
  ultimately show ?thesis unfolding well_owned_def by blast
qed

lemma new_client_kept:
  assumes H: "holds Q m"
  shows "\<exists>m'. heap_new_Client m = (length Q, m') \<and> holds (Q @ [[]]) m'"
proof -
  note h = holdsD[OF H]
  obtain r ch where al: "h_alloc [] (client_heap m) = (r, ch)" by fastforce
  have full: "client_heap m ! i \<noteq> None" if "i < length Q" for i
    using h(4)[OF that] by (auto simp: h_read_def split: if_splits option.splits)
  have slot: "free_slot (client_heap m) = length Q"
    using full[of "free_slot (client_heap m)"] free_slot_free[of "client_heap m"] free_slot_le[of "client_heap m"] h(2)
    by (metis le_neq_implies_less)
  then have r: "r = length Q" and len: "length ch = Suc (length Q)" using al h(2) by (auto simp: h_alloc_def)
  let ?m = "snd (heap_new_Client m)"
  have m': "client_heap ?m = ch" "packet_heap ?m = packet_heap m" "client_refs ?m = insert r (client_refs m)"
    using al by (simp_all add: heap_new_Client_def)
  have address: "heap_new_Client m = (length Q, ?m)" using al r by (simp add: heap_new_Client_def)
  have read: "h_read ch x = (if x = r then Inr [] else h_read (client_heap m) x)" for x by (rule h_alloc_read[OF al])
  have old: "\<not> owned m a r" for a using h_alloc_fresh[OF al] by (simp add: owned_def)
  have own: "owned ?m a x \<longleftrightarrow> owned m a x" for a x
    using old by (auto simp: owned_def m' read)
  have "well_owned ?m"
    using h(1) unfolding well_owned_def own m' by (auto simp: read)
  moreover have "\<exists>q. h_read ch x = Inr q \<and> points_to (packet_heap m) q ((Q @ [[]]) ! x)" if "x < Suc (length Q)" for x
    using that h(4)[of x] r by (cases "x = length Q") (simp_all add: read nth_append)
  ultimately have "holds (Q @ [[]]) ?m" using h(3) len r by (simp add: holds_def m' lessThan_Suc)
  then show ?thesis using address by blast
qed

lemma store_kept:
  assumes H: "holds Q m" and r: "r < length Q"
  shows "\<exists>m'. heap_store_packet pkt r m = Inr m' \<and> holds (Q[r := Q ! r @ [pkt]]) m'"
proof -
  note h = holdsD[OF H]
  obtain q where q: "h_read (client_heap m) r = Inr q" "points_to (packet_heap m) q (Q ! r)" using h(4)[OF r] by blast
  obtain a ph where al: "h_alloc pkt (packet_heap m) = (a, ph)" by fastforce
  have fresh: "h_read (packet_heap m) a = Inl UseAfterFree" by (rule h_alloc_fresh[OF al])
  have read: "h_read ph x = (if x = a then Inr pkt else h_read (packet_heap m) x)" for x by (rule h_alloc_read[OF al])
  have unowned: "\<not> owned m a x" for x using fresh well_ownedD(3)[OF h(1), of a] by auto
  obtain ch where ch: "h_write r (q @ [a]) (client_heap m) = Inr ch" using q(1) by (simp add: h_write_def)
  have cread: "h_read ch x = (if x = r then Inr (q @ [a]) else h_read (client_heap m) x)" for x by (rule h_write_read[OF ch])
  have len: "length ch = length Q" using ch h(2) by (auto simp: h_write_Inr)
  let ?m = "m\<lparr>client_heap := ch, packet_heap := ph\<rparr>"
  have aq: "a \<notin> set q" using unowned[of r] q(1) by (simp add: owned_def)
  have "well_owned ?m"
  proof (rule exchange_queue[OF h(1) q(1), where q' = "q @ [a]"])
    show "distinct (q @ [a])" using well_ownedD(1)[OF h(1) q(1)] aq by simp
    show "\<not> owned m b x" if "b \<in> set (q @ [a])" "x \<noteq> r" for b x
    proof (cases "b = a")
      case False
      then have "owned m b r" using that(1) q(1) by (simp add: owned_def)
      then show ?thesis using well_ownedD(2)[OF h(1), of b r x] that(2) by blast
    qed (use unowned in simp)
    show "(\<exists>p. h_read (packet_heap ?m) b = Inr p) \<longleftrightarrow> b \<in> set (q @ [a]) \<or> (b \<notin> set q \<and> (\<exists>p. h_read (packet_heap m) b = Inr p))" for b
      using points_to_read[OF q(2), of b] by (auto simp: read)
  qed (simp add: cread)
  moreover have "\<exists>p. h_read ch x = Inr p \<and> points_to ph p (Q[r := Q ! r @ [pkt]] ! x)" if x: "x < length Q" for x
  proof -
    obtain p where p: "h_read (client_heap m) x = Inr p" "points_to (packet_heap m) p (Q ! x)" using h(4)[OF x] by blast
    have "a \<notin> set p" using unowned[of x] p(1) by (simp add: owned_def)
    then have "points_to ph p (Q ! x)" by (intro points_to_frame[OF p(2)]) (auto simp: read)
    then show ?thesis using p(1) q(1) x points_to_snoc[of ph p "Q ! x" a pkt]
      by (cases "x = r") (simp_all add: cread read)
  qed
  ultimately have "holds (Q[r := Q ! r @ [pkt]]) ?m" using h(3) len by (simp add: holds_def)
  then show ?thesis using q(1) al ch by (simp add: heap_store_packet_def)
qed

lemma reconnect_kept:
  assumes H: "holds Q m" and r: "r < length Q" and es: "send_queue fd (Q ! r) = Inr es"
  shows "\<exists>m'. heap_reconnect fd r m = Inr (m', es) \<and> holds (Q[r := []]) m'"
proof -
  note h = holdsD[OF H]
  obtain q where q: "h_read (client_heap m) r = Inr q" "points_to (packet_heap m) q (Q ! r)" using h(4)[OF r] by blast
  obtain ph where ph: "heap_send_queue fd q (packet_heap m) = Inr (es, ph)" "freed (set q) (packet_heap m) ph"
    using queue_sent[OF q(2) well_ownedD(1)[OF h(1) q(1)] es] by blast
  obtain ch where ch: "h_write r [] (client_heap m) = Inr ch" using q(1) by (simp add: h_write_def)
  have cread: "h_read ch x = (if x = r then Inr [] else h_read (client_heap m) x)" for x by (rule h_write_read[OF ch])
  have len: "length ch = length Q" using ch h(2) by (auto simp: h_write_Inr)
  let ?m = "m\<lparr>client_heap := ch, packet_heap := ph\<rparr>"
  have "well_owned ?m"
    by (rule exchange_queue[OF h(1) q(1), where q' = "[]"]) (use ph(2) in \<open>auto simp: cread freed_def\<close>)
  moreover have "\<exists>p. h_read ch x = Inr p \<and> points_to ph p (Q[r := []] ! x)" if x: "x < length Q" for x
  proof -
    obtain p where p: "h_read (client_heap m) x = Inr p" "points_to (packet_heap m) p (Q ! x)" using h(4)[OF x] by blast
    have "points_to ph p (Q ! x)" if "x \<noteq> r"
    proof (rule points_to_frame[OF p(2)], rule ballI)
      fix a assume "a \<in> set p"
      then have "owned m a x" using p(1) by (simp add: owned_def)
      then have "\<not> owned m a r" using that well_ownedD(2)[OF h(1), of a x r] by blast
      then have "a \<notin> set q" using q(1) by (simp add: owned_def)
      then show "h_read ph a = h_read (packet_heap m) a" using ph(2) by (simp add: freed_def)
    qed
    then show ?thesis using p(1) x by (cases "x = r") (simp_all add: cread)
  qed
  ultimately have "holds (Q[r := []]) ?m" using h(3) len by (simp add: holds_def)
  then show ?thesis using q(1) ph(1) ch by (simp add: heap_reconnect_def)
qed

lemma reconnect_fault:
  assumes H: "holds Q m" and r: "r < length Q" and e: "send_queue fd (Q ! r) = Inl e"
  shows "heap_reconnect fd r m = Inl e"
proof -
  note h = holdsD[OF H]
  obtain q where q: "h_read (client_heap m) r = Inr q" "points_to (packet_heap m) q (Q ! r)" using h(4)[OF r] by blast
  from queue_not_sent[OF q(2) well_ownedD(1)[OF h(1) q(1)] e] show ?thesis using q(1) by (simp add: heap_reconnect_def)
qed

section \<open>The end\<close>

text \<open>A client object goes with its queue.\<close>

lemma deleted_kept:
  assumes w: "well_owned m" and q: "h_read (client_heap m) r = Inr q"
  shows "\<exists>m'. delete_Client r m = Inr m' \<and> well_owned m' \<and> freed {r} (client_heap m) (client_heap m')"
proof -
  have "\<exists>p. h_read (packet_heap m) a = Inr p" if "a \<in> set q" for a
    using that q well_ownedD(3)[OF w, of a] by (auto simp: owned_def)
  then have "\<forall>a \<in> set q. \<exists>p. h_read (packet_heap m) a = Inr p" by blast
  then obtain f where "\<forall>a \<in> set q. h_read (packet_heap m) a = Inr (f a)" by metis
  then have "points_to (packet_heap m) q (map f q)" by (simp add: points_to_def)
  from queue_deleted[OF this well_ownedD(1)[OF w q]] obtain ph where
    ph: "delete_queue q (packet_heap m) = Inr ph" "freed (set q) (packet_heap m) ph" by blast
  obtain ch where ch: "h_free r (client_heap m) = Inr ch" using free_reads[OF q] by blast
  have cread: "h_read ch x = (if x = r then Inl UseAfterFree else h_read (client_heap m) x)" for x by (rule h_free_read[OF ch])
  let ?m = "m\<lparr>client_heap := ch, packet_heap := ph\<rparr>"
  have own: "owned ?m a x \<longleftrightarrow> x \<noteq> r \<and> owned m a x" for a x by (auto simp: owned_def cread)
  have old: "owned m a r \<longleftrightarrow> a \<in> set q" for a using q by (simp add: owned_def)
  have "(\<exists>p. h_read ph a = Inr p) \<longleftrightarrow> (\<exists>x. owned ?m a x)" for a
    using ph(2) well_ownedD(2)[OF w, of a r] well_ownedD(3)[OF w, of a] old[of a] unfolding own by (auto simp: freed_def)
  then have "well_owned ?m"
    using w unfolding well_owned_def own by (auto simp: cread)
  then show ?thesis using q ph(1) ch by (auto simp: delete_Client_def freed_def cread)
qed

lemma all_deleted:
  assumes "well_owned m" and "distinct rs" and "\<And>r. (\<exists>q. h_read (client_heap m) r = Inr q) \<longleftrightarrow> r \<in> set rs"
  shows "\<exists>m'. delete_Clients rs m = Inr m' \<and> (\<forall>r q. h_read (client_heap m') r \<noteq> Inr q) \<and>
    (\<forall>a p. h_read (packet_heap m') a \<noteq> Inr p)"
  using assms
proof (induction rs arbitrary: m)
  case Nil
  then have none: "h_read (client_heap m) r \<noteq> Inr q" for r q by auto
  then have "\<not> owned m a r" for a r by (simp add: owned_def)
  then show ?case using none well_ownedD(3)[OF Nil(1)] by auto
next
  case (Cons r rs)
  obtain q where q: "h_read (client_heap m) r = Inr q" using Cons.prems(3)[of r] by auto
  obtain m1 where m1: "delete_Client r m = Inr m1" "well_owned m1" "freed {r} (client_heap m) (client_heap m1)"
    using deleted_kept[OF Cons.prems(1) q] by blast
  have "(\<exists>p. h_read (client_heap m1) x = Inr p) \<longleftrightarrow> x \<in> set rs" for x
    using Cons.prems(2) Cons.prems(3)[of x] m1(3) by (auto simp: freed_def)
  from Cons.IH[OF m1(2) _ this] Cons.prems(2) m1(1) show ?case by auto
qed

lemma end_frees:
  assumes H: "holds Q m"
  shows "\<exists>m'. main_end m = Inr m' \<and> live (client_heap m') = 0 \<and> live (packet_heap m') = 0"
proof -
  note h = holdsD[OF H]
  have "(\<exists>q. h_read (client_heap m) r = Inr q) \<longleftrightarrow> r \<in> set (sorted_list_of_set (client_refs m))" for r
    using h(2,3) h(4)[of r] by (auto simp: h_read_Inr)
  from all_deleted[OF h(1) _ this] obtain m' where "main_end m = Inr m'"
    "\<And>r q. h_read (client_heap m') r \<noteq> Inr q" "\<And>a p. h_read (packet_heap m') a \<noteq> Inr p"
    unfolding main_end_def by auto
  then show ?thesis using none_live[of "client_heap m'"] none_live[of "packet_heap m'"] by blast
qed

section \<open>The run keeps both in agreement\<close>

definition queues_of :: "server \<Rightarrow> tcp_packet list list" where
  "queues_of s = map sf_queue (objects s)"

lemma queues_of_length [simp]: "length (queues_of s) = length (objects s)"
  by (simp add: queues_of_def)

lemma queues_of_fields [simp]:
  "queues_of (s\<lparr>fd_to_id := a\<rparr>) = queues_of s" "queues_of (s\<lparr>read_fds := b\<rparr>) = queues_of s"
  "queues_of (s\<lparr>fdmax := n\<rparr>) = queues_of s" "queues_of (s\<lparr>exit_status := x\<rparr>) = queues_of s"
  "queues_of (s\<lparr>clients := d\<rparr>) = queues_of s" "queues_of (s\<lparr>topic_to_clients := y\<rparr>) = queues_of s"
  by (simp_all add: queues_of_def)

lemma queues_of_on_client:
  "r < length (objects s) \<Longrightarrow> queues_of (on_client r f s) = (queues_of s)[r := sf_queue (f (objects s ! r))]"
  by (simp add: queues_of_def on_client_def map_update)

lemma queues_of_nth: "r < length (objects s) \<Longrightarrow> queues_of s ! r = sf_queue (objects s ! r)"
  by (simp add: queues_of_def)

lemma queues_of_same:
  "r < length (objects s) \<Longrightarrow> sf_queue (f (objects s ! r)) = sf_queue (objects s ! r) \<Longrightarrow> queues_of (on_client r f s) = queues_of s"
  by (simp add: queues_of_on_client queues_of_nth[symmetric])

lemma sf_queue_steps [simp]:
  "sf_queue (disconnect c) = sf_queue c" "sf_queue (subscribe t sf c) = sf_queue c" "sf_queue (unsubscribe t c) = sf_queue c"
  "sf_queue (snd (topic_has_sf t c)) = sf_queue c" "sf_queue (store_packet pkt c) = sf_queue c @ [pkt]"
  "sf_queue (new_Client fd cid) = []"
  by (simp_all add: disconnect_def subscribe_def unsubscribe_def topic_has_sf_def store_packet_def new_Client_def split: option.splits)

text \<open>The server without the queues, which are on the heap.\<close>

definition no_queue :: "Client \<Rightarrow> Client" where
  "no_queue c = c\<lparr>sf_queue := []\<rparr>"

definition bare :: "server \<Rightarrow> server" where
  "bare s = s\<lparr>objects := map no_queue (objects s)\<rparr>"

lemma bare_fields [simp]:
  "udpsockfd (bare s) = udpsockfd s" "tcpsockfd (bare s) = tcpsockfd s" "clients (bare s) = clients s"
  "fd_to_id (bare s) = fd_to_id s" "topic_to_clients (bare s) = topic_to_clients s" "read_fds (bare s) = read_fds s"
  "fdmax (bare s) = fdmax s" "exit_status (bare s) = exit_status s" "objects (bare s) = map no_queue (objects s)"
  by (simp_all add: bare_def)

lemma bare_updates:
  "bare (s\<lparr>fd_to_id := a\<rparr>) = (bare s)\<lparr>fd_to_id := a\<rparr>" "bare (s\<lparr>read_fds := b\<rparr>) = (bare s)\<lparr>read_fds := b\<rparr>"
  "bare (s\<lparr>fdmax := n\<rparr>) = (bare s)\<lparr>fdmax := n\<rparr>" "bare (s\<lparr>exit_status := x\<rparr>) = (bare s)\<lparr>exit_status := x\<rparr>"
  "bare (s\<lparr>clients := d\<rparr>) = (bare s)\<lparr>clients := d\<rparr>" "bare (s\<lparr>topic_to_clients := y\<rparr>) = (bare s)\<lparr>topic_to_clients := y\<rparr>"
  "bare (s\<lparr>objects := cs\<rparr>) = (bare s)\<lparr>objects := map no_queue cs\<rparr>"
  by (simp_all add: bare_def)

lemma bare_on_client:
  "r < length (objects s) \<Longrightarrow> no_queue (f (objects s ! r)) = g (no_queue (objects s ! r)) \<Longrightarrow>
   bare (on_client r f s) = on_client r g (bare s)"
  by (simp add: on_client_def bare_def map_update)

lemma no_queue_steps [simp]:
  "no_queue (disconnect c) = disconnect (no_queue c)" "no_queue (subscribe t sf c) = subscribe t sf (no_queue c)"
  "no_queue (unsubscribe t c) = unsubscribe t (no_queue c)" "no_queue (store_packet pkt c) = no_queue c"
  "no_queue (new_Client fd cid) = new_Client fd cid"
  "connected (no_queue c) = connected c" "cl_fd (no_queue c) = cl_fd c" "client_has_topic t (no_queue c) = client_has_topic t c"
  by (simp_all add: no_queue_def disconnect_def subscribe_def unsubscribe_def store_packet_def new_Client_def client_has_topic_def)

lemma no_queue_sf [simp]: "topic_has_sf t (no_queue c) = apsnd no_queue (topic_has_sf t c)"
  by (simp add: no_queue_def topic_has_sf_def split: option.splits)

text \<open>The heap server takes the same step: the same fault, or the same state, queues and effects.\<close>

definition same_step :: "(server \<times> effect list) res \<Rightarrow> (server \<times> memory \<times> effect list) res \<Rightarrow> bool" where
  "same_step x y \<longleftrightarrow>
     (case x of Inl e \<Rightarrow> y = Inl e
      | Inr (s', out) \<Rightarrow> \<exists>m'. y = Inr (bare s', m', out) \<and> holds (queues_of s') m')"

lemma same_step_Inr: "holds (queues_of s') m' \<Longrightarrow> y = Inr (bare s', m', out) \<Longrightarrow> same_step (Inr (s', out)) y"
  by (simp add: same_step_def)

lemma same_step_after:
  assumes "same_step x y"
  shows "same_step (bindE x (\<lambda>(s', es'). Inr (s', es @ es'))) (bindE y (\<lambda>(s', m', es'). Inr (s', m', es @ es')))"
  using assms by (auto simp: same_step_def split: sum.splits)

lemma deliver_same:
  "holds (queues_of s) m \<Longrightarrow> \<forall>r \<in> set rs. r < length (objects s) \<Longrightarrow>
     same_step (deliver pkt t rs s) (heap_deliver pkt t rs (bare s) m)"
proof (induction rs arbitrary: s m)
  case Nil
  then show ?case by (simp add: same_step_def)
next
  case (Cons r rs)
  let ?c = "objects s ! r"
  have r: "r < length (objects s)" and rs: "\<forall>q \<in> set rs. q < length (objects s)" using Cons.prems(2) by auto
  show ?case
  proof (cases "connected ?c")
    case True
    show ?thesis
    proof (cases "Client_send_packet (cl_fd ?c) pkt")
      case (Inl e)
      then show ?thesis using True r by (simp add: Let_def same_step_def)
    next
      case (Inr es)
      then show ?thesis using same_step_after[OF Cons.IH[OF Cons.prems(1) rs], of es] True r by (simp add: Let_def)
    qed
  next
    case False
    obtain sf c' where sf: "topic_has_sf t ?c = (sf, c')" by fastforce
    have c': "sf_queue c' = sf_queue ?c" using sf_queue_steps(4)[of t ?c] sf by simp
    let ?s = "on_client r (\<lambda>_. if sf then store_packet pkt c' else c') s"
    have bare: "bare ?s = on_client r (\<lambda>_. no_queue c') (bare s)"
      using bare_on_client[OF r, of "\<lambda>_. if sf then store_packet pkt c' else c'" "\<lambda>_. no_queue c'"] by simp
    have rs': "\<forall>q \<in> set rs. q < length (objects ?s)" using rs by simp
    obtain m1 where m1: "(if sf then heap_store_packet pkt r m else Inr m) = Inr m1" "holds (queues_of ?s) m1"
    proof (cases sf)
      case True
      then show thesis using store_kept[OF Cons.prems(1), of r pkt] r c' that
        by (auto simp: queues_of_on_client queues_of_nth)
    next
      case no: False
      then show thesis using that[of m] Cons.prems(1) r c' by (simp add: queues_of_same)
    qed
    show ?thesis using Cons.IH[OF m1(2) rs'] m1(1) False sf r by (simp add: Let_def bare)
  qed
qed

lemma message_queues:
  assumes "message_step i bytes s = Inr (s', out)" and "server_ok s"
  shows "queues_of s' = queues_of s"
proof -
  have "queues_of (on_client r f s1) = queues_of s"
    if "fd_client i s = Inr (r, s1)" "\<And>c. sf_queue (f c) = sf_queue c" for r s1 f
    using fd_client_ok[OF that(1) assms(2)] queues_of_same[of r s1 f] that(2) by (simp add: queues_of_def)
  moreover have "queues_of s1 = queues_of s" if "fd_client i s = Inr (r, s1)" for r s1
    using fd_client_ok[OF that assms(2)] by (simp add: queues_of_def)
  ultimately show ?thesis using assms(1)
    by (auto simp: message_step_def closed_step_def subscribe_step_def unsubscribe_step_def Let_def fault_simps split: if_splits)
qed

lemma fd_client_bare: "fd_client i (bare s) = bindE (fd_client i s) (\<lambda>(r, s1). Inr (r, bare s1))"
  by (cases "fd_to_id s i"; cases "clients s []") (auto simp: fd_client_def bare_updates deref_def split: option.splits)

lemma message_bare:
  assumes "server_ok s"
  shows "message_step i bytes (bare s) = bindE (message_step i bytes s) (\<lambda>(s', out). Inr (bare s', out))"
proof (cases "fd_client i s")
  case (Inl e)
  then show ?thesis
    by (simp add: message_step_def closed_step_def subscribe_step_def unsubscribe_step_def fd_client_bare)
next
  case (Inr rs1)
  then obtain r s1 where f: "fd_client i s = Inr (r, s1)" by (cases rs1) simp
  then have r: "r < length (objects s1)" using fd_client_ok[OF f assms] by simp
  show ?thesis using r f
    by (auto simp: message_step_def closed_step_def subscribe_step_def unsubscribe_step_def fd_client_bare Let_def
        bare_updates bare_on_client[OF r, of disconnect disconnect] bare_on_client[OF r, of "subscribe t sf" "subscribe t sf" for t sf]
        bare_on_client[OF r, of "unsubscribe t" "unsubscribe t" for t])
qed

lemma connection_same:
  assumes ok: "server_ok s" and H: "holds (queues_of s) m"
  shows "same_step (connection_step newfd ip port bytes s) (heap_connection newfd ip port bytes (bare s) m)"
proof (cases "FD_SETSIZE \<le> newfd \<or> msg_type bytes \<noteq> ID_MSG")
  case True
  then show ?thesis using H by (auto simp: connection_step_def heap_connection_def same_step_def Let_def bare_updates)
next
  case id: False
  let ?cid = "cstr (payload bytes)"
  let ?s1 = "s\<lparr>read_fds := insert newfd (read_fds s), fdmax := max (fdmax s) newfd\<rparr>"
  show ?thesis
  proof (cases "clients s ?cid")
    case None
    obtain m' where m': "heap_new_Client m = (length (objects s), m')" "holds (queues_of s @ [[]]) m'"
      using new_client_kept[OF H] by auto
    then show ?thesis using id None
      by (simp add: connection_step_def heap_connection_def same_step_def Let_def bare_updates)
        (simp add: queues_of_def new_Client_def)
  next
    case (Some r)
    then have r: "r < length (objects s)" using clients_iff[of s ?cid r] ok by (simp add: server_ok_def)
    show ?thesis
    proof (cases "connected (objects s ! r)")
      case True
      then show ?thesis using id Some H r by (simp add: connection_step_def heap_connection_def same_step_def Let_def bare_updates)
    next
      case False
      let ?c = "objects s ! r"
      have q: "queues_of s ! r = sf_queue ?c" using r by (rule queues_of_nth)
      show ?thesis
      proof (cases "send_queue newfd (sf_queue ?c)")
        case (Inl e)
        then have "heap_reconnect newfd r m = Inl e" using reconnect_fault[OF H, of r newfd e] r q by simp
        then show ?thesis using Inl id Some False r
          by (simp add: connection_step_def heap_connection_def same_step_def Let_def reconnect_def)
      next
        case (Inr es)
        then obtain m' where m': "heap_reconnect newfd r m = Inr (m', es)" "holds ((queues_of s)[r := []]) m'"
          using reconnect_kept[OF H, of r newfd es] r q by auto
        let ?c' = "?c\<lparr>cl_fd := newfd, connected := True, sf_queue := []\<rparr>"
        have bare: "bare (on_client r (\<lambda>_. ?c') ?s1) = on_client r (\<lambda>c. c\<lparr>cl_fd := newfd, connected := True\<rparr>) (bare ?s1)"
          by (rule bare_on_client) (use r in \<open>simp_all add: no_queue_def\<close>)
        have "queues_of (on_client r (\<lambda>_. ?c') ?s1) = (queues_of s)[r := []]"
          using r by (simp add: queues_of_on_client)
        then show ?thesis using Inr id Some False r m'
          by (simp add: connection_step_def heap_connection_def same_step_def Let_def reconnect_def bare_updates(1) bare)
            (simp add: bare_updates)
      qed
    qed
  qed
qed

lemma step_same:
  assumes ok: "server_ok s" and H: "holds (queues_of s) m"
  shows "same_step (server_step e s) (heap_step e (bare s) m)"
proof (cases "exit_status s")
  case True
  then show ?thesis using H by (simp add: server_step_def heap_step_def same_step_def)
next
  case x: False
  show ?thesis
  proof (cases e)
    case (Command word)
    then show ?thesis using H x
      by (simp add: server_step_def heap_step_def command_step_def same_step_def beside_def exit_fds_def bare_updates)
  next
    case (Datagram ip port bytes)
    let ?pkt = "udp_packet_of ip port bytes"
    let ?rs = "sorted_list_of_set (topic_to_clients s (cstr (topic_memory (udp_msg ?pkt))))"
    have "\<forall>r \<in> set ?rs. r < length (objects s)"
      using ok finite_topic topic_iff by (auto simp: server_ok_def)
    from deliver_same[OF H this] Datagram x show ?thesis
      by (simp add: server_step_def datagram_step_def heap_step_def Let_def)
  next
    case (Connection newfd ip port bytes)
    show ?thesis
    proof (cases "2 < newfd \<and> newfd \<notin> read_fds s")
      case True
      then show ?thesis using connection_same[OF ok H, of newfd ip port bytes] x Connection
        by (simp add: server_step_def heap_step_def)
    next
      case False
      then have "server_step e s = Inr (s, [])" "heap_step e (bare s) m = Inr (bare s, m, [])"
        using x Connection by (simp_all only: server_step_def heap_step_def bare_fields event.case if_False)
      then show ?thesis using H by (simp add: same_step_def)
    qed
  next
    case (Message i bytes)
    show ?thesis
    proof (cases "message_step i bytes s")
      case (Inl f)
      then show ?thesis using Message x H message_bare[OF ok, of i bytes]
        by (simp add: server_step_def heap_step_def same_step_def beside_def)
    next
      case (Inr so)
      then obtain s' out where m: "message_step i bytes s = Inr (s', out)" by (cases so) simp
      then show ?thesis using Message x H message_bare[OF ok, of i bytes] message_queues[OF m ok]
        by (simp add: server_step_def heap_step_def same_step_def beside_def)
    qed
  qed
qed

lemma run_same:
  "server_ok s \<Longrightarrow> holds (queues_of s) m \<Longrightarrow> same_step (server_run es s) (heap_run es (bare s) m)"
proof (induction es arbitrary: s m)
  case Nil
  then show ?case by (simp add: same_step_def)
next
  case (Cons e es)
  note st = step_same[OF Cons.prems, of e]
  show ?case
  proof (cases "server_step e s")
    case (Inl f)
    then show ?thesis using st by (simp add: same_step_def)
  next
    case (Inr so)
    obtain s1 o1 where s1: "server_step e s = Inr (s1, o1)" using Inr by (cases so) simp
    obtain m1 where m1: "heap_step e (bare s) m = Inr (bare s1, m1, o1)" "holds (queues_of s1) m1"
      using st s1 by (auto simp: same_step_def)
    show ?thesis using same_step_after[OF Cons.IH[OF step_ok[OF s1 Cons.prems(1)] m1(2)], of o1] s1 m1(1) by simp
  qed
qed

lemma start_holds: "holds (queues_of (server_start udp tcp)) memory_start"
  by (simp add: holds_def well_owned_def owned_def memory_start_def queues_of_def server_start_def h_read_def)

lemma start_bare: "bare (server_start udp tcp) = server_start udp tcp"
  by (simp add: bare_def server_start_def)

section \<open>How much is allocated\<close>

lemma holds_live:
  assumes H: "holds Q m"
  shows "live (client_heap m) = length Q" and "live (packet_heap m) = sum_list (map length Q)"
proof -
  note h = holdsD[OF H]
  have "{r. \<exists>q. h_read (client_heap m) r = Inr q} = {..<length Q}"
    using h(2,4) by (auto simp: h_read_Inr)
  then show "live (client_heap m) = length Q" by (simp add: live_readable)
  obtain f where f: "\<forall>r < length Q. h_read (client_heap m) r = Inr (f r) \<and> points_to (packet_heap m) (f r) (Q ! r)"
    using h(4) by metis
  have own: "owned m a r \<longleftrightarrow> r < length Q \<and> a \<in> set (f r)" for a r
    using f h(2) by (cases "r < length Q") (auto simp: owned_def h_read_def)
  have "{a. \<exists>p. h_read (packet_heap m) a = Inr p} = (\<Union>r \<in> {..<length Q}. set (f r))"
    unfolding well_ownedD(3)[OF h(1)] own by blast
  then have "live (packet_heap m) = card (\<Union>r \<in> {..<length Q}. set (f r))" by (simp add: live_readable)
  also have "\<dots> = (\<Sum>r < length Q. card (set (f r)))"
  proof (rule card_UN_disjoint)
    show "\<forall>r \<in> {..<length Q}. \<forall>r' \<in> {..<length Q}. r \<noteq> r' \<longrightarrow> set (f r) \<inter> set (f r') = {}"
      using well_ownedD(2)[OF h(1)] unfolding own by blast
  qed simp_all
  also have "\<dots> = (\<Sum>r < length Q. length (Q ! r))"
  proof (rule sum.cong)
    fix r assume "r \<in> {..<length Q}"
    then have "distinct (f r)" "length (f r) = length (Q ! r)"
      using f well_ownedD(1)[OF h(1), of r "f r"] by (auto simp: points_to_def dest!: arg_cong[where f = length])
    then show "card (set (f r)) = length (Q ! r)" by (simp add: distinct_card)
  qed simp
  finally show "live (packet_heap m) = sum_list (map length Q)"
    by (simp add: sum_list_sum_nth atLeast0LessThan)
qed

text \<open>
  A run from the start does with packets behind pointers what it does on lists: it faults where that one does, or sends the same.
  Then no packet is read after it was deleted, the packets allocated are those that wait in a queue, each once, and the
  loop at the end of \<open>main\<close> deletes every client and every packet exactly once.
\<close>

lemma run_faults:
  assumes "2 < udp" and "udp \<le> tcp" and "server_run es (server_start udp tcp) = Inl e"
  shows "heap_run es (server_start udp tcp) memory_start = Inl e"
  using run_same[OF start_ok[OF assms(1,2)] start_holds, of es] assms(3) by (simp add: same_step_def start_bare)

lemma run_memory:
  assumes "2 < udp" and "udp \<le> tcp" and "server_run es (server_start udp tcp) = Inr (s, out)"
  shows "\<exists>m. heap_run es (server_start udp tcp) memory_start = Inr (bare s, m, out) \<and>
    live (client_heap m) = length (objects s) \<and>
    live (packet_heap m) = sum_list (map (\<lambda>c. length (sf_queue c)) (objects s)) \<and>
    (\<exists>m'. main_end m = Inr m' \<and> live (client_heap m') = 0 \<and> live (packet_heap m') = 0)"
proof -
  obtain m where m: "heap_run es (server_start udp tcp) memory_start = Inr (bare s, m, out)" "holds (queues_of s) m"
    using run_same[OF start_ok[OF assms(1,2)] start_holds, of es] assms(3) by (auto simp: same_step_def start_bare)
  then show ?thesis using holds_live[OF m(2)] end_frees[OF m(2)] by (auto simp: queues_of_def comp_def)
qed

end
