(* ===== verification/Broker_Races.thy ===== *)
theory Broker_Races
  imports Broker_System
begin

text \<open>
  A request and a packet that cross: the broker of \<open>src/PCom2/server.cpp\<close> sends a packet to a client and then
  the answer to its request, while \<open>sub_unsub\<close> in \<open>src/PCom2/subscriber.cpp\<close> takes the next
  message for the answer.
\<close>

text \<open>A message of a type that the subscriber does not handle is taken from the stream with a complaint.\<close>

definition unexpected :: string where
  "unexpected = ''Unexpected message type received!'' @ [CHR 0x0A]"

lemma recv_chunk: "length c \<le> n \<Longrightarrow> recv n (c # cs) = (c, cs)"
  by simp

lemma unexpected_message:
  assumes "arriving s = c # cs" and "c \<noteq> []" and "length c \<le> MSG_LEN" and "hd c \<noteq> EXIT_MSG" and "hd c \<noteq> PKT_MSG"
  shows "server_message s = Inr (s\<lparr>arriving := cs, cerr := cerr s @ unexpected\<rparr>)"
proof -
  have "zero_fill MSG_LEN c ! 0 = hd c" using assms(2) by (cases c) (simp_all add: zero_fill_def)
  then show ?thesis using assms by (simp add: server_message_def recv_chunk complain_def unexpected_def)
qed

lemma request_misled:
  assumes "arriving s = c # cs" and "c \<noteq> []" and "length c \<le> MSG_LEN" and "hd c \<noteq> CONF_MSG" and "hd c \<noteq> ERR_MSG"
    and "length t \<le> TOPIC_LEN"
  shows "sub_unsub t sf ty s =
    Inr (s\<lparr>sent := sent s @ [subs_message ty t sf], arriving := cs, cerr := cerr s @ unexpected\<rparr>)"
proof -
  have "zero_fill MSG_LEN c ! 0 = hd c" using assms(2) by (cases c) (simp_all add: zero_fill_def)
  then show ?thesis using assms by (simp add: sub_unsub_def recv_chunk complain_def unexpected_def)
qed

text \<open>The two messages of a packet; the second starts with the address of its sender.\<close>

lemma wire_parts:
  assumes "printable pkt"
  shows "\<exists>m b. wire pkt = [m, b] \<and> length m = MSG_LEN \<and> hd m = PKT_MSG \<and> hd b = bytes32 (udp_client_ip pkt) ! 0 \<and> b \<noteq> []"
proof -
  obtain m b where pm: "packet_message pkt = Inr (m, b)" "length m = MSG_LEN" "b \<noteq> []" "hd m = PKT_MSG"
    using packet_through[of pkt] assms unfolding printable_def by blast
  have "bytes32 (udp_client_ip pkt) \<noteq> []" using length_bytes32[of "udp_client_ip pkt"] by (metis list.size(3) zero_neq_numeral)
  then have "hd (bytes32 (udp_client_ip pkt) @ r) = bytes32 (udp_client_ip pkt) ! 0" for r by (simp add: hd_conv_nth nth_append)
  then have "hd b = bytes32 (udp_client_ip pkt) ! 0"
    using pm(1) by (auto simp: packet_message_def Let_def fault_simps split: if_splits)
  then show ?thesis using pm by (simp add: wire_def)
qed

lemma proto_msg_size: "length p \<le> SUBSPACKET_LEN \<Longrightarrow> length (proto_msg ty p) = MSG_LEN \<and> hd (proto_msg ty p) = ty"
  using length_zero_fill[of p SUBSPACKET_LEN] by (simp add: proto_msg_def protocol_sizes)

section \<open>Both sides\<close>

text \<open>The server publishes and then confirms.\<close>

lemma published_then_confirmed:
  assumes ok: "server_ok s" "\<not> exit_status s" "owns_fd c s"
    and known: "fd_to_id s (cl_fd c) = Some (cl_id c)" "client_named s (cl_id c) = Some c"
    and open_fd: "cl_fd c \<in> read_fds s" "cl_fd c \<notin> {0, udpsockfd s, tcpsockfd s}"
    and pkt: "pkt = udp_packet_of ip port bytes" "printable pkt" "packet_topic pkt \<in> dom (topics c)"
    and req: "length t \<le> TOPIC_LEN" "topics c (subs_topic (subs_message SUB_MSG t sf)) \<noteq> Some sf"
  shows "\<exists>s' out. server_run [Datagram ip port bytes, Message (cl_fd c) (subs_message SUB_MSG t sf)] s = Inr (s', out) \<and>
    map_option topics (client_named s' (cl_id c)) = Some ((topics c)(subs_topic (subs_message SUB_MSG t sf) \<mapsto> sf)) \<and>
    sent_to (cl_fd c) out = wire pkt @ [proto_msg CONF_MSG []]"
proof -
  let ?req = "subs_message SUB_MSG t sf" and ?t = "packet_topic pkt" and ?s1 = "publish pkt (packet_topic pkt) s"
  have connected: "connected c"
    using ok(3) filter_set[of "\<lambda>d. connected d \<and> cl_fd d = cl_fd c" "objects s"] by (auto simp: owns_fd_def dest!: arg_cong[where f = set])
  have type: "known_type pkt" using pkt(2) by (simp add: printable_def known_type_def)
  have step1: "server_step (Datagram ip port bytes) s = Inr (?s1, publish_sends pkt ?t (objects s))"
    using datagram_published[OF _ type pkt(1)] ok(1,2) by (simp add: server_step_def server_ok_def)
  have fields: "fd_to_id ?s1 = fd_to_id s" "read_fds ?s1 = read_fds s" "udpsockfd ?s1 = udpsockfd s" "tcpsockfd ?s1 = tcpsockfd s"
    "exit_status ?s1 = exit_status s" by (simp_all add: publish_def)
  obtain r where r: "clients s (cl_id c) = Some r" "r < length (objects s)" "objects s ! r = c"
    using known(2) ok(1) by (auto simp: client_named_iff server_ok_def)
  have named: "client_named ?s1 (cl_id c) = Some c"
    using r connected by (simp add: client_named_def publish_def)
  have sub: "msg_type ?req = SUB_MSG" "subs_sf ?req = sf" using subs_message_read[OF req(1)] by simp_all
  have new: "requested ?req (topics c) = (topics c)(subs_topic ?req \<mapsto> sf)" "requested ?req (topics c) \<noteq> topics c"
    using sub req(2) by (simp_all add: requested_def map_upd_same)
  obtain s' where s': "message_step (cl_fd c) ?req ?s1 = Inr (s', [send_msg (cl_fd c) CONF_MSG])"
      "client_named s' = (client_named ?s1)(cl_id c \<mapsto> c\<lparr>topics := requested ?req (topics c)\<rparr>)"
    using request_done[of ?s1 "cl_fd c" "cl_id c" c ?req] publish_ok[OF ok(1)] known(1) named sub(1) new(2)
    by (auto simp: server_ok_def fields subs_message_def proto_msg_def)
  have step2: "server_step (Message (cl_fd c) ?req) ?s1 = Inr (s', [send_msg (cl_fd c) CONF_MSG])"
    using s'(1) ok(2) open_fd by (simp add: server_step_def fields)
  have "sent_to (cl_fd c) (publish_sends pkt ?t (objects s) @ [send_msg (cl_fd c) CONF_MSG]) = wire pkt @ [proto_msg CONF_MSG []]"
    using ok(3) pkt(3) by (auto simp: sent_to_publish owns_fd_def send_msg_def)
  then show ?thesis using step1 step2 s'(2) new(1) by simp
qed

text \<open>The subscriber takes each message for something else.\<close>

lemma crossing_misread:
  assumes sub: "\<not> stopped sub" "arriving sub = wire pkt @ [proto_msg CONF_MSG []]"
    and pkt: "printable pkt" "length (wire pkt ! 1) \<le> MSG_LEN" "bytes32 (udp_client_ip pkt) ! 0 \<notin> {EXIT_MSG, PKT_MSG}"
    and t: "length t \<le> TOPIC_LEN"
  shows "\<exists>sub1 sub2. sub_unsub t sf SUB_MSG sub = Inr sub1 \<and> subscriber_run [Server, Server] sub1 = Inr sub2 \<and>
    \<not> stopped sub2 \<and> arriving sub2 = [] \<and> cout sub2 = cout sub \<and> cerr sub2 = cerr sub @ unexpected @ unexpected @ unexpected"
proof -
  obtain m b where w: "wire pkt = [m, b]" "length m = MSG_LEN" "hd m = PKT_MSG" "hd b = bytes32 (udp_client_ip pkt) ! 0" "b \<noteq> []"
    using wire_parts[OF pkt(1)] by blast
  have conf: "length (proto_msg CONF_MSG []) = MSG_LEN" "hd (proto_msg CONF_MSG []) = CONF_MSG"
    using proto_msg_size[of "[]" CONF_MSG] by simp_all
  have ne: "m \<noteq> []" "proto_msg CONF_MSG [] \<noteq> []" using w(2) conf(1) by (auto simp: protocol_sizes)
  have codes: "PKT_MSG \<noteq> CONF_MSG" "PKT_MSG \<noteq> ERR_MSG" "CONF_MSG \<noteq> EXIT_MSG" "CONF_MSG \<noteq> PKT_MSG"
    by (simp_all add: PKT_MSG_def CONF_MSG_def ERR_MSG_def EXIT_MSG_def)
  let ?sub1 = "sub\<lparr>sent := sent sub @ [subs_message SUB_MSG t sf], arriving := [b, proto_msg CONF_MSG []], cerr := cerr sub @ unexpected\<rparr>"
  have one: "sub_unsub t sf SUB_MSG sub = Inr ?sub1"
    using request_misled[of sub m "[b, proto_msg CONF_MSG []]" t sf SUB_MSG] sub(2) w(1-3) ne codes t by simp
  have "server_message ?sub1 = Inr (?sub1\<lparr>arriving := [proto_msg CONF_MSG []], cerr := cerr ?sub1 @ unexpected\<rparr>)"
    using unexpected_message[of ?sub1 b "[proto_msg CONF_MSG []]"] w pkt(2,3) by simp
  moreover have "server_message x = Inr (x\<lparr>arriving := [], cerr := cerr x @ unexpected\<rparr>)" if "arriving x = [proto_msg CONF_MSG []]" for x
    using unexpected_message[OF that ne(2)] conf codes by simp
  ultimately show ?thesis using one sub(1) by (simp add: subscriber_step_def)
qed

section \<open>Property\<close>

text \<open>
  C33: a packet that crosses a request is lost. A client that holds the topic of a packet asks for another topic; the server
  sends it the packet first and then confirms. The subscriber, having sent its request, takes the announcement of the packet for
  the answer and complains, then the bytes of the packet for a message and complains, then the confirmation and complains:
  it never prints the packet nor reports that the request was granted, although the server has carried it out. (The packet
  is short and its sender's address does not start with 0 or 2, which would be read as an exit or as another announcement.)
\<close>

theorem announcement_swallowed:
  assumes ok: "server_ok s" "\<not> exit_status s" "owns_fd c s"
    and known: "fd_to_id s (cl_fd c) = Some (cl_id c)" "client_named s (cl_id c) = Some c"
    and open_fd: "cl_fd c \<in> read_fds s" "cl_fd c \<notin> {0, udpsockfd s, tcpsockfd s}"
    and pkt: "pkt = udp_packet_of ip port bytes" "printable pkt" "packet_topic pkt \<in> dom (topics c)"
      "length (wire pkt ! 1) \<le> MSG_LEN" "bytes32 ip ! 0 \<notin> {EXIT_MSG, PKT_MSG}"
    and req: "length t \<le> TOPIC_LEN" "topics c (subs_topic (subs_message SUB_MSG t sf)) \<noteq> Some sf"
  shows "\<exists>s' out. server_run [Datagram ip port bytes, Message (cl_fd c) (subs_message SUB_MSG t sf)] s = Inr (s', out) \<and>
    map_option topics (client_named s' (cl_id c)) = Some ((topics c)(subs_topic (subs_message SUB_MSG t sf) \<mapsto> sf)) \<and>
    (\<forall>sub. \<not> stopped sub \<and> arriving sub = sent_to (cl_fd c) out \<longrightarrow>
      (\<exists>sub1 sub2. sub_unsub t sf SUB_MSG sub = Inr sub1 \<and> subscriber_run [Server, Server] sub1 = Inr sub2 \<and>
        \<not> stopped sub2 \<and> arriving sub2 = [] \<and> cout sub2 = cout sub \<and>
        cerr sub2 = cerr sub @ unexpected @ unexpected @ unexpected))"
proof -
  obtain s' out where run: "server_run [Datagram ip port bytes, Message (cl_fd c) (subs_message SUB_MSG t sf)] s = Inr (s', out)"
      "map_option topics (client_named s' (cl_id c)) = Some ((topics c)(subs_topic (subs_message SUB_MSG t sf) \<mapsto> sf))"
      "sent_to (cl_fd c) out = wire pkt @ [proto_msg CONF_MSG []]"
    using published_then_confirmed[OF ok known open_fd pkt(1-3) req] by blast
  have "bytes32 (udp_client_ip pkt) ! 0 \<notin> {EXIT_MSG, PKT_MSG}" using pkt(1,5) by (simp add: udp_packet_of_def)
  from crossing_misread[OF _ _ pkt(2,4) this req(1)] run show ?thesis by simp
qed

lemma announcement_swallowed_witness:
  "\<exists>s' out sub1 sub2. server_run [Datagram (le32 127 0 0 1) 0 [116], Message 5 (subs_message SUB_MSG ''x'' True)] two_clients = Inr (s', out) \<and>
    sub_unsub ''x'' True SUB_MSG \<lparr>typed = [], arriving = sent_to 5 out, cout = [], cerr = [], sent = [], stopped = False\<rparr> = Inr sub1 \<and>
    subscriber_run [Server, Server] sub1 = Inr sub2 \<and> cout sub2 = [] \<and> arriving sub2 = []"
proof -
  let ?c = "\<lparr>cl_id = [97], connected = True, cl_fd = 5, topics = [[116] \<mapsto> False], sf_queue = []\<rparr>"
  let ?pkt = "udp_packet_of (le32 127 0 0 1) 0 [116]"
  have u: "topic (udp_of_bytes [116]) = 116 # replicate 49 0" "data_type (udp_of_bytes [116]) = 0" "udp_ok (udp_of_bytes [116])"
    using udp_of_bytes_ok[of "[116]"] by (simp_all add: udp_of_bytes_def Let_def zero_fill_def protocol_sizes nth_Cons')
  have p: "printable ?pkt" using u by (simp add: printable_def udp_packet_of_def)
  have "length (wire ?pkt ! 1) \<le> MSG_LEN"
    using u by (simp add: wire_def packet_message_def Let_def topic_size_of_def content_size_of_def udp_packet_of_def cstr_def topic_memory_def protocol_sizes)
  moreover have "bytes32 (le32 127 0 0 1) ! 0 \<notin> {EXIT_MSG, PKT_MSG}" by (simp add: bytes32_le32 EXIT_MSG_def PKT_MSG_def)
  moreover have "subs_topic (subs_message SUB_MSG ''x'' True) = [120]"
    using subs_topic_read[of "''x''" SUB_MSG True] by (simp add: chars_of_def protocol_sizes)
  moreover have "owns_fd ?c two_clients" "client_named two_clients [97] = Some ?c"
    by (simp_all add: two_clients_def owns_fd_def client_named_def)
  ultimately obtain s' out where run: "server_run [Datagram (le32 127 0 0 1) 0 [116], Message 5 (subs_message SUB_MSG ''x'' True)] two_clients = Inr (s', out)"
    and sub: "\<forall>sub. \<not> stopped sub \<and> arriving sub = sent_to 5 out \<longrightarrow>
      (\<exists>sub1 sub2. sub_unsub ''x'' True SUB_MSG sub = Inr sub1 \<and> subscriber_run [Server, Server] sub1 = Inr sub2 \<and>
        \<not> stopped sub2 \<and> arriving sub2 = [] \<and> cout sub2 = cout sub \<and>
        cerr sub2 = cerr sub @ unexpected @ unexpected @ unexpected)"
    using announcement_swallowed[OF two_clients_ok, of ?c ?pkt "le32 127 0 0 1" 0 "[116]" "''x''" True] p t_packet(1)[of "le32 127 0 0 1" 0]
    by (auto simp: two_clients_def protocol_sizes)
  from sub[rule_format, of "\<lparr>typed = [], arriving = sent_to 5 out, cout = [], cerr = [], sent = [], stopped = False\<rparr>"] run
  show ?thesis by auto
qed

end
