(* ===== verification/System_Calls.thy ===== *)
theory System_Calls
  imports C_Text
begin

text \<open>
  How the programs set up their sockets: a script of system calls, to each of which the kernel gives an
  answer. The answers are a parameter, and may depend on all the calls made before. A negative answer is a
  failure, which ends the program: the macro \<open>DIE\<close> of \<open>src/PCom2/protocol.h\<close> and the function
  \<open>error\<close> of \<open>src/PCom3/helpers.c\<close>.
\<close>

section \<open>Calls\<close>

record sockaddr_in =
  sin_family :: int
  sin_port :: u16
  sin_addr :: u32

datatype sockopt = TCP_NODELAY | SO_REUSEADDR

datatype syscall =
    Socket int int int
  | Setsockopt int sockopt
  | Bind int sockaddr_in
  | Listen int int
  | Connect int sockaddr_in
  | Transmit int "u8 list"
  | Closed int

text \<open>The constants of Linux.\<close>

definition AF_UNSPEC :: int where "AF_UNSPEC = 0"
definition AF_INET :: int where "AF_INET = 2"
definition SOCK_STREAM :: int where "SOCK_STREAM = 1"
definition SOCK_DGRAM :: int where "SOCK_DGRAM = 2"
definition INADDR_ANY :: int where "INADDR_ANY = 0"

section \<open>Scripts\<close>

type_synonym kernel = "syscall list \<Rightarrow> syscall \<Rightarrow> int"
type_synonym 'a script = "kernel \<Rightarrow> syscall list \<Rightarrow> 'a res \<times> syscall list"

definition give :: "'a res \<Rightarrow> 'a script" where
  "give r = (\<lambda>k tr. (r, tr))"

definition seq :: "'a script \<Rightarrow> ('a \<Rightarrow> 'b script) \<Rightarrow> 'b script" where
  "seq m f = (\<lambda>k tr. case m k tr of (Inl e, tr1) \<Rightarrow> (Inl e, tr1) | (Inr x, tr1) \<Rightarrow> f x k tr1)"

definition invoke :: "syscall \<Rightarrow> int script" where
  "invoke c = (\<lambda>k tr. (Inr (k tr c), tr @ [c]))"

definition DIE :: "bool \<Rightarrow> unit script" where
  "DIE assertion = give (if assertion then Inl Exited else Inr ())"

text \<open>A call whose answer is checked right away.\<close>

definition checked :: "syscall \<Rightarrow> int script" where
  "checked c = seq (invoke c) (\<lambda>ret. seq (DIE (ret < 0)) (\<lambda>_. give (Inr ret)))"

lemma give_run [simp]: "give r k tr = (r, tr)"
  by (simp add: give_def)

lemma seq_give [simp]: "seq (give (Inr x)) f = f x" "seq (give (Inl e)) f = give (Inl e)"
  by (simp_all add: seq_def give_def)

lemma seq_DIE [simp]: "seq (DIE b) f = (if b then give (Inl Exited) else f ())"
  by (simp add: DIE_def)

lemma seq_checked:
  "seq (checked c) f k tr = (if k tr c < 0 then (Inl Exited, tr @ [c]) else f (k tr c) k (tr @ [c]))"
  by (simp add: seq_def checked_def invoke_def DIE_def)

text \<open>The calls in order, none of which fails; the first that fails.\<close>

fun granted :: "kernel \<Rightarrow> syscall list \<Rightarrow> syscall list \<Rightarrow> bool" where
  "granted k tr [] \<longleftrightarrow> True"
| "granted k tr (c # cs) \<longleftrightarrow> 0 \<le> k tr c \<and> granted k (tr @ [c]) cs"

section \<open>Arguments\<close>

text \<open>\<open>atoi\<close> is 0 for what is no number; a port is what is left of it in 16 bits.\<close>

definition atoi :: "string \<Rightarrow> int" where
  "atoi t = (case fst (scan_d t) of None \<Rightarrow> 0 | Some v \<Rightarrow> v)"

definition port_of :: "string \<Rightarrow> u16" where
  "port_of t = htons (word_of_int (atoi t))"

definition inet_aton :: "string \<Rightarrow> u32 option" where
  "inet_aton cp = inet_loop 3 [] cp"

end
