(* ===== verification/Broker_Main.thy ===== *)
theory Broker_Main
  imports System_Calls Broker_Memory Broker_Subscriber "HOL-Library.Sublist"
begin

text \<open>
  The beginning and the end of \<open>main\<close> in \<open>src/PCom2/server.cpp\<close> and \<open>src/PCom2/subscriber.cpp\<close>: the
  arguments, the sockets, and what is released.
\<close>

definition MAX_CLIENTS :: int where "MAX_CLIENTS = 10"

section \<open>The server\<close>

text \<open>
  The address of the server. The second assignment to \<open>sin_family\<close> is that of the code: the constant for
  any address overwrites the family.
\<close>

definition server_addr :: "string \<Rightarrow> sockaddr_in" where
  "server_addr port =
     (let serv_addr = \<lparr>sin_family = 0, sin_port = 0, sin_addr = 0\<rparr>;
          serv_addr = serv_addr\<lparr>sin_family := AF_INET\<rparr>;
          serv_addr = serv_addr\<lparr>sin_port := port_of port\<rparr>
      in serv_addr\<lparr>sin_family := INADDR_ANY\<rparr>)"

definition server_setup :: "string list \<Rightarrow> server script" where
  "server_setup argv =
     (if length argv \<noteq> 2 then give (Inl Exited)
      else
        seq (checked (Socket AF_INET SOCK_DGRAM 0)) (\<lambda>udp.
        seq (checked (Socket AF_INET SOCK_STREAM 0)) (\<lambda>tcp.
        seq (checked (Setsockopt tcp TCP_NODELAY)) (\<lambda>_.
        seq (checked (Setsockopt udp SO_REUSEADDR)) (\<lambda>_.
        seq (checked (Setsockopt tcp SO_REUSEADDR)) (\<lambda>_.
        seq (DIE (atoi (argv ! 1) = 0)) (\<lambda>_.
        seq (checked (Bind udp (server_addr (argv ! 1)))) (\<lambda>_.
        seq (checked (Bind tcp (server_addr (argv ! 1)))) (\<lambda>_.
        seq (checked (Listen tcp MAX_CLIENTS)) (\<lambda>_.
        give (Inr (server_start (nat udp) (nat tcp)))))))))))))"

text \<open>
  The whole program: the loop on the events that come, with what it sends, closes and prints; then the objects
  are deleted and the sockets closed.
\<close>

definition server_main :: "string list \<Rightarrow> event list \<Rightarrow> (server \<times> memory \<times> effect list) script" where
  "server_main argv es =
     seq (server_setup argv) (\<lambda>s.
     seq (give (heap_run es s memory_start)) (\<lambda>(s', m, out).
     if \<not> exit_status s' then give (Inr (s', m, out))
     else
       seq (give (main_end m)) (\<lambda>m'.
       seq (invoke (Closed (int (udpsockfd s)))) (\<lambda>_.
       seq (invoke (Closed (int (tcpsockfd s)))) (\<lambda>_.
       give (Inr (s', m', out)))))))"

text \<open>The calls that set up the server, in their order.\<close>

definition server_calls :: "int \<Rightarrow> int \<Rightarrow> string \<Rightarrow> syscall list" where
  "server_calls udp tcp port =
     [Socket AF_INET SOCK_DGRAM 0, Socket AF_INET SOCK_STREAM 0, Setsockopt tcp TCP_NODELAY, Setsockopt udp SO_REUSEADDR,
      Setsockopt tcp SO_REUSEADDR, Bind udp (server_addr port), Bind tcp (server_addr port), Listen tcp MAX_CLIENTS]"

section \<open>The subscriber\<close>

definition subscriber_setup :: "string list \<Rightarrow> u8 list list \<Rightarrow> string \<Rightarrow> (int \<times> subscriber) script" where
  "subscriber_setup argv chunks inp =
     (if length argv \<noteq> 4 then give (Inl Exited)
      else
        seq (checked (Socket AF_INET SOCK_STREAM 0)) (\<lambda>sock.
        seq (checked (Setsockopt sock TCP_NODELAY)) (\<lambda>_.
        seq (checked (Setsockopt sock SO_REUSEADDR)) (\<lambda>_.
        seq (DIE (atoi (argv ! 3) = 0)) (\<lambda>_.
        seq (DIE (inet_aton (argv ! 2) = None)) (\<lambda>_.
        seq (checked (Connect sock \<lparr>sin_family = AF_INET, sin_port = port_of (argv ! 3), sin_addr = the (inet_aton (argv ! 2))\<rparr>)) (\<lambda>_.
        seq (give (id_message (argv ! 1))) (\<lambda>msg.
        seq (checked (Transmit sock msg)) (\<lambda>_.
        give (bindE (subscriber_start (argv ! 1) chunks inp) (\<lambda>s. Inr (sock, s))))))))))))"

definition subscriber_main :: "string list \<Rightarrow> u8 list list \<Rightarrow> string \<Rightarrow> ready list \<Rightarrow> subscriber script" where
  "subscriber_main argv chunks inp rs =
     seq (subscriber_setup argv chunks inp) (\<lambda>(sock, s).
     seq (give (subscriber_run rs s)) (\<lambda>s'.
     if \<not> stopped s' then give (Inr s')
     else seq (invoke (Closed sock)) (\<lambda>_. give (Inr s'))))"

text \<open>The calls of a subscriber that connects to \<open>addr\<close> and sends \<open>msg\<close>.\<close>

definition subscriber_calls :: "int \<Rightarrow> string list \<Rightarrow> u8 list \<Rightarrow> syscall list" where
  "subscriber_calls sock argv msg =
     [Socket AF_INET SOCK_STREAM 0, Setsockopt sock TCP_NODELAY, Setsockopt sock SO_REUSEADDR,
      Connect sock \<lparr>sin_family = AF_INET, sin_port = port_of (argv ! 3), sin_addr = the (inet_aton (argv ! 2))\<rparr>, Transmit sock msg]"

section \<open>Setting up\<close>

lemmas script_simps = seq_checked granted.simps server_calls_def subscriber_calls_def

text \<open>Either everything is granted, or the program ends after a part of the calls.\<close>

lemma server_set_up:
  fixes k :: kernel
  defines "udp \<equiv> k [] (Socket AF_INET SOCK_DGRAM 0)"
  defines "tcp \<equiv> k [Socket AF_INET SOCK_DGRAM 0] (Socket AF_INET SOCK_STREAM 0)"
  shows "if length argv = 2 \<and> atoi (argv ! 1) \<noteq> 0 \<and> granted k [] (server_calls udp tcp (argv ! 1))
    then server_setup argv k [] = (Inr (server_start (nat udp) (nat tcp)), server_calls udp tcp (argv ! 1))
    else fst (server_setup argv k []) = Inl Exited \<and> prefix (snd (server_setup argv k [])) (server_calls udp tcp (argv ! 1))"
  unfolding assms by (simp add: server_setup_def script_simps)

lemma subscriber_set_up:
  fixes k :: kernel
  defines "sock \<equiv> k [] (Socket AF_INET SOCK_STREAM 0)"
  assumes id: "id_message (argv ! 1) = Inr msg"
  shows "if length argv = 4 \<and> atoi (argv ! 3) \<noteq> 0 \<and> inet_aton (argv ! 2) \<noteq> None \<and> granted k [] (subscriber_calls sock argv msg)
    then subscriber_setup argv chunks inp k [] =
      (bindE (subscriber_start (argv ! 1) chunks inp) (\<lambda>s. Inr (sock, s)), subscriber_calls sock argv msg)
    else fst (subscriber_setup argv chunks inp k []) = Inl Exited \<and>
      prefix (snd (subscriber_setup argv chunks inp k [])) (subscriber_calls sock argv msg)"
  unfolding sock_def by (cases "inet_aton (argv ! 2)") (simp_all add: subscriber_setup_def script_simps id[simplified])

text \<open>The address is not of the family that the comment above the code intends, and a port may be lost.\<close>

lemma server_address:
  "sin_family (server_addr port) = AF_UNSPEC" "sin_addr (server_addr port) = 0"
  "sin_port (server_addr port) = 0 \<longleftrightarrow> 65536 dvd atoi port"
proof -
  have zero: "htons w = 0 \<longleftrightarrow> w = 0" for w
    using ntohs_eq_iff[of w 0] by (simp add: ntohs_def bytes16_def le16_def)
  show "sin_port (server_addr port) = 0 \<longleftrightarrow> 65536 dvd atoi port"
    by (simp add: server_addr_def port_of_def zero word_of_int_eq_0_iff)
qed (simp_all add: server_addr_def AF_UNSPEC_def INADDR_ANY_def)

section \<open>Property\<close>

text \<open>
  C21: the server as a whole, from its arguments to its end, on a kernel that gives new descriptors in ascending order. Without
  exactly one argument that is a number other than 0, or when a call is refused, it exits, and has made a part of the calls of its
  setup in their order and no other call. Otherwise it makes all of them; the loop, which has the packets that wait behind
  pointers, faults where the broker on lists does and in no other place, and otherwise sends, closes and prints exactly
  what that one does and ends in its state, without the queues; and once it has been told to exit it
  deletes every client and packet and closes its two sockets last.
\<close>

theorem server_main_result:
  fixes k :: kernel
  defines "udp \<equiv> k [] (Socket AF_INET SOCK_DGRAM 0)"
  defines "tcp \<equiv> k [Socket AF_INET SOCK_DGRAM 0] (Socket AF_INET SOCK_STREAM 0)"
  assumes fds: "udp < 0 \<or> 2 < udp" "tcp < 0 \<or> udp < tcp"
  shows "if length argv = 2 \<and> atoi (argv ! 1) \<noteq> 0 \<and> granted k [] (server_calls udp tcp (argv ! 1))
    then case server_run es (server_start (nat udp) (nat tcp)) of
        Inl e \<Rightarrow> server_main argv es k [] = (Inl e, server_calls udp tcp (argv ! 1))
      | Inr (s, out) \<Rightarrow> \<exists>m. server_main argv es k [] =
          (Inr (bare s, m, out), server_calls udp tcp (argv ! 1) @ (if exit_status s then [Closed udp, Closed tcp] else [])) \<and>
          (if exit_status s then live (client_heap m) = 0 \<and> live (packet_heap m) = 0
           else live (packet_heap m) = sum_list (map (\<lambda>c. length (sf_queue c)) (objects s)))
    else fst (server_main argv es k []) = Inl Exited \<and>
      prefix (snd (server_main argv es k [])) (server_calls udp tcp (argv ! 1))"
proof (cases "length argv = 2 \<and> atoi (argv ! 1) \<noteq> 0 \<and> granted k [] (server_calls udp tcp (argv ! 1))")
  case no: False
  then have "fst (server_setup argv k []) = Inl Exited \<and> prefix (snd (server_setup argv k [])) (server_calls udp tcp (argv ! 1))"
    using server_set_up[of argv k, folded udp_def tcp_def] by (simp only: if_False)
  then have "fst (server_main argv es k []) = Inl Exited \<and> prefix (snd (server_main argv es k [])) (server_calls udp tcp (argv ! 1))"
    by (auto simp: server_main_def seq_def split: prod.splits)
  then show ?thesis using no by (simp only: if_False)
next
  case yes: True
  let ?s = "server_start (nat udp) (nat tcp)" and ?calls = "server_calls udp tcp (argv ! 1)"
  have start: "server_setup argv k [] = (Inr ?s, ?calls)"
    using server_set_up[of argv k, folded udp_def tcp_def] by (simp only: yes if_True simp_thms)
  have socks: "0 \<le> udp" "0 \<le> tcp" using yes by (simp_all add: server_calls_def udp_def tcp_def)
  then have lt: "2 < nat udp" "nat udp \<le> nat tcp" using fds by auto
  have fields: "udpsockfd ?s = nat udp" "tcpsockfd ?s = nat tcp" by (simp_all add: server_start_def)
  have main: "server_main argv es k [] =
      seq (give (heap_run es ?s memory_start)) (\<lambda>(s', m, out).
        if \<not> exit_status s' then give (Inr (s', m, out))
        else seq (give (main_end m)) (\<lambda>m'. seq (invoke (Closed udp)) (\<lambda>_. seq (invoke (Closed tcp)) (\<lambda>_. give (Inr (s', m', out)))))) k ?calls"
    using socks by (cases "heap_run es ?s memory_start") (simp_all add: server_main_def seq_def start fields split: prod.split)
  show ?thesis
  proof (cases "server_run es ?s")
    case (Inl e)
    then show ?thesis using yes main run_faults[OF lt Inl] by simp
  next
    case (Inr so)
    then obtain s out where run: "server_run es ?s = Inr (s, out)" by (cases so) simp
    obtain m m' where m: "heap_run es ?s memory_start = Inr (bare s, m, out)"
        "live (packet_heap m) = sum_list (map (\<lambda>c. length (sf_queue c)) (objects s))"
        "main_end m = Inr m'" "live (client_heap m') = 0" "live (packet_heap m') = 0"
      using run_memory[OF lt run] by blast
    then show ?thesis using yes main run by (simp add: seq_def invoke_def)
  qed
qed

lemma server_main_result_witness:
  "\<exists>s m out. server_main [''server'', ''8080''] [Command ''exit''] (\<lambda>tr c. int (length tr) + 3) [] =
    (Inr (s, m, out), server_calls 3 4 ''8080'' @ [Closed 3, Closed 4]) \<and> live (client_heap m) = 0"
proof -
  let ?k = "\<lambda>tr c. int (length tr) + 3 :: int"
  have port: "atoi ''8080'' \<noteq> 0"
    by (simp add: atoi_def scan_d_def isspace_def is_digit_of_def digit_val_def less_eq_char_def to_int32_def Let_def)
  obtain s out where run: "server_run [Command ''exit''] (server_start 3 4) = Inr (s, out)" "exit_status s"
    by (simp add: server_step_def command_step_def server_start_def EXIT_def protocol_sizes)
  show ?thesis
    using server_main_result[of ?k "[''server'', ''8080'']" "[Command ''exit'']"] port run
    by (auto simp: server_calls_def)
qed

end
