(* ===== verification/Http_Main.thy ===== *)
theory Http_Main
  imports System_Calls Http_Session
begin

text \<open>
  The connections of \<open>src/PCom3/client.c\<close>: \<open>open_connection\<close>, \<open>close_connection\<close> and \<open>error\<close> of
  \<open>src/PCom3/helpers.c\<close>, a request from opening to closing, and the beginning of \<open>main\<close>.
\<close>

section \<open>Connections\<close>

definition error :: "'a script" where
  "error = give (Inl Exited)"

text \<open>The result of \<open>inet_aton\<close> is not looked at: the address stays zero when the host is no address.\<close>

definition open_connection :: "string \<Rightarrow> int \<Rightarrow> int \<Rightarrow> int \<Rightarrow> int \<Rightarrow> int script" where
  "open_connection host_ip portno ip_type socket_type flag =
     seq (invoke (Socket ip_type socket_type flag)) (\<lambda>sockfd.
     if sockfd < 0 then error
     else
       let serv_addr = \<lparr>sin_family = ip_type, sin_port = htons (word_of_int portno),
                        sin_addr = (case inet_aton host_ip of None \<Rightarrow> 0 | Some a \<Rightarrow> a)\<rparr>
       in seq (invoke (Connect sockfd serv_addr)) (\<lambda>ret. if ret < 0 then error else give (Inr sockfd)))"

definition close_connection :: "int \<Rightarrow> unit script" where
  "close_connection sockfd = seq (invoke (Closed sockfd)) (\<lambda>_. give (Inr ()))"

text \<open>One request as every command makes it: open, compose, exchange, close.\<close>

definition request_over ::
  "string \<Rightarrow> int \<Rightarrow> 'n numbers \<Rightarrow> network \<Rightarrow> string res \<Rightarrow> client \<Rightarrow> (string \<times> client) script" where
  "request_over host portno N net message s =
     seq (open_connection host portno AF_INET SOCK_STREAM 0) (\<lambda>sockfd.
     seq (give (bindE message (\<lambda>m. exchange N net m s))) (\<lambda>r.
     seq (close_connection sockfd) (\<lambda>_. give (Inr r))))"

text \<open>The arguments of the program, its own name first: host and port.\<close>

definition client_main :: "string list \<Rightarrow> 'n numbers \<Rightarrow> network \<Rightarrow> string \<Rightarrow> nat \<Rightarrow> client script" where
  "client_main argv N net inp rounds =
     (if length argv < 3 then error else give (client_run rounds N net (argv ! 1) (client_start inp)))"

section \<open>What a connection does\<close>

text \<open>The calls of a request on the descriptor \<open>fd\<close>.\<close>

definition request_calls :: "string \<Rightarrow> int \<Rightarrow> int \<Rightarrow> syscall list" where
  "request_calls host portno fd =
     [Socket AF_INET SOCK_STREAM 0,
      Connect fd \<lparr>sin_family = AF_INET, sin_port = htons (word_of_int portno),
                  sin_addr = (case inet_aton host of None \<Rightarrow> 0 | Some a \<Rightarrow> a)\<rparr>,
      Closed fd]"

text \<open>
  A request that is granted its connection is the exchange of \<open>Http_Client\<close>, and its socket is closed; refused, the
  program exits and nothing has been sent.
\<close>

lemma request_over_result:
  fixes k :: kernel
  defines "fd \<equiv> k [] (Socket AF_INET SOCK_STREAM 0)"
  shows "request_over host portno N net message s k [] =
    (if granted k [] (take 2 (request_calls host portno fd))
     then (case bindE message (\<lambda>m. exchange N net m s) of
         Inl e \<Rightarrow> (Inl e, take 2 (request_calls host portno fd))
       | Inr r \<Rightarrow> (Inr r, request_calls host portno fd))
     else (Inl Exited, take (if fd < 0 then 1 else 2) (request_calls host portno fd)))"
  unfolding fd_def
  by (cases "bindE message (\<lambda>m. exchange N net m s)")
    (simp_all add: request_over_def open_connection_def close_connection_def error_def request_calls_def seq_def invoke_def Let_def)

text \<open>A host that is a name, not an address in numbers, is taken for the address 0, the machine itself.\<close>

lemma named_host_is_local:
  assumes "h \<noteq> []" and "\<not> isdigit (hd h)"
  shows "request_calls h portno fd = request_calls ''0.0.0.0'' portno fd"
proof -
  have "inet_aton h = None" using assms by (simp add: inet_aton_def inet_loop.simps[of 3 "[]" h])
  moreover have "inet_ntoa 0 = ''0.0.0.0''"
    by (simp add: inet_ntoa_def bytes32_def Let_def nat_text.simps digit_char_def)
  then have "inet_addr ''0.0.0.0'' = 0" using inet_addr_ntoa[of 0] by simp
  then have "inet_aton ''0.0.0.0'' = Some 0"
    by (cases "inet_loop 3 [] ''0.0.0.0''") (simp_all add: inet_addr_def inet_aton_def INADDR_NONE_def)
  ultimately show ?thesis by (simp add: request_calls_def)
qed

end
