(* ===== verification/Spec2Isabelle.thy ===== *)
theory Spec2Isabelle
  imports Prelude Pkt_Queue Frames Route_Table Arp_Table Router Router_Spec Router_Props Http_Buffer Http_Helpers Http_Requests Json Json_Text Json_Utf8 Json_Object Json_Path Json_Array Json_Compare Json_Comments Json_Buffer Json_File Json_Growth Json_Heap Json_Copy Json_Forest Http_Client Http_Session Broker_Protocol Broker_Server Broker_Props Broker_Delivery Broker_Subscriber Broker_System Broker_Memory Broker_Races System_Calls Broker_Main Http_Main
begin

text \<open>
  A verification library for three network programs.

  The repository holds three independent programs. \<open>src/PCom1\<close> is an IPv4 router in C: it
  forwards frames between its interfaces, resolves next hops by ARP and answers with ICMP.
  \<open>src/PCom2\<close> is a publish/subscribe system in C++: a server that takes packets from UDP clients
  and passes them to TCP subscribers, which may come and go. \<open>src/PCom3\<close> is an interactive client
  in C for a library server with an HTTP and JSON interface. The theories below define what the
  code does and state what makes it correct, or where it is not.

  \<^bold>\<open>Common conventions.\<close> Code that can go wrong returns a value of \<open>'a res\<close>: \<open>Inl\<close> with a fault
  (null or dangling pointer, access out of bounds, failed assertion, read of an unwritten variable,
  exit), \<open>Inr\<close> with the result (\<open>Prelude\<close>). Machine integers are words of their width; memory that
  is read through pointers is a list of bytes, little endian as on x86-64 (\<open>Byte_Order\<close>); heap
  objects live in an explicit heap whose allocator reuses addresses (\<open>Prelude\<close>). Text is a list of
  characters that ends where the C string ends (\<open>C_Text\<close>). State is passed explicitly in records.

  \<^bold>\<open>The router\<close> (\<open>list.c\<close>, \<open>queue.c\<close>, \<open>skel.c\<close>, \<open>router.c\<close>).
  \<^item> \<open>Pkt_Queue\<close>: the cells of \<open>list.c\<close> and the linked queue of \<open>queue.c\<close> on the heap; every
    operation refines a list (the locale \<open>fifo\<close> is its interface).
  \<^item> \<open>Checksum\<close>: \<open>ip_checksum\<close> with its 32-bit blocks, alignment and byte exchange, equal to the
    sum of RFC 1071 for data up to 4 GiB; \<open>icmp_checksum\<close>; the incremental update.
  \<^item> \<open>Frames\<close>: the packet layer of \<open>skel.c\<close>: building, sending and recognising frames, addresses.
  \<^item> \<open>Growable\<close>, \<open>C_Sort\<close>, \<open>Route_Table\<close>, \<open>Arp_Table\<close>: the tables of \<open>router.c\<close> as arrays that grow
    by doubling, the parser of the table file, the sort (the merge sort of glibc) and the binary
    search by buckets, which is proved to be the longest prefix match where the comparison does
    not wrap.
  \<^item> \<open>Router\<close>: the loop of \<open>main\<close>, one definition for each branch, over one record.
    \<open>Router_Spec\<close> has the abstract router, lists and functions instead of arrays, cells and
    addresses, and the simulation. \<open>Router_Props\<close> has what is promised: refinement, the invariant
    of the heap and the queue, each kind of frame with its answer, and the faults.

  \<^bold>\<open>The broker\<close> (\<open>protocol.h\<close>, \<open>server.cpp\<close>, \<open>subscriber.cpp\<close>).
  \<^item> \<open>Broker_Protocol\<close>: the structures in memory, the packet message that \<open>Client::send_packet\<close>
    composes, \<open>rebuild_packet\<close>, the four printing functions; a packet composed by the one program
    is printed by the other as the original would be (\<open>packet_through\<close>).
  \<^item> \<open>Broker_Server\<close>: \<open>class Client\<close> and the loop of \<open>main\<close>: the state are the clients as a list of
    objects that pointers index, and the three maps; one definition for a word of the standard
    input, a datagram, a connection, a closed connection, a subscription and its end.
  \<^item> \<open>Broker_Props\<close>: the invariant of the tables, kept by every step; publishing and requests seen
    from the clients alone. \<open>Broker_Delivery\<close>: the promises over whole runs, store and forward
    among them, and the run that ends in a null pointer.
  \<^item> \<open>Broker_Subscriber\<close>: the commands, \<open>sub_unsub\<close>, the handling of what the server sends, with
    \<open>recv\<close> on a stream that TCP may cut anywhere. \<open>Broker_System\<close>: both programs together; the
    locale \<open>message_channel\<close> is the contract between what is sent and what is shown.
  \<^item> \<open>Broker_Memory\<close>: the server with its client objects and stored packets on the heap, queues of pointers, a run of its
    own; it sends what \<open>Broker_Server\<close> sends and ends with every object released, none twice.
    \<open>Broker_Races\<close>: a message of the server that crosses a request of the subscriber is lost.
  \<^item> \<open>System_Calls\<close>, \<open>Broker_Main\<close>: the two \<open>main\<close> functions whole, from the check of the arguments
    to the sockets closed at the end; the calls that set up the sockets are answered by a script,
    and each of them may fail (\<open>server_main_result\<close>).

  \<^bold>\<open>The HTTP client\<close> (\<open>buffer.c\<close>, \<open>helpers.c\<close>, \<open>requests.c\<close>, \<open>parson.c\<close>, \<open>client.c\<close>).
  \<^item> \<open>Http_Buffer\<close>: the growing block of \<open>buffer.c\<close> with its two searches (locale \<open>accumulator\<close>).
  \<^item> \<open>Http_Helpers\<close>: sending and receiving over a socket that splits data at will;
    \<open>Http_Requests\<close>: the three kinds of request with every array bound.
  \<^item> \<open>Json\<close>, \<open>Json_Text\<close>: the parser and the printer of \<open>parson.c\<close>, its UTF-8 checks and the
    operations on objects that the client calls; what is printed is read back. \<open>Json_Utf8\<close>: the
    check accepts exactly the encodings of Unicode scalar values.
  \<^item> The rest of \<open>parson.c\<close>, which the client does not call: \<open>Json_Object\<close> and \<open>Json_Array\<close> have the
    interface to values, objects and arrays; \<open>Json_Path\<close> shows that names with dots are paths
    through nested objects, with the laws of a store (the locale \<open>member_store\<close>, interpreted for plain and for
    dotted names); \<open>Json_Compare\<close> has copies, comparison and schemas against what they mean;
    \<open>Json_Comments\<close> the two passes that blank comments; \<open>Json_Buffer\<close> the two passes of the
    printer over a buffer with their counters of 32 bits, which refine the printer of \<open>Json_Text\<close> for a text that an \<open>int\<close> can
    count, and the overrun for a longer one; \<open>Json_File\<close> reading and writing files.
  \<^item> The memory of \<open>parson.c\<close>: \<open>Json_Growth\<close> has the arrays behind elements and members (\<open>growable\<close> again);
    \<open>Json_Heap\<close> the values as heap objects with their parents and \<open>json_value_free\<close>, where every call
    that changes a container refines the function on trees (\<open>heap_call_refines_tree\<close>); \<open>Json_Copy\<close> \<open>json_value_deep_copy\<close>, whose result
    shares nothing with the original and which frees everything when it fails (\<open>heap_copy_apart\<close>); \<open>Json_Forest\<close> whole programs that
    make, copy, combine and free values: no fault, nothing lost (\<open>program_memory_safe\<close>), and the call that breaks the ownership.
  \<^item> \<open>Http_Client\<close>: the commands of \<open>client.c\<close> over one record; \<open>Http_Session\<close>: what they change
    and send, a session from login to the list of books, and the end of the input.
    \<open>Http_Main\<close>: the connection that is opened and closed for every request, where a call that
    fails ends the program.

  \<^bold>\<open>Bounds and fuel.\<close> The loops of the programs that may run for ever are run on a list of events
  (\<open>router_run\<close>, \<open>server_run\<close>, \<open>subscriber_run\<close>) or for a number of rounds (\<open>client_run\<close>); the
  theorems hold for every list and number. All other loops are total functions: the loops over
  sockets recurse on what is left to arrive, the parser of JSON on the text that is left, with the
  nesting limit of the code (\<open>MAX_NESTING\<close>, 2048). \<open>json_value_free\<close> and \<open>heap_deep_copy\<close> follow pointers and may not
  return, so they have fuel; for freeing the size of the tree is enough (\<open>heap_call_refines_tree\<close>), for copying
  a bound exists and more fuel changes nothing (\<open>heap_copy_apart\<close>, \<open>copy_mono\<close>). The checksum is exact up to the length at which
  its 64-bit accumulator would need a second fold (4 GiB).

  \<^bold>\<open>Parameters.\<close> What the kernel answers (\<open>ioctl\<close>, \<open>select\<close>, \<open>read\<close>, \<open>recv\<close>, \<open>accept\<close>; \<open>socket\<close>, \<open>bind\<close>,
  \<open>listen\<close>, \<open>connect\<close> and \<open>setsockopt\<close> with their failures) is an argument or an event. \<open>strtod\<close> and
  the conversion \<open>%1.17g\<close> are parameters of the JSON theories (\<open>numbers\<close>, a record that also holds
  the setting \<open>parson_escape_slashes\<close>), with the requirement that a number printed is read back
  where a theorem needs it, and an instance on integers for the witnesses. The floating point
  quotients that a subscriber prints are exact to the decimals printed, so that the model prints
  the exact quotient.

  \<^bold>\<open>Not modelled.\<close> System calls that fail inside the loops (\<open>select\<close>, \<open>recv\<close>, \<open>send\<close>, \<open>read\<close>, which
  end the program by \<open>DIE\<close> or \<open>error\<close>) and the effect of a peer that closes its end while data are
  sent to it; \<open>get_sock\<close>, which opens the interfaces of the router; allocations that fail;
  \<open>free_rtable\<close> and \<open>free_arptable\<close>, which no path reaches; \<open>clear_stdin\<close> of the server, by
  which the rest of a line after an invalid command gives no event; the release of
  cookie and token at the end of \<open>client.c\<close>; the Python scripts of \<open>src/PCom1\<close>. Of \<open>parson.c\<close>: the
  failure branches of \<open>malloc\<close> and \<open>json_set_allocation_functions\<close>. Doubles are the parameter
  \<open>numbers\<close>, and their comparison up to 0.000001 the parameter \<open>near\<close> of \<open>json_value_equals\<close>.
\<close>

end
